(* ===== verification/Mr_Prelude.thy ===== *)
theory Mr_Prelude
  imports Main "HOL-Library.Word" "HOL-Library.Char_ord" "HOL-Library.List_Lexorder"
    "HOL-Library.Product_Lexorder" "HOL-Library.Multiset"
begin

text \<open>
  Shared vocabulary of the development.

  \<^item> Go's clock: a \<open>time.Time\<close> is its number of nanoseconds since the Unix epoch (an \<open>int\<close>),
    the zero time is the first of January of year 1, and a \<open>time.Duration\<close> is an int64 number
    of nanoseconds, with Go's saturating \<open>Sub\<close> and wrap-around multiplication written out.
  \<^item> Lists: stable sorts by key, runs of neighbouring elements.
  \<^item> Collections of rules the component theories extend.
\<close>

named_theorems go_time \<open>Unfolding rules of the Go time vocabulary\<close>

section \<open>Machine integers and time\<close>

type_synonym go_time = int
type_synonym duration = int

text \<open>The two's complement value of an unbounded integer in an int64.\<close>

definition wrap64 :: "int \<Rightarrow> int" where
  "wrap64 x = (x + 2 ^ 63) mod 2 ^ 64 - 2 ^ 63"

text \<open>\<open>time.Time.Sub\<close> saturates at the ends of the int64 range.\<close>

definition sat64 :: "int \<Rightarrow> int" where
  "sat64 x = max (- (2 ^ 63)) (min (2 ^ 63 - 1) x)"

definition go_Sub :: "go_time \<Rightarrow> go_time \<Rightarrow> duration" where
  "go_Sub t u = sat64 (t - u)"

definition zero_time :: go_time where
  "zero_time = - 62135596800000000000"

definition go_Second :: duration where "go_Second = 1000000000"
definition go_Minute :: duration where "go_Minute = 60000000000"
definition go_Hour :: duration where "go_Hour = 3600000000000"

lemmas go_units = go_Second_def go_Minute_def go_Hour_def

text \<open>\<open>time.Time.Unix\<close>: the seconds, rounded towards minus infinity.\<close>

definition go_Unix :: "go_time \<Rightarrow> int" where
  "go_Unix t = t div 1000000000"

lemma wrap64_id [simp]: "- (2 ^ 63) \<le> x \<Longrightarrow> x < 2 ^ 63 \<Longrightarrow> wrap64 x = x"
  by (simp add: wrap64_def)

lemma wrap64_range: "- (2 ^ 63) \<le> wrap64 x \<and> wrap64 x < 2 ^ 63"
  by (simp add: wrap64_def)

lemma sat64_id [simp]: "- (2 ^ 63) \<le> x \<Longrightarrow> x < 2 ^ 63 \<Longrightarrow> sat64 x = x"
  by (simp add: sat64_def)

lemma sat64_mono: "x \<le> y \<Longrightarrow> sat64 x \<le> sat64 y"
  by (auto simp: sat64_def)

lemma sat64_le_iff: "d < 2 ^ 63 - 1 \<Longrightarrow> - (2 ^ 63) \<le> d \<Longrightarrow> sat64 x \<le> d \<longleftrightarrow> x \<le> d"
  by (auto simp: sat64_def)

lemma go_Sub_gt_iff: "0 \<le> d \<Longrightarrow> d < 2 ^ 63 - 1 \<Longrightarrow> go_Sub t u > d \<longleftrightarrow> t > u + d"
  by (auto simp: go_Sub_def sat64_def)

lemma go_Sub_ge_iff: "0 \<le> d \<Longrightarrow> d < 2 ^ 63 \<Longrightarrow> go_Sub t u \<ge> d \<longleftrightarrow> t \<ge> u + d"
  by (auto simp: go_Sub_def sat64_def)

lemmas [go_time] = go_Sub_gt_iff go_Sub_ge_iff

section \<open>Strings\<close>

text \<open>A Go string is the list of its bytes; \<open>unicode.IsSpace\<close> on the bytes of ASCII.\<close>

definition go_space :: "char \<Rightarrow> bool" where
  "go_space c \<longleftrightarrow> (let n = (of_char c :: nat) in 9 \<le> n \<and> n \<le> 13 \<or> n = 32)"

definition go_TrimSpace :: "string \<Rightarrow> string" where
  "go_TrimSpace s = rev (dropWhile go_space (rev (dropWhile go_space s)))"

lemma go_TrimSpace_empty: "go_TrimSpace s = [] \<longleftrightarrow> list_all go_space s"
proof (cases "dropWhile go_space s = []")
  case True
  then have "\<forall>x \<in> set s. go_space x" by (simp add: dropWhile_eq_Nil_conv)
  with True show ?thesis unfolding go_TrimSpace_def list_all_iff
    by (simp add: dropWhile_eq_Nil_conv) (blast dest: set_dropWhileD)
next
  case False
  then have "\<not> go_space (hd (dropWhile go_space s))" "hd (dropWhile go_space s) \<in> set (dropWhile go_space s)"
    by (simp_all add: hd_dropWhile)
  then show ?thesis
    using set_dropWhileD [of _ go_space s] by (force simp: go_TrimSpace_def list_all_iff dropWhile_eq_Nil_conv)
qed

section \<open>Results\<close>

text \<open>A Go function returning \<open>(value, error)\<close> is \<open>Inl\<close> of the error or \<open>Inr\<close> of the value.\<close>

abbreviation Err :: "'e \<Rightarrow> 'e + 'a" where "Err \<equiv> Inl"
abbreviation Ok :: "'a \<Rightarrow> 'e + 'a" where "Ok \<equiv> Inr"

section \<open>Lists\<close>

text \<open>
  \<open>sort_key\<close> is a stable insertion sort, so it is what \<open>sort.SliceStable\<close> and an
  \<open>ORDER BY\<close> over the listed rows compute. Descending order is \<open>sort_key\<close> by the negated key.
\<close>

lemma sort_key_sorted_id: "sorted (map f xs) \<Longrightarrow> sort_key f xs = xs"
  by (simp add: sorted_sort_id sort_key_id_if_sorted)

lemma find_Some_in: "find P xs = Some x \<Longrightarrow> x \<in> set xs \<and> P x"
  by (auto simp: find_Some_iff)

lemma find_None_all: "find P xs = None \<longleftrightarrow> (\<forall>x \<in> set xs. \<not> P x)"
  by (auto simp: find_None_iff)

lemma successively_filter_suffix:
  "successively R (xs @ ys) \<Longrightarrow> successively R ys"
  by (simp add: successively_append_iff)

text \<open>A property that only depends on the image under \<open>f\<close> holds on two sets with the same image alike.\<close>

lemma ball_same_image:
  assumes "f ` A = f ` B" "\<And>x y. f x = f y \<Longrightarrow> Q x \<longleftrightarrow> Q y"
  shows "(\<forall>x \<in> A. Q x) \<longleftrightarrow> (\<forall>x \<in> B. Q x)"
proof -
  have *: "\<forall>x \<in> B. Q x" if "f ` A = f ` B" "\<forall>x \<in> A. Q x" for A B
  proof
    fix x assume "x \<in> B"
    then have "f x \<in> f ` A" using that(1) by auto
    then obtain y where y: "y \<in> A" "f x = f y" by auto
    with that(2) have "Q y" by blast
    with assms(2) [OF y(2)] show "Q x" by simp
  qed
  show ?thesis using * [OF assms(1)] * [OF assms(1) [symmetric]] by (rule iffI)
qed

lemma sorted_last_ge: "sorted (map f xs) \<Longrightarrow> x \<in> set xs \<Longrightarrow> f x \<le> f (last xs)"
  by (induction xs) auto

end
