(* ===== verification/Pitr_Types.thy ===== *)
theory Pitr_Types
  imports Mr_Prelude
begin

text \<open>
  The types of \<open>src/internal/pitr/pitr.go\<close>: oplog positions, streams, chains, chunks and
  collector state, with the total order of positions and the order of their printed form.
\<close>

section \<open>Positions in the oplog\<close>

datatype Timestamp = Timestamp (ts_T: "32 word") (ts_I: "32 word")

text \<open>\<open>cmp.Compare\<close> on uint32.\<close>

definition cmp_Compare :: "32 word \<Rightarrow> 32 word \<Rightarrow> int" where
  "cmp_Compare x y = (if x < y then - 1 else if x > y then 1 else 0)"

definition Compare :: "Timestamp \<Rightarrow> Timestamp \<Rightarrow> int" where
  "Compare ts o' = (let c = cmp_Compare (ts_T ts) (ts_T o') in
     if c \<noteq> 0 then c else cmp_Compare (ts_I ts) (ts_I o'))"

definition ts_IsZero :: "Timestamp \<Rightarrow> bool" where
  "ts_IsZero ts \<longleftrightarrow> ts_T ts = 0 \<and> ts_I ts = 0"

abbreviation ts_zero :: Timestamp where "ts_zero \<equiv> Timestamp 0 0"

definition ts_Time :: "Timestamp \<Rightarrow> go_time" where
  "ts_Time ts = uint (ts_T ts) * go_Second"

text \<open>The library's order classes carry the proofs; \<open>Compare_lt\<close> and its companions tie them
  to the code's comparison.\<close>

instantiation Timestamp :: linorder
begin

definition less_eq_Timestamp :: "Timestamp \<Rightarrow> Timestamp \<Rightarrow> bool" where
  "a \<le> b \<longleftrightarrow> ts_T a < ts_T b \<or> ts_T a = ts_T b \<and> ts_I a \<le> ts_I b"

definition less_Timestamp :: "Timestamp \<Rightarrow> Timestamp \<Rightarrow> bool" where
  "a < b \<longleftrightarrow> ts_T a < ts_T b \<or> ts_T a = ts_T b \<and> ts_I a < ts_I b"

instance
  by standard (auto simp: less_eq_Timestamp_def less_Timestamp_def intro: Timestamp.expand)

end

lemma Compare_lt [simp]: "Compare a b < 0 \<longleftrightarrow> a < b"
  and Compare_gt [simp]: "Compare a b > 0 \<longleftrightarrow> b < a"
  and Compare_le [simp]: "Compare a b \<le> 0 \<longleftrightarrow> a \<le> b"
  and Compare_ge [simp]: "Compare a b \<ge> 0 \<longleftrightarrow> b \<le> a"
  by (auto simp: Compare_def cmp_Compare_def Let_def less_Timestamp_def less_eq_Timestamp_def)

lemma Compare_eq [simp]: "Compare a b = 0 \<longleftrightarrow> a = b"
  by (auto simp: Compare_def cmp_Compare_def Let_def intro: Timestamp.expand)

lemma ts_zero_least [simp]: "ts_zero \<le> a"
  by (auto simp: less_eq_Timestamp_def word_gt_0)

text \<open>A position as one number, the sort key for descending orders.\<close>

definition ts_num :: "Timestamp \<Rightarrow> int" where
  "ts_num a = uint (ts_T a) * 2 ^ 32 + uint (ts_I a)"

lemma mixed_radix_less:
  fixes p q i j M :: int
  assumes "0 \<le> i" "i < M" "0 \<le> j" "j < M"
  shows "p * M + i < q * M + j \<longleftrightarrow> p < q \<or> p = q \<and> i < j"
proof (cases p q rule: linorder_cases)
  case less
  then have "(p + 1) * M \<le> q * M" using assms by (intro mult_right_mono) auto
  then show ?thesis using less assms by (simp add: algebra_simps)
next
  case greater
  then have "(q + 1) * M \<le> p * M" using assms by (intro mult_right_mono) auto
  then show ?thesis using greater assms by (simp add: algebra_simps)
qed simp

lemma ts_num_less: "ts_num a < ts_num b \<longleftrightarrow> a < b"
  using uint_lt2p [of "ts_I a"] uint_lt2p [of "ts_I b"]
  by (simp add: ts_num_def mixed_radix_less less_Timestamp_def word_less_def word_uint_eq_iff)

lemma ts_num_le: "ts_num a \<le> ts_num b \<longleftrightarrow> a \<le> b"
  by (simp only: not_less [symmetric] ts_num_less)

lemma ts_num_inj: "ts_num a = ts_num b \<longleftrightarrow> a = b"
  by (cases a b rule: linorder_cases) (auto dest: ts_num_less [THEN iffD2])

section \<open>The printed form\<close>

text \<open>\<open>fmt.Sprintf\<close> with \<open>%010d\<close>: ten decimal digits, most significant first.\<close>

fun digits :: "nat \<Rightarrow> nat \<Rightarrow> string" where
  "digits 0 n = []"
| "digits (Suc k) n = digits k (n div 10) @ [char_of (48 + n mod 10)]"

definition ts_String :: "Timestamp \<Rightarrow> string" where
  "ts_String ts = digits 10 (unat (ts_T ts)) @ ''.'' @ digits 10 (unat (ts_I ts))"

text \<open>Go compares strings bytewise, which is the order of \<open>List_Lexorder\<close> over \<open>Char_ord\<close>.\<close>

lemma string_less_append_same: "(xs :: string) @ ys < xs @ zs \<longleftrightarrow> ys < zs"
  by (induction xs) auto

definition digit :: "nat \<Rightarrow> char" where
  "digit n = char_of (48 + n mod 10)"

lemma of_char_digit [simp]: "of_char (digit n) = 48 + n mod (10 :: nat)"
  by (simp add: digit_def)

lemma digit_eq: "digit m = digit n \<longleftrightarrow> m mod 10 = n mod 10"
  by (metis add_left_cancel digit_def of_char_digit)

lemma digits_snoc: "digits (Suc k) n = digits k (n div 10) @ [digit n]"
  by (simp add: digit_def)

lemma nat_less_div_mod:
  fixes m n :: nat
  shows "m < n \<longleftrightarrow> m div 10 < n div 10 \<or> m div 10 = n div 10 \<and> m mod 10 < n mod 10"
proof -
  have "m = 10 * (m div 10) + m mod 10" "n = 10 * (n div 10) + n mod 10" by simp_all
  moreover have "m mod 10 < 10" "n mod 10 < 10" by simp_all
  ultimately show ?thesis by linarith
qed

lemma nat_eq_div_mod: "(m :: nat) = n \<longleftrightarrow> m div 10 = n div 10 \<and> m mod 10 = n mod 10"
  by (metis div_mult_mod_eq)

lemma string_less_digits:
  assumes "m < 10 ^ k" "n < 10 ^ k"
  shows "digits k m @ xs < digits k n @ ys \<longleftrightarrow> m < n \<or> m = n \<and> xs < ys"
  using assms
proof (induction k arbitrary: m n xs ys)
  case (Suc k)
  have "m div 10 < 10 ^ k" "n div 10 < 10 ^ k"
    using Suc.prems by (simp_all add: less_mult_imp_div_less mult.commute)
  note IH = Suc.IH [OF this]
  have "digits (Suc k) m @ xs < digits (Suc k) n @ ys \<longleftrightarrow>
      m div 10 < n div 10 \<or> m div 10 = n div 10 \<and>
        (m mod 10 < n mod 10 \<or> m mod 10 = n mod 10 \<and> xs < ys)"
    unfolding digits_snoc append_assoc IH by (simp add: digit_eq less_char_def)
  then show ?case
    unfolding nat_less_div_mod [of m n] nat_eq_div_mod [of m n] by blast
qed simp

lemma unat32_digits: "unat (x :: 32 word) < 10 ^ 10"
  using unsigned_less [of x, where ?'a = nat] by simp

lemma ts_String_less: "ts_String a < ts_String b \<longleftrightarrow> a < b"
  unfolding ts_String_def string_less_digits [OF unat32_digits unat32_digits] string_less_append_same
    less_Timestamp_def word_less_nat_alt word_unat_eq_iff
  using string_less_digits [OF unat32_digits unat32_digits, where xs = "[]" and ys = "[]"]
  by simp

section \<open>Streams, chains, chunks and state\<close>

record OpTime =
  ot_TS :: Timestamp
  ot_Term :: int

record OplogWindow =
  ow_Oldest :: Timestamp
  ow_Newest :: Timestamp
  ow_MajorityOpTime :: OpTime
  ow_ReplicaSet :: string
  ow_ReplicaSetID :: string

record OplogRange =
  or_From :: Timestamp
  or_To :: Timestamp
  or_CheckTerm :: bool
  or_FromTerm :: int
  or_StartInclusive :: bool

record OplogStats =
  os_Entries :: int
  os_First :: OpTime
  os_Last :: OpTime

record Stream =
  st_ID :: string
  st_ConnectionID :: string
  st_ReplicaSet :: string
  st_TargetID :: string
  st_Enabled :: bool
  st_BaseCron :: string
  st_BaseKeepCount :: int
  st_BaseKeepDays :: int
  st_OplogMaxDays :: int
  st_ChunkSeconds :: int
  st_BaseOnGap :: bool
  st_ReadPreference :: string
  st_ChainTestCron :: string
  st_ChainTestConnectionID :: string
  st_CopyTargets :: "string list"
  st_CreatedAt :: go_time
  st_UpdatedAt :: go_time

datatype EndReason = EndNone | EndGap | EndReplicaSetChanged | EndDiverged | EndStopped

record Chain =
  cn_StreamID :: string
  cn_ChainID :: string
  cn_Start :: Timestamp
  cn_End :: Timestamp
  cn_EndReason :: EndReason
  cn_EndedAt :: "go_time option"

definition chain_Open :: "Chain \<Rightarrow> bool" where
  "chain_Open c \<longleftrightarrow> cn_EndedAt c = None"

datatype ChunkStatus = ChunkCommitted | ChunkSuperseded | ChunkPruned

record Chunk =
  ck_ID :: string
  ck_StreamID :: string
  ck_ChainID :: string
  ck_TargetID :: string
  ck_StorageKey :: string
  ck_From :: Timestamp
  ck_To :: Timestamp
  ck_FirstTerm :: int
  ck_LastTerm :: int
  ck_Entries :: int
  ck_SizeBytes :: int
  ck_SHA256 :: string
  ck_Encrypted :: bool
  ck_EncryptionMode :: string
  ck_Status :: ChunkStatus
  ck_CreatedAt :: go_time
  ck_VerifiedAt :: "go_time option"
  ck_VerifyError :: string
  ck_DeletedAt :: "go_time option"
  ck_PurgeAfter :: "go_time option"
  ck_VersionID :: string
  ck_RetainUntil :: "go_time option"

definition Live :: "Chunk \<Rightarrow> bool" where
  "Live c \<longleftrightarrow> ck_Status c = ChunkCommitted \<and> ck_DeletedAt c = None"

record ChainSpan =
  sp_ChainID :: string
  sp_From :: Timestamp
  sp_To :: Timestamp
  sp_Chunks :: int
  sp_SizeBytes :: int

datatype CollectorStatus = CollectorStopped | CollectorRunning | CollectorFailed

record State =
  sx_StreamID :: string
  sx_ChainID :: string
  sx_Last :: OpTime
  sx_Status :: CollectorStatus
  sx_LastError :: string
  sx_LagSince :: "go_time option"
  sx_WindowLowSince :: "go_time option"
  sx_ReplicaSetID :: string
  sx_UpdatedAt :: go_time

text \<open>The empty status of a query keeps every status.\<close>

record ChunkQuery =
  cq_StreamID :: string
  cq_ChainID :: string
  cq_After :: Timestamp
  cq_Until :: Timestamp
  cq_Status :: "ChunkStatus option"
  cq_Live :: bool

section \<open>Runs of chunks\<close>

text \<open>Neighbouring chunks meet: each one starts where the previous one ends.\<close>

abbreviation meets :: "Chunk \<Rightarrow> Chunk \<Rightarrow> bool" where
  "meets a b \<equiv> ck_To a = ck_From b"

abbreviation ck_forward :: "Chunk \<Rightarrow> bool" where
  "ck_forward c \<equiv> ck_From c \<le> ck_To c"

end
