(* ===== verification/Pitr_Repo.thy ===== *)
theory Pitr_Repo
  imports Pitr_Types
begin

text \<open>
  The SQLite repository of point-in-time recovery, \<open>src/internal/store/pitr.go\<close>: the four
  tables as lists of rows, every statement as a function on them. A transaction that returns
  an error leaves the tables unchanged. The constraints of the schema are checked where the
  statement meets them. The wall clock of a call is its argument \<open>now\<close>. Input and output errors of
  the database itself are not modelled: they roll the transaction back.
\<close>

section \<open>Tables\<close>

datatype pitr_error = ErrInvalidRecord | ErrNotFound | ErrAlreadyExists | ErrConnectionTaken
  | ErrInUse | ErrChainOpen | ErrChainEnded | ErrDiscontinuous | ErrConstraint

record pitr_db =
  db_streams :: "Stream list"
  db_chains :: "Chain list"
  db_chunks :: "Chunk list"
  db_state :: "State list"

definition empty_db :: pitr_db where
  "empty_db = \<lparr>db_streams = [], db_chains = [], db_chunks = [], db_state = []\<rparr>"

text \<open>Times are stored as int64 nanoseconds, clamped to that range.\<close>

definition timeKey :: "go_time \<Rightarrow> int" where
  "timeKey t = (if t < - (2 ^ 63) then - (2 ^ 63) else if t > 2 ^ 63 - 1 then 2 ^ 63 - 1 else t)"

definition nullTime :: "go_time option \<Rightarrow> int option" where
  "nullTime = map_option timeKey"

text \<open>An \<open>UPDATE\<close> of the rows that satisfy a condition, and the number of rows affected.\<close>

definition update_rows :: "('a \<Rightarrow> bool) \<Rightarrow> ('a \<Rightarrow> 'a) \<Rightarrow> 'a list \<Rightarrow> 'a list" where
  "update_rows P f = map (\<lambda>x. if P x then f x else x)"

definition rows_affected :: "('a \<Rightarrow> bool) \<Rightarrow> 'a list \<Rightarrow> nat" where
  "rows_affected P xs = length (filter P xs)"

section \<open>Streams\<close>

definition stream_checks :: "Stream \<Rightarrow> bool" where
  "stream_checks st \<longleftrightarrow> st_BaseKeepCount st \<ge> 0 \<and> st_BaseKeepDays st \<ge> 0
     \<and> st_OplogMaxDays st \<ge> 0 \<and> st_ChunkSeconds st > 0"

text \<open>Which of two violated unique constraints SQLite reports is the driver's choice
  (\<open>conn_first\<close>).\<close>

definition stream_write_error :: "bool \<Rightarrow> bool \<Rightarrow> bool \<Rightarrow> pitr_error" where
  "stream_write_error conn_first id_taken conn_taken =
     (if conn_taken \<and> (conn_first \<or> \<not> id_taken) then ErrConnectionTaken else ErrAlreadyExists)"

definition CreateStream :: "bool \<Rightarrow> go_time \<Rightarrow> Stream \<Rightarrow> pitr_db \<Rightarrow> pitr_error + (pitr_db \<times> Stream)" where
  "CreateStream conn_first now st db =
     (if st_ID st = [] \<or> st_ConnectionID st = [] then Err ErrInvalidRecord
      else let created = (if st_CreatedAt st = zero_time then now else st_CreatedAt st);
               id_taken = (\<exists>r \<in> set (db_streams db). st_ID r = st_ID st);
               conn_taken = (\<exists>r \<in> set (db_streams db). st_ConnectionID r = st_ConnectionID st) in
        if \<not> stream_checks st then Err ErrConstraint
        else if id_taken \<or> conn_taken then Err (stream_write_error conn_first id_taken conn_taken)
        else Ok (db\<lparr>db_streams := db_streams db @
                     [st\<lparr>st_CreatedAt := timeKey created, st_UpdatedAt := timeKey now\<rparr>]\<rparr>,
                 st\<lparr>st_CreatedAt := created, st_UpdatedAt := now\<rparr>))"

definition UpdateStream :: "go_time \<Rightarrow> Stream \<Rightarrow> pitr_db \<Rightarrow> pitr_error + (pitr_db \<times> Stream)" where
  "UpdateStream now st db =
     (if st_ID st = [] \<or> st_ConnectionID st = [] then Err ErrInvalidRecord
      else case find (\<lambda>r. st_ID r = st_ID st) (db_streams db) of
        None \<Rightarrow> Err ErrNotFound
      | Some old \<Rightarrow>
          if \<not> stream_checks st then Err ErrConstraint
          else if \<exists>r \<in> set (db_streams db). st_ID r \<noteq> st_ID st \<and> st_ConnectionID r = st_ConnectionID st
          then Err ErrConnectionTaken
          else Ok (db\<lparr>db_streams := update_rows (\<lambda>r. st_ID r = st_ID st)
                       (\<lambda>r. st\<lparr>st_CreatedAt := st_CreatedAt r, st_UpdatedAt := timeKey now\<rparr>) (db_streams db)\<rparr>,
                   st\<lparr>st_CreatedAt := st_CreatedAt old, st_UpdatedAt := now\<rparr>))"

definition GetStream :: "string \<Rightarrow> pitr_db \<Rightarrow> pitr_error + Stream" where
  "GetStream sid db = (case find (\<lambda>r. st_ID r = sid) (db_streams db) of
     None \<Rightarrow> Err ErrNotFound | Some r \<Rightarrow> Ok r)"

definition GetStreamByConnection :: "string \<Rightarrow> pitr_db \<Rightarrow> pitr_error + Stream" where
  "GetStreamByConnection cid db = (case find (\<lambda>r. st_ConnectionID r = cid) (db_streams db) of
     None \<Rightarrow> Err ErrNotFound | Some r \<Rightarrow> Ok r)"

definition ListStreams :: "pitr_db \<Rightarrow> Stream list" where
  "ListStreams db = sort_key st_ID (db_streams db)"

definition streamExists :: "string \<Rightarrow> pitr_db \<Rightarrow> bool" where
  "streamExists sid db \<longleftrightarrow> (\<exists>r \<in> set (db_streams db). st_ID r = sid)"

definition DeleteStream :: "string \<Rightarrow> pitr_db \<Rightarrow> pitr_error + pitr_db" where
  "DeleteStream sid db =
     (if \<not> streamExists sid db then Err ErrNotFound
      else if \<exists>c \<in> set (db_chunks db). ck_StreamID c = sid \<and> ck_Status c \<noteq> ChunkPruned then Err ErrInUse
      else Ok \<lparr>db_streams = filter (\<lambda>r. st_ID r \<noteq> sid) (db_streams db),
               db_chains = filter (\<lambda>r. cn_StreamID r \<noteq> sid) (db_chains db),
               db_chunks = filter (\<lambda>r. ck_StreamID r \<noteq> sid) (db_chunks db),
               db_state = filter (\<lambda>r. sx_StreamID r \<noteq> sid) (db_state db)\<rparr>)"

section \<open>Chains\<close>

text \<open>The upsert of the state row keeps the columns the statement does not name.\<close>

definition move_state :: "string \<Rightarrow> string \<Rightarrow> OpTime \<Rightarrow> go_time \<Rightarrow> State list \<Rightarrow> State list" where
  "move_state sid cid start at rows =
     (if \<exists>r \<in> set rows. sx_StreamID r = sid
      then update_rows (\<lambda>r. sx_StreamID r = sid)
             (\<lambda>r. r\<lparr>sx_ChainID := cid, sx_Last := start, sx_UpdatedAt := timeKey at\<rparr>) rows
      else rows @ [\<lparr>sx_StreamID = sid, sx_ChainID = cid, sx_Last = start, sx_Status = CollectorRunning,
                   sx_LastError = [], sx_LagSince = None, sx_WindowLowSince = None,
                   sx_ReplicaSetID = [], sx_UpdatedAt = timeKey at\<rparr>])"

definition StartChain :: "string \<Rightarrow> string \<Rightarrow> OpTime \<Rightarrow> go_time \<Rightarrow> pitr_db \<Rightarrow> pitr_error + pitr_db" where
  "StartChain sid cid start at db =
     (if sid = [] \<or> cid = [] then Err ErrInvalidRecord
      else if \<not> streamExists sid db then Err ErrNotFound
      else if \<exists>c \<in> set (db_chains db). cn_StreamID c = sid \<and> cn_EndedAt c = None then Err ErrChainOpen
      else if \<exists>c \<in> set (db_chains db). cn_StreamID c = sid \<and> cn_ChainID c = cid then Err ErrAlreadyExists
      else Ok (db\<lparr>db_chains := db_chains db @
                   [\<lparr>cn_StreamID = sid, cn_ChainID = cid, cn_Start = ot_TS start, cn_End = ts_zero,
                     cn_EndReason = EndNone, cn_EndedAt = None\<rparr>],
                  db_state := move_state sid cid start at (db_state db)\<rparr>))"

definition openChain :: "string \<Rightarrow> string \<Rightarrow> pitr_db \<Rightarrow> pitr_error option" where
  "openChain sid cid db =
     (case find (\<lambda>c. cn_StreamID c = sid \<and> cn_ChainID c = cid) (db_chains db) of
        None \<Rightarrow> Some ErrNotFound
      | Some c \<Rightarrow> if cn_EndedAt c \<noteq> None then Some ErrChainEnded else None)"

definition EndChain :: "string \<Rightarrow> string \<Rightarrow> Timestamp \<Rightarrow> EndReason \<Rightarrow> go_time \<Rightarrow> pitr_db \<Rightarrow> pitr_error + pitr_db" where
  "EndChain sid cid end' reason at db =
     (if reason = EndNone then Err ErrInvalidRecord
      else case openChain sid cid db of
        Some e \<Rightarrow> Err e
      | None \<Rightarrow> Ok (db\<lparr>db_chains := update_rows (\<lambda>c. cn_StreamID c = sid \<and> cn_ChainID c = cid)
                  (\<lambda>c. c\<lparr>cn_End := end', cn_EndReason := reason, cn_EndedAt := Some (timeKey at)\<rparr>)
                  (db_chains db)\<rparr>))"

definition ListChains :: "string \<Rightarrow> pitr_db \<Rightarrow> Chain list" where
  "ListChains sid db = sort_key (\<lambda>c. (cn_Start c, cn_ChainID c))
     (filter (\<lambda>c. cn_StreamID c = sid) (db_chains db))"

section \<open>Chunks\<close>

definition CommitChunk :: "go_time \<Rightarrow> Chunk \<Rightarrow> pitr_db \<Rightarrow> pitr_error + (pitr_db \<times> Chunk)" where
  "CommitChunk now c db =
     (if ck_ID c = [] \<or> ck_StreamID c = [] \<or> ck_ChainID c = [] \<or> ck_TargetID c = [] \<or> ck_StorageKey c = []
      then Err ErrInvalidRecord
      else if Compare (ck_To c) (ck_From c) < 0 then Err ErrInvalidRecord
      else let created = (if ck_CreatedAt c = zero_time then now else ck_CreatedAt c) in
        case find (\<lambda>r. sx_StreamID r = ck_StreamID c) (db_state db) of
          None \<Rightarrow> Err ErrNotFound
        | Some st \<Rightarrow>
            if sx_ChainID st \<noteq> ck_ChainID c then Err ErrChainEnded
            else case openChain (ck_StreamID c) (ck_ChainID c) db of
              Some e \<Rightarrow> Err e
            | None \<Rightarrow>
                if ot_TS (sx_Last st) \<noteq> ck_From c then Err ErrDiscontinuous
                else if ck_Entries c < 0 \<or> ck_SizeBytes c < 0 then Err ErrConstraint
                else if \<exists>r \<in> set (db_chunks db). ck_ID r = ck_ID c \<or>
                          ck_TargetID r = ck_TargetID c \<and> ck_StorageKey r = ck_StorageKey c
                then Err ErrAlreadyExists
                else Ok (db\<lparr>db_chunks := db_chunks db @
                              [c\<lparr>ck_Status := ChunkCommitted, ck_CreatedAt := timeKey created,
                                 ck_VerifiedAt := nullTime (ck_VerifiedAt c),
                                 ck_DeletedAt := None, ck_PurgeAfter := None,
                                 ck_RetainUntil := nullTime (ck_RetainUntil c)\<rparr>],
                            db_state := update_rows (\<lambda>r. sx_StreamID r = ck_StreamID c)
                              (\<lambda>r. r\<lparr>sx_Last := \<lparr>ot_TS = ck_To c, ot_Term = ck_LastTerm c\<rparr>,
                                      sx_Status := CollectorRunning, sx_LastError := [],
                                      sx_UpdatedAt := timeKey created\<rparr>) (db_state db)\<rparr>,
                         c\<lparr>ck_CreatedAt := created, ck_Status := ChunkCommitted\<rparr>))"

definition chunk_order :: "Chunk \<Rightarrow> Timestamp \<times> Timestamp \<times> string" where
  "chunk_order c = (ck_From c, ck_To c, ck_ID c)"

definition chunk_selected :: "ChunkQuery \<Rightarrow> Chunk \<Rightarrow> bool" where
  "chunk_selected q c \<longleftrightarrow> ck_StreamID c = cq_StreamID q \<and> ck_ChainID c = cq_ChainID q
     \<and> (ts_IsZero (cq_After q) \<or> Compare (ck_To c) (cq_After q) > 0)
     \<and> (ts_IsZero (cq_Until q) \<or> Compare (ck_From c) (cq_Until q) < 0)
     \<and> (case cq_Status q of None \<Rightarrow> True | Some s \<Rightarrow> ck_Status c = s)
     \<and> (cq_Live q \<longrightarrow> ck_DeletedAt c = None \<and> ck_Status c \<noteq> ChunkPruned)"

definition ListChunks :: "ChunkQuery \<Rightarrow> pitr_db \<Rightarrow> pitr_error + Chunk list" where
  "ListChunks q db =
     (if cq_StreamID q = [] \<or> cq_ChainID q = [] then Err ErrInvalidRecord
      else Ok (sort_key chunk_order (filter (chunk_selected q) (db_chunks db))))"

text \<open>SQLite's \<open>LIMIT\<close> and \<open>OFFSET\<close>: a negative limit means no limit, a negative offset none.\<close>

definition sql_page :: "int \<Rightarrow> int \<Rightarrow> 'a list \<Rightarrow> 'a list" where
  "sql_page limit offset xs =
     (let ys = drop (nat offset) xs in if limit < 0 then ys else take (nat limit) ys)"

definition ListStreamChunks :: "string \<Rightarrow> int \<Rightarrow> int \<Rightarrow> pitr_db \<Rightarrow> Chunk list \<times> nat" where
  "ListStreamChunks sid limit offset db =
     (let rows = filter (\<lambda>c. ck_StreamID c = sid) (db_chunks db) in
      (sql_page limit offset (rev (sort_key (\<lambda>c. (ck_To c, ck_ID c)) rows)), length rows))"

definition live_rows :: "string \<Rightarrow> string \<Rightarrow> pitr_db \<Rightarrow> Chunk list" where
  "live_rows sid cid db = filter (\<lambda>c. ck_StreamID c = sid \<and> ck_ChainID c = cid \<and> Live c) (db_chunks db)"

definition chain_span :: "pitr_db \<Rightarrow> Chain \<Rightarrow> ChainSpan" where
  "chain_span db c =
     (let rows = live_rows (cn_StreamID c) (cn_ChainID c) db in
      \<lparr>sp_ChainID = cn_ChainID c,
       sp_From = (if rows = [] then ts_zero else hd (sort (map ck_From rows))),
       sp_To = (if rows = [] then ts_zero else last (sort (map ck_To rows))),
       sp_Chunks = int (length rows), sp_SizeBytes = sum_list (map ck_SizeBytes rows)\<rparr>)"

definition ChainSpans :: "string \<Rightarrow> pitr_db \<Rightarrow> ChainSpan list" where
  "ChainSpans sid db = map (chain_span db) (ListChains sid db)"

definition update_chunk :: "(Chunk \<Rightarrow> bool) \<Rightarrow> (Chunk \<Rightarrow> Chunk) \<Rightarrow> pitr_db \<Rightarrow> pitr_error + pitr_db" where
  "update_chunk P f db = (if rows_affected P (db_chunks db) = 0 then Err ErrNotFound
     else Ok (db\<lparr>db_chunks := update_rows P f (db_chunks db)\<rparr>))"

definition MarkChunkVerified :: "string \<Rightarrow> go_time \<Rightarrow> string \<Rightarrow> pitr_db \<Rightarrow> pitr_error + pitr_db" where
  "MarkChunkVerified cid at verifyError = update_chunk (\<lambda>c. ck_ID c = cid)
     (\<lambda>c. c\<lparr>ck_VerifiedAt := Some (timeKey at), ck_VerifyError := verifyError\<rparr>)"

definition deletable :: "Chunk \<Rightarrow> bool" where
  "deletable c \<longleftrightarrow> ck_DeletedAt c = None \<and> ck_Status c \<noteq> ChunkPruned"

fun DeleteChunks :: "string list \<Rightarrow> go_time \<Rightarrow> go_time \<Rightarrow> pitr_db \<Rightarrow> pitr_db \<times> nat" where
  "DeleteChunks [] at purgeAfter db = (db, 0)"
| "DeleteChunks (i # ids) at purgeAfter db =
     (let P = (\<lambda>c. ck_ID c = i \<and> deletable c);
          (db', n) = DeleteChunks ids at purgeAfter
            (db\<lparr>db_chunks := update_rows P (\<lambda>c. c\<lparr>ck_DeletedAt := Some (timeKey at),
                                    ck_PurgeAfter := Some (timeKey purgeAfter)\<rparr>) (db_chunks db)\<rparr>)
      in (db', rows_affected P (db_chunks db) + n))"

definition purgeable :: "string \<Rightarrow> go_time \<Rightarrow> Chunk \<Rightarrow> bool" where
  "purgeable sid now c \<longleftrightarrow> ck_StreamID c = sid
     \<and> (case ck_PurgeAfter c of None \<Rightarrow> False | Some t \<Rightarrow> t \<le> timeKey now)
     \<and> ck_Status c \<noteq> ChunkPruned
     \<and> (case ck_RetainUntil c of None \<Rightarrow> True | Some t \<Rightarrow> t \<le> timeKey now)"

definition ListPurgeableChunks :: "string \<Rightarrow> go_time \<Rightarrow> int \<Rightarrow> pitr_db \<Rightarrow> Chunk list" where
  "ListPurgeableChunks sid now limit db = sql_page limit 0
     (sort_key (\<lambda>c. (the (ck_PurgeAfter c), ck_ID c)) (filter (purgeable sid now) (db_chunks db)))"

definition SetChunkRetainUntil :: "string \<Rightarrow> go_time \<Rightarrow> pitr_db \<Rightarrow> pitr_error + pitr_db" where
  "SetChunkRetainUntil cid until = update_chunk (\<lambda>c. ck_ID c = cid)
     (\<lambda>c. c\<lparr>ck_RetainUntil := Some (timeKey until)\<rparr>)"

definition MarkChunkPruned :: "string \<Rightarrow> pitr_db \<Rightarrow> pitr_error + pitr_db" where
  "MarkChunkPruned cid = update_chunk
     (\<lambda>c. ck_ID c = cid \<and> ck_DeletedAt c \<noteq> None \<and> ck_Status c \<noteq> ChunkPruned)
     (\<lambda>c. c\<lparr>ck_Status := ChunkPruned\<rparr>)"

text \<open>Chunks never verified sort first; \<open>NULL\<close>s sort before values in SQLite.\<close>

definition ListChunksToVerify :: "go_time \<Rightarrow> int \<Rightarrow> pitr_db \<Rightarrow> Chunk list" where
  "ListChunksToVerify before limit db = sql_page limit 0
     (sort_key (\<lambda>c. (ck_VerifiedAt c \<noteq> None, case ck_VerifiedAt c of None \<Rightarrow> 0 | Some t \<Rightarrow> t,
                     ck_CreatedAt c, ck_ID c))
       (filter (\<lambda>c. ck_Status c = ChunkCommitted \<and> ck_DeletedAt c = None
          \<and> (case ck_VerifiedAt c of None \<Rightarrow> True | Some t \<Rightarrow> t < timeKey before)) (db_chunks db)))"

definition superseding :: "string \<Rightarrow> string \<Rightarrow> Timestamp \<Rightarrow> Chunk \<Rightarrow> bool" where
  "superseding sid cid after c \<longleftrightarrow> ck_StreamID c = sid \<and> ck_ChainID c = cid
     \<and> ck_Status c = ChunkCommitted \<and> Compare (ck_To c) after > 0"

definition SupersedeChunks :: "string \<Rightarrow> string \<Rightarrow> Timestamp \<Rightarrow> pitr_db \<Rightarrow> pitr_db \<times> nat" where
  "SupersedeChunks sid cid after db =
     (db\<lparr>db_chunks := update_rows (superseding sid cid after)
          (\<lambda>c. c\<lparr>ck_Status := ChunkSuperseded\<rparr>) (db_chunks db)\<rparr>,
      rows_affected (superseding sid cid after) (db_chunks db))"

section \<open>Collector state\<close>

definition LoadState :: "string \<Rightarrow> pitr_db \<Rightarrow> pitr_error + State" where
  "LoadState sid db = (case find (\<lambda>r. sx_StreamID r = sid) (db_state db) of
     None \<Rightarrow> Err ErrNotFound | Some r \<Rightarrow> Ok r)"

definition update_state :: "string \<Rightarrow> (State \<Rightarrow> State) \<Rightarrow> pitr_db \<Rightarrow> pitr_error + pitr_db" where
  "update_state sid f db = (if rows_affected (\<lambda>r. sx_StreamID r = sid) (db_state db) = 0 then Err ErrNotFound
     else Ok (db\<lparr>db_state := update_rows (\<lambda>r. sx_StreamID r = sid) f (db_state db)\<rparr>))"

definition SetCollectorStatus :: "string \<Rightarrow> CollectorStatus \<Rightarrow> string \<Rightarrow> go_time option \<Rightarrow> go_time
    \<Rightarrow> pitr_db \<Rightarrow> pitr_error + pitr_db" where
  "SetCollectorStatus sid status lastError lagSince at = update_state sid
     (\<lambda>r. r\<lparr>sx_Status := status, sx_LastError := lastError, sx_LagSince := nullTime lagSince,
            sx_UpdatedAt := timeKey at\<rparr>)"

definition SetWindowLow :: "string \<Rightarrow> go_time option \<Rightarrow> pitr_db \<Rightarrow> pitr_error + pitr_db" where
  "SetWindowLow sid since = update_state sid (\<lambda>r. r\<lparr>sx_WindowLowSince := nullTime since\<rparr>)"

definition SetReplicaSetID :: "string \<Rightarrow> string \<Rightarrow> pitr_db \<Rightarrow> pitr_error + pitr_db" where
  "SetReplicaSetID sid rsid = update_state sid (\<lambda>r. r\<lparr>sx_ReplicaSetID := rsid\<rparr>)"

end
