(* ===== verification/Pitr_Plan.thy ===== *)
theory Pitr_Plan
  imports Pitr_Repo
begin

text \<open>
  The planner of point-in-time restores, \<open>src/internal/pitr/plan.go\<close>. The repository is the pair of
  listing functions of \<open>PlanSource\<close>, as the code reads it through its interface; errors carry the code's
  sentinel and not its message. Strings are bytes, and white space is that of ASCII.
\<close>

section \<open>Targets\<close>

datatype plan_error = ErrInvalidTarget | ErrOutsideWindow | ErrChainBreak | ErrChunkFailed | ErrKeyMissing
  | ErrPlanStale | ErrNoStream | ErrRepo pitr_error

record Target =
  tg_At :: go_time
  tg_TS :: "Timestamp option"

definition Limit :: "Target \<Rightarrow> plan_error + Timestamp" where
  "Limit t =
     (if (tg_At t = zero_time) = (tg_TS t = None) then Err ErrInvalidTarget
      else case tg_TS t of
        Some ts \<Rightarrow> if ts_IsZero ts then Err ErrInvalidTarget else Ok ts
      | None \<Rightarrow>
          let s = go_Unix (tg_At t) in
          if s \<le> 0 \<or> s \<ge> 2 ^ 32 - 1 then Err ErrInvalidTarget
          else Ok (Timestamp (word_of_int s + 1) 0))"

section \<open>Bases and plans\<close>

record Base =
  b_ID :: string
  b_TBefore :: OpTime
  b_TAfter :: OpTime
  b_SizeBytes :: int
  b_Encrypted :: bool
  b_EncryptionMode :: string
  b_StartedAt :: go_time

record PlanSource =
  ps_ListChains :: "string \<Rightarrow> pitr_error + Chain list"
  ps_ListChunks :: "ChunkQuery \<Rightarrow> pitr_error + Chunk list"
  ps_Bases :: "Base list"
  ps_HasKey :: "(string \<Rightarrow> bool) option"

record RestorePlan =
  rp_StreamID :: string
  rp_ChainID :: string
  rp_Base :: Base
  rp_Chunks :: "Chunk list"
  rp_ChunkCount :: int
  rp_OplogBytes :: int
  rp_UnverifiedChunks :: int
  rp_Limit :: Timestamp
  rp_TargetTime :: go_time

text \<open>\<open>strings.TrimSpace(s) == ""\<close>.\<close>

definition is_blank :: "string \<Rightarrow> bool" where
  "is_blank s \<longleftrightarrow> go_TrimSpace s = []"

section \<open>Planning from one base\<close>

text \<open>The search for the chunk that holds T_before: the chunks from it on.\<close>

fun findStart :: "Timestamp \<Rightarrow> Chunk list \<Rightarrow> Chunk list option" where
  "findStart tb [] = None"
| "findStart tb (ch # chs) =
     (if Compare (ck_To ch) tb \<ge> 0
      then (if Compare (ck_From ch) tb \<le> 0 then Some (ch # chs) else None)
      else findStart tb chs)"

text \<open>The loop over the chunks: \<open>acc\<close> holds the chunks taken so far, \<open>None\<close> means that the chunks ran
  out before the limit.\<close>

definition term_outside :: "Base \<Rightarrow> Chunk \<Rightarrow> bool" where
  "term_outside b ch \<longleftrightarrow> ot_Term (b_TAfter b) \<noteq> 0
     \<and> (ot_Term (b_TAfter b) < ck_FirstTerm ch \<or> ot_Term (b_TAfter b) > ck_LastTerm ch)"

definition holds_TAfter :: "Base \<Rightarrow> Chunk \<Rightarrow> bool" where
  "holds_TAfter b ch \<longleftrightarrow> Compare (ck_From ch) (ot_TS (b_TAfter b)) < 0 \<and> Compare (ck_To ch) (ot_TS (b_TAfter b)) \<ge> 0"

fun planLoop :: "Base \<Rightarrow> Timestamp \<Rightarrow> bool \<Rightarrow> Chunk list \<Rightarrow> int \<Rightarrow> int \<Rightarrow> Chunk list
    \<Rightarrow> (plan_error + (Chunk list \<times> int \<times> int)) option" where
  "planLoop b limit termOK acc bytes unver [] = None"
| "planLoop b limit termOK acc bytes unver (ch # chs) =
     (if acc \<noteq> [] \<and> ck_From ch \<noteq> ck_To (last acc) then Some (Err ErrChainBreak)
      else if is_blank (ck_SHA256 ch) then Some (Err ErrChunkFailed)
      else if ck_VerifyError ch \<noteq> [] then Some (Err ErrChunkFailed)
      else if \<not> termOK \<and> holds_TAfter b ch \<and> term_outside b ch then Some (Err ErrChainBreak)
      else let termOK' = (termOK \<or> holds_TAfter b ch);
               acc' = acc @ [ch];
               bytes' = wrap64 (bytes + ck_SizeBytes ch);
               unver' = (if ck_VerifiedAt ch = None then unver + 1 else unver) in
        if Compare (ck_To ch) limit \<ge> 0
        then if \<not> termOK' \<and> Compare (ot_TS (b_TAfter b)) (ck_From (hd acc')) > 0 then Some (Err ErrChainBreak)
             else Some (Ok (acc', bytes', unver'))
        else planLoop b limit termOK' acc' bytes' unver' chs)"

definition chunks_of :: "(string \<rightharpoonup> Chunk list) \<Rightarrow> Chain \<Rightarrow> Chunk list" where
  "chunks_of byChain c = (case byChain (cn_ChainID c) of None \<Rightarrow> [] | Some cks \<Rightarrow> cks)"

fun planFrom :: "Chain list \<Rightarrow> (string \<rightharpoonup> Chunk list) \<Rightarrow> Base \<Rightarrow> Timestamp \<Rightarrow> plan_error + RestorePlan" where
  "planFrom [] byChain b limit = Err ErrChainBreak"
| "planFrom (c # cs) byChain b limit =
     (case findStart (ot_TS (b_TBefore b)) (chunks_of byChain c) of
        None \<Rightarrow> planFrom cs byChain b limit
      | Some chunks \<Rightarrow>
          (case planLoop b limit False [] 0 0 chunks of
             None \<Rightarrow> Err ErrChainBreak
           | Some (Inl e) \<Rightarrow> Err e
           | Some (Inr (cks, bytes, unver)) \<Rightarrow>
               Ok \<lparr>rp_StreamID = [], rp_ChainID = cn_ChainID c, rp_Base = b, rp_Chunks = cks,
                   rp_ChunkCount = int (length cks), rp_OplogBytes = bytes, rp_UnverifiedChunks = unver,
                   rp_Limit = limit, rp_TargetTime = zero_time\<rparr>))"

section \<open>Planning a restore\<close>

definition key_missing :: "(string \<Rightarrow> bool) option \<Rightarrow> bool \<Rightarrow> string \<Rightarrow> bool" where
  "key_missing hasKey encrypted mode \<longleftrightarrow> encrypted \<and> (case hasKey of None \<Rightarrow> True | Some h \<Rightarrow> \<not> h mode)"

definition checkKeys :: "RestorePlan \<Rightarrow> (string \<Rightarrow> bool) option \<Rightarrow> plan_error option" where
  "checkKeys plan hasKey =
     (if key_missing hasKey (b_Encrypted (rp_Base plan)) (b_EncryptionMode (rp_Base plan)) then Some ErrKeyMissing
      else if \<exists>ch \<in> set (rp_Chunks plan). key_missing hasKey (ck_Encrypted ch) (ck_EncryptionMode ch)
      then Some ErrKeyMissing else None)"

definition committed_query :: "string \<Rightarrow> string \<Rightarrow> ChunkQuery" where
  "committed_query sid cid = \<lparr>cq_StreamID = sid, cq_ChainID = cid, cq_After = ts_zero, cq_Until = ts_zero,
     cq_Status = Some ChunkCommitted, cq_Live = True\<rparr>"

text \<open>The loop that lists the chunks of every chain and finds the newest position.\<close>

fun listChains :: "PlanSource \<Rightarrow> string \<Rightarrow> Chain list \<Rightarrow> (string \<rightharpoonup> Chunk list) \<Rightarrow> Timestamp
    \<Rightarrow> plan_error + ((string \<rightharpoonup> Chunk list) \<times> Timestamp)" where
  "listChains src sid [] byChain newest = Ok (byChain, newest)"
| "listChains src sid (c # cs) byChain newest =
     (case ps_ListChunks src (committed_query sid (cn_ChainID c)) of
        Inl e \<Rightarrow> Err (ErrRepo e)
      | Inr chunks \<Rightarrow>
          let live = filter Live chunks;
              newest' = (if live \<noteq> [] \<and> Compare (ck_To (last live)) newest > 0 then ck_To (last live) else newest)
          in listChains src sid cs (byChain(cn_ChainID c \<mapsto> live)) newest')"

definition targetTime :: "Target \<Rightarrow> go_time" where
  "targetTime t = (case tg_TS t of Some ts \<Rightarrow> ts_Time ts | None \<Rightarrow> go_Unix (tg_At t) * go_Second)"

fun tryBases :: "Chain list \<Rightarrow> (string \<rightharpoonup> Chunk list) \<Rightarrow> Timestamp \<Rightarrow> plan_error option \<Rightarrow> Base list
    \<Rightarrow> plan_error + RestorePlan" where
  "tryBases chns byChain limit firstErr [] =
     Err (case firstErr of None \<Rightarrow> ErrOutsideWindow | Some e \<Rightarrow> e)"
| "tryBases chns byChain limit firstErr (b # bs) =
     (case planFrom chns byChain b limit of
        Inr plan \<Rightarrow> Ok plan
      | Inl e \<Rightarrow> tryBases chns byChain limit (case firstErr of None \<Rightarrow> Some e | Some e' \<Rightarrow> Some e') bs)"

definition candidates :: "Timestamp \<Rightarrow> Base list \<Rightarrow> Base list" where
  "candidates limit bases = sort_key (\<lambda>b. - ts_num (ot_TS (b_TAfter b)))
     (filter (\<lambda>b. Compare (ot_TS (b_TAfter b)) limit < 0 \<and> \<not> ts_IsZero (ot_TS (b_TBefore b))) bases)"

definition PlanRestore :: "Stream option \<Rightarrow> PlanSource \<Rightarrow> Target \<Rightarrow> plan_error + RestorePlan" where
  "PlanRestore stream src target =
     (case stream of
        None \<Rightarrow> Err ErrNoStream
      | Some st \<Rightarrow>
        (case Limit target of
           Inl e \<Rightarrow> Err e
         | Inr limit \<Rightarrow>
           (case ps_ListChains src (st_ID st) of
              Inl e \<Rightarrow> Err (ErrRepo e)
            | Inr chns \<Rightarrow>
              (case listChains src (st_ID st) chns Map.empty ts_zero of
                 Inl e \<Rightarrow> Err e
               | Inr (byChain, newest) \<Rightarrow>
                 if Compare limit newest > 0 then Err ErrOutsideWindow
                 else let bases = candidates limit (ps_Bases src) in
                   if bases = [] then Err ErrOutsideWindow
                   else (case tryBases chns byChain limit None bases of
                           Inl e \<Rightarrow> Err e
                         | Inr plan \<Rightarrow>
                             let plan' = plan\<lparr>rp_StreamID := st_ID st, rp_TargetTime := targetTime target\<rparr> in
                             (case checkKeys plan' (ps_HasKey src) of
                                Some e \<Rightarrow> Err e
                              | None \<Rightarrow> Ok plan'))))))"

section \<open>Rechecking a plan\<close>

definition before_position :: "Timestamp \<Rightarrow> Timestamp" where
  "before_position p = (if ts_I p > 0 then Timestamp (ts_T p) (ts_I p - 1)
     else if ts_T p > 0 then Timestamp (ts_T p - 1) (- 1) else ts_zero)"

definition after_position :: "Timestamp \<Rightarrow> Timestamp" where
  "after_position p = (if ts_I p < - 1 then Timestamp (ts_T p) (ts_I p + 1)
     else if ts_T p < - 1 then Timestamp (ts_T p + 1) 0 else ts_zero)"

definition CheckPlanLive :: "PlanSource \<Rightarrow> RestorePlan option \<Rightarrow> plan_error option" where
  "CheckPlanLive src plan =
     (case plan of
        None \<Rightarrow> None
      | Some p \<Rightarrow>
        if rp_Chunks p = [] then None
        else (case ps_ListChunks src \<lparr>cq_StreamID = rp_StreamID p, cq_ChainID = rp_ChainID p,
                     cq_After = before_position (ck_From (hd (rp_Chunks p))),
                     cq_Until = after_position (ck_To (last (rp_Chunks p))),
                     cq_Status = Some ChunkCommitted, cq_Live = True\<rparr> of
                Inl e \<Rightarrow> Some (ErrRepo e)
              | Inr chunks \<Rightarrow>
                  let live = map ck_ID (filter Live chunks) in
                  if \<exists>ch \<in> set (rp_Chunks p). ck_ID ch \<notin> set live then Some ErrPlanStale else None))"

end
