(* ===== verification/Pitr_Repo_Inv.thy ===== *)
theory Pitr_Repo_Inv
  imports Pitr_Repo
begin

text \<open>
  The invariant of the PITR tables and its preservation by every statement of
  \<open>src/internal/store/pitr.go\<close>: keys are unique, a stream has at most one open chain, the
  collector state points at a chain of its stream, and the chunk rows of every chain form one
  unbroken run from the chain's start to the stored position.
\<close>

section \<open>Unbroken runs\<close>

fun run_from :: "Timestamp \<Rightarrow> Chunk list \<Rightarrow> Timestamp \<Rightarrow> bool" where
  "run_from s [] e \<longleftrightarrow> s = e"
| "run_from s (c # cs) e \<longleftrightarrow> ck_From c = s \<and> ck_From c \<le> ck_To c \<and> run_from (ck_To c) cs e"

abbreviation ck_span :: "Chunk \<Rightarrow> Timestamp \<times> Timestamp" where
  "ck_span c \<equiv> (ck_From c, ck_To c)"

lemma run_from_append:
  "run_from s (xs @ ys) e \<longleftrightarrow> (\<exists>m. run_from s xs m \<and> run_from m ys e)"
  by (induction xs arbitrary: s) auto

lemma run_from_le: "run_from s cs e \<Longrightarrow> s \<le> e"
proof (induction cs arbitrary: s)
  case (Cons c cs)
  then have "ck_From c = s" "s \<le> ck_To c" "ck_To c \<le> e" by auto
  then show ?case by auto
qed simp

lemma run_from_bounds:
  "run_from s cs e \<Longrightarrow> c \<in> set cs \<Longrightarrow> s \<le> ck_From c \<and> ck_From c \<le> ck_To c \<and> ck_To c \<le> e"
proof (induction cs arbitrary: s)
  case (Cons d cs)
  from Cons.prems(1) have d: "ck_From d = s" "s \<le> ck_To d" "run_from (ck_To d) cs e" by auto
  show ?case
  proof (cases "c = d")
    case True
    then show ?thesis using d run_from_le by auto
  next
    case False
    then show ?thesis using Cons.IH [OF d(3)] Cons.prems(2) d(2) by auto
  qed
qed simp

lemma run_from_successively: "run_from s cs e \<Longrightarrow> successively meets cs"
proof (induction cs arbitrary: s)
  case (Cons c cs)
  from Cons.prems have "run_from (ck_To c) cs e" by simp
  with Cons.IH have "successively meets cs" "cs \<noteq> [] \<longrightarrow> ck_To c = ck_From (hd cs)"
    by (blast, cases cs, simp_all)
  then show ?case by (auto simp: successively_Cons)
qed simp

lemma meets_run:
  "cks \<noteq> [] \<Longrightarrow> successively meets cks \<Longrightarrow> \<forall>k \<in> set cks. ck_forward k \<Longrightarrow>
   run_from (ck_From (hd cks)) cks (ck_To (last cks))"
proof (induction cks)
  case (Cons c cs)
  then show ?case by (cases cs) auto
qed simp

lemma run_from_cong: "map ck_span xs = map ck_span ys \<Longrightarrow> run_from s xs e = run_from s ys e"
proof (induction xs arbitrary: ys s)
  case (Cons x xs)
  then obtain y ys' where ys: "ys = y # ys'" by (cases ys) auto
  with Cons.prems have "ck_From x = ck_From y" "ck_To x = ck_To y" "map ck_span xs = map ck_span ys'"
    by simp_all
  with Cons.IH [of ys' "ck_To x"] show ?case by (simp add: ys)
qed simp

lemma run_from_sorted: "run_from s cs e \<Longrightarrow> sorted (map ck_span cs)"
proof (induction cs arbitrary: s)
  case (Cons c cs)
  have "(ck_From c, ck_To c) \<le> (ck_From d, ck_To d)" if "d \<in> set cs" for d
    using Cons.prems run_from_bounds [of "ck_To c" cs e d] that
    by (auto simp: less_eq_prod_def)
  then show ?case using Cons by auto
qed simp

lemma sorted_map_span: "sorted (map ck_span (sort_key chunk_order cs))"
proof -
  have "sorted (map chunk_order (sort_key chunk_order cs))" by simp
  then show ?thesis
    unfolding sorted_map
    by (rule sorted_wrt_mono_rel [rotated]) (auto simp: chunk_order_def less_eq_prod_def)
qed

lemma map_span_sort:
  assumes "sorted (map ck_span cs)"
  shows "map ck_span (sort_key chunk_order cs) = map ck_span cs"
proof -
  have "mset (map ck_span (sort_key chunk_order cs)) = mset (map ck_span cs)" by simp
  from properties_for_sort [OF this sorted_map_span] sorted_sort_id [OF assms] show ?thesis
    by simp
qed

lemma run_from_sort: "run_from s cs e \<Longrightarrow> run_from s (sort_key chunk_order cs) e"
  using run_from_cong [OF map_span_sort [OF run_from_sorted]] by blast

section \<open>The invariant\<close>

definition rows_of :: "string \<Rightarrow> string \<Rightarrow> Chunk list \<Rightarrow> Chunk list" where
  "rows_of sid cid cks = filter (\<lambda>c. ck_StreamID c = sid \<and> ck_ChainID c = cid) cks"

definition inv_streams :: "pitr_db \<Rightarrow> bool" where
  "inv_streams db \<longleftrightarrow> distinct (map st_ID (db_streams db)) \<and> distinct (map st_ConnectionID (db_streams db))
     \<and> (\<forall>st \<in> set (db_streams db). stream_checks st)"

definition inv_chains :: "pitr_db \<Rightarrow> bool" where
  "inv_chains db \<longleftrightarrow> distinct (map (\<lambda>c. (cn_StreamID c, cn_ChainID c)) (db_chains db))
     \<and> distinct (map cn_StreamID (filter chain_Open (db_chains db)))
     \<and> (\<forall>c \<in> set (db_chains db). streamExists (cn_StreamID c) db)
     \<and> (\<forall>c \<in> set (db_chains db). cn_StreamID c \<noteq> [] \<and> cn_ChainID c \<noteq> [])"

definition state_at :: "State \<Rightarrow> Chain \<Rightarrow> bool" where
  "state_at s c \<longleftrightarrow> sx_StreamID s = cn_StreamID c \<and> sx_ChainID s = cn_ChainID c"

definition inv_state :: "pitr_db \<Rightarrow> bool" where
  "inv_state db \<longleftrightarrow> distinct (map sx_StreamID (db_state db))
     \<and> (\<forall>s \<in> set (db_state db). \<exists>c \<in> set (db_chains db). state_at s c)
     \<and> (\<forall>c \<in> set (db_chains db). chain_Open c \<longrightarrow> (\<exists>s \<in> set (db_state db). state_at s c))"

definition inv_chunks :: "pitr_db \<Rightarrow> bool" where
  "inv_chunks db \<longleftrightarrow> distinct (map ck_ID (db_chunks db))
     \<and> distinct (map (\<lambda>c. (ck_TargetID c, ck_StorageKey c)) (db_chunks db))
     \<and> (\<forall>k \<in> set (db_chunks db). \<exists>c \<in> set (db_chains db).
          ck_StreamID k = cn_StreamID c \<and> ck_ChainID k = cn_ChainID c)"

definition inv_runs :: "pitr_db \<Rightarrow> bool" where
  "inv_runs db \<longleftrightarrow> (\<forall>c \<in> set (db_chains db). \<exists>e.
     run_from (cn_Start c) (rows_of (cn_StreamID c) (cn_ChainID c) (db_chunks db)) e
     \<and> (\<forall>s \<in> set (db_state db). state_at s c \<longrightarrow> ot_TS (sx_Last s) = e))"

text \<open>The lifecycle of a chunk row: deleted before pruned, with a purge time.\<close>

definition chunk_life :: "Chunk \<Rightarrow> bool" where
  "chunk_life k \<longleftrightarrow> (ck_DeletedAt k = None \<longleftrightarrow> ck_PurgeAfter k = None)
     \<and> (ck_Status k = ChunkPruned \<longrightarrow> ck_DeletedAt k \<noteq> None)"

definition inv_life :: "pitr_db \<Rightarrow> bool" where
  "inv_life db \<longleftrightarrow> (\<forall>k \<in> set (db_chunks db). chunk_life k)"

definition pitr_inv :: "pitr_db \<Rightarrow> bool" where
  "pitr_inv db \<longleftrightarrow> inv_streams db \<and> inv_chains db \<and> inv_state db \<and> inv_chunks db
     \<and> inv_runs db \<and> inv_life db"

lemmas pitr_inv_defs = pitr_inv_def inv_streams_def inv_chains_def inv_state_def inv_chunks_def
  inv_runs_def inv_life_def

lemma pitr_inv_empty: "pitr_inv empty_db"
  by (simp add: pitr_inv_defs empty_db_def)

section \<open>Statements that keep the skeleton of the rows\<close>

lemma map_update_rows: "(\<And>x. P x \<Longrightarrow> g (f x) = g x) \<Longrightarrow> map g (update_rows P f xs) = map g xs"
  by (simp add: update_rows_def)

lemma set_update_rows: "y \<in> set (update_rows P f xs) \<longleftrightarrow> (\<exists>x \<in> set xs. y = (if P x then f x else x))"
  by (auto simp: update_rows_def)

definition ck_core :: "Chunk \<Rightarrow> (string \<times> string \<times> string) \<times> (string \<times> string) \<times> Timestamp \<times> Timestamp" where
  "ck_core c = ((ck_ID c, ck_StreamID c, ck_ChainID c), (ck_TargetID c, ck_StorageKey c), ck_From c, ck_To c)"

lemma map_core_project:
  assumes "map ck_core xs = map ck_core ys"
  shows "map (\<lambda>c. h (ck_core c)) xs = map (\<lambda>c. h (ck_core c)) ys"
proof -
  have "map h (map ck_core xs) = map h (map ck_core ys)" using assms by simp
  then show ?thesis by (simp add: comp_def)
qed

lemma rows_of_core:
  "map ck_core xs = map ck_core ys \<Longrightarrow> map ck_core (rows_of sid cid xs) = map ck_core (rows_of sid cid ys)"
proof (induction xs arbitrary: ys)
  case (Cons x xs)
  then obtain y ys' where ys: "ys = y # ys'" "ck_core x = ck_core y" "map ck_core xs = map ck_core ys'"
    by (cases ys) auto
  moreover have "ck_StreamID x = ck_StreamID y" "ck_ChainID x = ck_ChainID y"
    using ys(2) by (simp_all add: ck_core_def)
  ultimately show ?case using Cons.IH [OF ys(3)] by (simp add: rows_of_def)
qed simp

lemma run_from_core:
  "map ck_core xs = map ck_core ys \<Longrightarrow> run_from s (rows_of sid cid xs) e = run_from s (rows_of sid cid ys) e"
  by (rule run_from_cong)
     (use map_core_project [OF rows_of_core, of xs ys "\<lambda>t. snd (snd t)" sid cid] in \<open>simp add: ck_core_def\<close>)

lemma set_core: "map ck_core xs = map ck_core ys \<Longrightarrow> ck_core ` set xs = ck_core ` set ys"
  by (metis list.set_map)

lemma inv_chunks_core:
  assumes "map ck_core cks = map ck_core (db_chunks db)" "inv_chunks db"
  shows "inv_chunks (db\<lparr>db_chunks := cks\<rparr>)"
proof -
  have "map ck_ID cks = map ck_ID (db_chunks db)"
    using map_core_project [OF assms(1), of "\<lambda>t. fst (fst t)"] by (simp add: ck_core_def)
  moreover have "map (\<lambda>c. (ck_TargetID c, ck_StorageKey c)) cks = map (\<lambda>c. (ck_TargetID c, ck_StorageKey c)) (db_chunks db)"
    using map_core_project [OF assms(1), of "\<lambda>t. fst (snd t)"] by (simp add: ck_core_def)
  moreover have "(\<forall>k \<in> set cks. \<exists>c \<in> set (db_chains db). ck_StreamID k = cn_StreamID c \<and> ck_ChainID k = cn_ChainID c) \<longleftrightarrow>
      (\<forall>k \<in> set (db_chunks db). \<exists>c \<in> set (db_chains db). ck_StreamID k = cn_StreamID c \<and> ck_ChainID k = cn_ChainID c)"
    by (rule ball_same_image [OF set_core [OF assms(1)]]) (simp add: ck_core_def)
  ultimately show ?thesis using assms(2) by (simp add: inv_chunks_def)
qed

lemma pitr_inv_chunks:
  assumes "pitr_inv db" "map ck_core cks = map ck_core (db_chunks db)" "\<forall>k \<in> set cks. chunk_life k"
  shows "pitr_inv (db\<lparr>db_chunks := cks\<rparr>)"
  using assms inv_chunks_core [OF assms(2)]
  by (simp add: pitr_inv_def inv_streams_def inv_chains_def streamExists_def inv_state_def inv_runs_def
      inv_life_def run_from_core [OF assms(2)])

lemma pitr_inv_update_chunks:
  assumes "pitr_inv db" "\<And>k. P k \<Longrightarrow> ck_core (f k) = ck_core k" "\<And>k. P k \<Longrightarrow> chunk_life k \<Longrightarrow> chunk_life (f k)"
  shows "pitr_inv (db\<lparr>db_chunks := update_rows P f (db_chunks db)\<rparr>)"
  using assms by (intro pitr_inv_chunks) (auto simp: map_update_rows set_update_rows pitr_inv_def inv_life_def)

end
