(* ===== verification/Pitr_Repo_Steps.thy ===== *)
theory Pitr_Repo_Steps
  imports Pitr_Repo_Inv
begin

text \<open>
  Every statement of the PITR repository keeps the table invariant; the step relation of the
  repository and its reachable states; what the listings promise on them.
\<close>

section \<open>Chunk and state updates\<close>

lemma inv_update_chunk:
  assumes "pitr_inv db" "update_chunk P f db = Ok db'"
    "\<And>k. P k \<Longrightarrow> ck_core (f k) = ck_core k" "\<And>k. P k \<Longrightarrow> chunk_life k \<Longrightarrow> chunk_life (f k)"
  shows "pitr_inv db'"
  using assms pitr_inv_update_chunks [of db P f] by (simp add: update_chunk_def split: if_splits)

lemma inv_MarkChunkVerified: "pitr_inv db \<Longrightarrow> MarkChunkVerified cid at e db = Ok db' \<Longrightarrow> pitr_inv db'"
  unfolding MarkChunkVerified_def by (erule (1) inv_update_chunk) (auto simp: ck_core_def chunk_life_def)

lemma inv_SetChunkRetainUntil: "pitr_inv db \<Longrightarrow> SetChunkRetainUntil cid u db = Ok db' \<Longrightarrow> pitr_inv db'"
  unfolding SetChunkRetainUntil_def by (erule (1) inv_update_chunk) (auto simp: ck_core_def chunk_life_def)

lemma inv_MarkChunkPruned: "pitr_inv db \<Longrightarrow> MarkChunkPruned cid db = Ok db' \<Longrightarrow> pitr_inv db'"
  unfolding MarkChunkPruned_def by (erule (1) inv_update_chunk) (auto simp: ck_core_def chunk_life_def)

lemma inv_SupersedeChunks: "pitr_inv db \<Longrightarrow> SupersedeChunks sid cid after db = (db', n) \<Longrightarrow> pitr_inv db'"
  using pitr_inv_update_chunks [of db "superseding sid cid after" "\<lambda>c. c\<lparr>ck_Status := ChunkSuperseded\<rparr>"]
  by (auto simp: SupersedeChunks_def ck_core_def chunk_life_def)

lemma inv_DeleteChunks: "pitr_inv db \<Longrightarrow> DeleteChunks ids at pa db = (db', n) \<Longrightarrow> pitr_inv db'"
proof (induction ids arbitrary: db db' n)
  case (Cons i ids)
  let ?P = "\<lambda>c. ck_ID c = i \<and> deletable c"
  let ?f = "\<lambda>c. c\<lparr>ck_DeletedAt := Some (timeKey at), ck_PurgeAfter := Some (timeKey pa)\<rparr>"
  have "pitr_inv (db\<lparr>db_chunks := update_rows ?P ?f (db_chunks db)\<rparr>)"
    by (rule pitr_inv_update_chunks [OF Cons.prems(1)]) (auto simp: ck_core_def chunk_life_def)
  with Cons.IH Cons.prems(2) show ?case by (auto simp: Let_def split: prod.splits)
qed simp

definition sx_core :: "State \<Rightarrow> string \<times> string \<times> OpTime" where
  "sx_core s = (sx_StreamID s, sx_ChainID s, sx_Last s)"

lemma pitr_inv_state:
  assumes "pitr_inv db" "map sx_core rows = map sx_core (db_state db)"
  shows "pitr_inv (db\<lparr>db_state := rows\<rparr>)"
proof -
  have 1: "map sx_StreamID rows = map sx_StreamID (db_state db)"
    using arg_cong [OF assms(2), of "map fst"] by (simp add: sx_core_def comp_def)
  have 2: "sx_core ` set rows = sx_core ` set (db_state db)"
    using assms(2) by (metis list.set_map)
  have all: "(\<forall>s \<in> set rows. Q s) \<longleftrightarrow> (\<forall>s \<in> set (db_state db). Q s)"
    if "\<And>s s'. sx_core s = sx_core s' \<Longrightarrow> Q s = Q s'" for Q
    by (rule ball_same_image [OF 2]) (fact that)
  have none: "(\<forall>s \<in> set rows. \<not> state_at s c) \<longleftrightarrow> (\<forall>s \<in> set (db_state db). \<not> state_at s c)" for c
    by (rule all) (simp add: sx_core_def state_at_def)
  have ex: "(\<exists>s \<in> set rows. state_at s c) \<longleftrightarrow> (\<exists>s \<in> set (db_state db). state_at s c)" for c
    using none [of c] by blast
  have some: "(\<forall>s \<in> set rows. \<exists>c \<in> set (db_chains db). state_at s c) \<longleftrightarrow>
      (\<forall>s \<in> set (db_state db). \<exists>c \<in> set (db_chains db). state_at s c)"
    by (rule all) (simp add: sx_core_def state_at_def)
  have "inv_state (db\<lparr>db_state := rows\<rparr>)"
    using assms(1) by (simp add: pitr_inv_def inv_state_def 1 ex some)
  moreover have "(\<forall>s \<in> set rows. state_at s c \<longrightarrow> ot_TS (sx_Last s) = e) \<longleftrightarrow>
      (\<forall>s \<in> set (db_state db). state_at s c \<longrightarrow> ot_TS (sx_Last s) = e)" for c e
    by (rule all) (simp add: sx_core_def state_at_def)
  then have "inv_runs (db\<lparr>db_state := rows\<rparr>)"
    using assms(1) by (simp add: pitr_inv_def inv_runs_def)
  ultimately show ?thesis
    using assms(1) by (simp add: pitr_inv_def inv_streams_def inv_chains_def streamExists_def
        inv_chunks_def inv_life_def)
qed

lemma inv_update_state:
  assumes "pitr_inv db" "update_state sid f db = Ok db'" "\<And>s. sx_core (f s) = sx_core s"
  shows "pitr_inv db'"
  using assms by (auto simp: update_state_def map_update_rows split: if_splits intro: pitr_inv_state)

lemma inv_SetCollectorStatus:
  "pitr_inv db \<Longrightarrow> SetCollectorStatus sid st e lag at db = Ok db' \<Longrightarrow> pitr_inv db'"
  unfolding SetCollectorStatus_def by (erule (1) inv_update_state) (auto simp: sx_core_def)

lemma inv_SetWindowLow: "pitr_inv db \<Longrightarrow> SetWindowLow sid t db = Ok db' \<Longrightarrow> pitr_inv db'"
  unfolding SetWindowLow_def by (erule (1) inv_update_state) (auto simp: sx_core_def)

lemma inv_SetReplicaSetID: "pitr_inv db \<Longrightarrow> SetReplicaSetID sid t db = Ok db' \<Longrightarrow> pitr_inv db'"
  unfolding SetReplicaSetID_def by (erule (1) inv_update_state) (auto simp: sx_core_def)

section \<open>Streams\<close>

lemma pitr_inv_streams:
  assumes "pitr_inv db" "inv_streams (db\<lparr>db_streams := rows\<rparr>)"
    "\<And>i. streamExists i db \<Longrightarrow> streamExists i (db\<lparr>db_streams := rows\<rparr>)"
  shows "pitr_inv (db\<lparr>db_streams := rows\<rparr>)"
  using assms by (auto simp: pitr_inv_def inv_chains_def inv_state_def inv_chunks_def inv_runs_def inv_life_def)

lemma inv_CreateStream:
  assumes "pitr_inv db" "CreateStream cf now st db = Ok (db', st')"
  shows "pitr_inv db'"
proof -
  let ?r = "st\<lparr>st_CreatedAt := timeKey (if st_CreatedAt st = zero_time then now else st_CreatedAt st),
              st_UpdatedAt := timeKey now\<rparr>"
  have "db' = db\<lparr>db_streams := db_streams db @ [?r]\<rparr>" and
    new: "stream_checks st" "\<forall>r \<in> set (db_streams db). st_ID r \<noteq> st_ID st \<and> st_ConnectionID r \<noteq> st_ConnectionID st"
    using assms(2) by (auto simp: CreateStream_def Let_def split: if_splits)
  moreover have "inv_streams (db\<lparr>db_streams := db_streams db @ [?r]\<rparr>)"
    using assms(1) new by (fastforce simp: pitr_inv_def inv_streams_def stream_checks_def)
  ultimately show ?thesis
    using assms(1) by (auto intro!: pitr_inv_streams simp: streamExists_def)
qed

lemma streamExists_ids: "streamExists i db \<longleftrightarrow> i \<in> set (map st_ID (db_streams db))"
  by (auto simp: streamExists_def)

lemma inv_UpdateStream:
  assumes "pitr_inv db" "UpdateStream now st db = Ok (db', st')"
  shows "pitr_inv db'"
proof -
  let ?f = "\<lambda>r. st\<lparr>st_CreatedAt := st_CreatedAt r, st_UpdatedAt := timeKey now\<rparr>"
  let ?rows = "update_rows (\<lambda>r. st_ID r = st_ID st) ?f (db_streams db)"
  have db': "db' = db\<lparr>db_streams := ?rows\<rparr>" and ok: "stream_checks st"
    "\<forall>r \<in> set (db_streams db). st_ID r \<noteq> st_ID st \<longrightarrow> st_ConnectionID r \<noteq> st_ConnectionID st"
    using assms(2) by (auto simp: UpdateStream_def split: if_splits option.splits)
  have ids: "map st_ID ?rows = map st_ID (db_streams db)" by (simp add: map_update_rows)
  have D: "inj_on st_ID (set (db_streams db))" "inj_on st_ConnectionID (set (db_streams db))"
    "distinct (db_streams db)"
    using assms(1) by (simp_all add: pitr_inv_def inv_streams_def distinct_map)
  have "inj_on (\<lambda>r. st_ConnectionID (if st_ID r = st_ID st then ?f r else r)) (set (db_streams db))"
  proof (rule inj_onI)
    fix x y assume xy: "x \<in> set (db_streams db)" "y \<in> set (db_streams db)"
      "st_ConnectionID (if st_ID x = st_ID st then ?f x else x) =
       st_ConnectionID (if st_ID y = st_ID st then ?f y else y)"
    then show "x = y"
      using ok(2) inj_onD [OF D(1) _ xy(1,2)] inj_onD [OF D(2) _ xy(1,2)]
      by (cases "st_ID x = st_ID st"; cases "st_ID y = st_ID st") fastforce+
  qed
  then have "distinct (map st_ConnectionID ?rows)"
    using D(3) by (simp add: update_rows_def distinct_map comp_def)
  moreover have "stream_checks r" if "r \<in> set ?rows" for r
    using that assms(1) ok(1) by (auto simp: set_update_rows pitr_inv_def inv_streams_def stream_checks_def)
  ultimately have "inv_streams (db\<lparr>db_streams := ?rows\<rparr>)"
    using assms(1) ids by (simp add: pitr_inv_def inv_streams_def)
  moreover have "streamExists i (db\<lparr>db_streams := ?rows\<rparr>) = streamExists i db" for i
    by (simp add: streamExists_ids ids)
  ultimately show ?thesis using assms(1) db' by (auto intro: pitr_inv_streams)
qed

lemma distinct_map_filter_filter:
  "distinct (map f (filter P xs)) \<Longrightarrow> distinct (map f (filter (\<lambda>x. Q x \<and> P x) xs))"
  by (induction xs) (auto split: if_splits)

lemma rows_of_other_stream:
  "sid \<noteq> del \<Longrightarrow> rows_of sid cid (filter (\<lambda>r. ck_StreamID r \<noteq> del) cks) = rows_of sid cid cks"
  by (auto simp: rows_of_def intro: filter_cong)

lemma inv_DeleteStream:
  assumes "pitr_inv db" "DeleteStream sid db = Ok db'"
  shows "pitr_inv db'"
proof -
  have db': "db' = \<lparr>db_streams = filter (\<lambda>r. st_ID r \<noteq> sid) (db_streams db),
               db_chains = filter (\<lambda>r. cn_StreamID r \<noteq> sid) (db_chains db),
               db_chunks = filter (\<lambda>r. ck_StreamID r \<noteq> sid) (db_chunks db),
               db_state = filter (\<lambda>r. sx_StreamID r \<noteq> sid) (db_state db)\<rparr>"
    using assms(2) by (auto simp: DeleteStream_def split: if_splits)
  have i: "inv_streams db" "inv_chains db" "inv_state db" "inv_chunks db" "inv_runs db" "inv_life db"
    using assms(1) by (simp_all add: pitr_inv_def)
  have "inv_streams db'" using i(1) by (simp add: db' inv_streams_def distinct_map_filter)
  moreover have "inv_chains db'"
    using i(2) by (simp add: db' inv_chains_def distinct_map_filter distinct_map_filter_filter streamExists_def)
       metis
  moreover have "inv_state db'"
    using i(3) by (fastforce simp: db' inv_state_def distinct_map_filter state_at_def)
  moreover have "inv_chunks db'"
    using i(4) by (fastforce simp: db' inv_chunks_def distinct_map_filter)
  moreover have "inv_runs db'"
    using i(5) by (simp add: db' inv_runs_def rows_of_other_stream) blast
  moreover have "inv_life db'" using i(6) by (simp add: db' inv_life_def)
  ultimately show ?thesis by (simp add: pitr_inv_def)
qed

section \<open>Chains\<close>

lemma chain_key_unique:
  assumes "inv_chains db" "c \<in> set (db_chains db)" "d \<in> set (db_chains db)"
    "cn_StreamID c = cn_StreamID d" "cn_ChainID c = cn_ChainID d"
  shows "c = d"
  using assms inj_onD [of "\<lambda>c. (cn_StreamID c, cn_ChainID c)" "set (db_chains db)" c d]
  by (simp add: inv_chains_def distinct_map)

lemma rows_of_no_chain:
  assumes "inv_chunks db" "\<forall>c \<in> set (db_chains db). \<not> (cn_StreamID c = sid \<and> cn_ChainID c = cid)"
  shows "rows_of sid cid (db_chunks db) = []"
  using assms by (fastforce simp: inv_chunks_def rows_of_def filter_empty_conv)

lemma move_state_at:
  assumes "s \<in> set (move_state sid cid start at rows)"
  shows "sx_StreamID s = sid \<and> sx_ChainID s = cid \<and> sx_Last s = start
    \<or> sx_StreamID s \<noteq> sid \<and> s \<in> set rows"
proof (cases "\<exists>r \<in> set rows. sx_StreamID r = sid")
  case True
  with assms obtain x where "x \<in> set rows"
    "s = (if sx_StreamID x = sid then x\<lparr>sx_ChainID := cid, sx_Last := start, sx_UpdatedAt := timeKey at\<rparr> else x)"
    by (auto simp only: move_state_def set_update_rows if_True)
  then show ?thesis by (cases "sx_StreamID x = sid") simp_all
next
  case False
  with assms show ?thesis by (auto simp: move_state_def)
qed

lemma move_state_keeps:
  "s \<in> set rows \<Longrightarrow> sx_StreamID s \<noteq> sid \<Longrightarrow> s \<in> set (move_state sid cid start at rows)"
  by (auto simp: move_state_def set_update_rows)

lemma move_state_new: "\<exists>s \<in> set (move_state sid cid start at rows). sx_StreamID s = sid \<and> sx_ChainID s = cid"
proof (cases "\<exists>r \<in> set rows. sx_StreamID r = sid")
  case True
  then obtain r where "r \<in> set rows" "sx_StreamID r = sid" by blast
  then show ?thesis
    by (intro bexI [of _ "r\<lparr>sx_ChainID := cid, sx_Last := start, sx_UpdatedAt := timeKey at\<rparr>"])
       (auto simp: move_state_def set_update_rows)
next
  case False
  then show ?thesis by (simp add: move_state_def)
qed

lemma move_state_distinct:
  "distinct (map sx_StreamID rows) \<Longrightarrow> distinct (map sx_StreamID (move_state sid cid start at rows))"
  by (auto simp: move_state_def map_update_rows)

definition new_chain :: "string \<Rightarrow> string \<Rightarrow> Timestamp \<Rightarrow> Chain" where
  "new_chain sid cid start = \<lparr>cn_StreamID = sid, cn_ChainID = cid, cn_Start = start, cn_End = ts_zero,
     cn_EndReason = EndNone, cn_EndedAt = None\<rparr>"

definition started :: "string \<Rightarrow> string \<Rightarrow> OpTime \<Rightarrow> go_time \<Rightarrow> pitr_db \<Rightarrow> pitr_db" where
  "started sid cid start at db = db\<lparr>db_chains := db_chains db @ [new_chain sid cid (ot_TS start)],
     db_state := move_state sid cid start at (db_state db)\<rparr>"

lemma StartChain_Ok:
  "StartChain sid cid start at db = Ok db' \<longleftrightarrow> sid \<noteq> [] \<and> cid \<noteq> [] \<and> streamExists sid db
     \<and> (\<forall>c \<in> set (db_chains db). cn_StreamID c = sid \<longrightarrow> \<not> chain_Open c)
     \<and> (\<forall>c \<in> set (db_chains db). \<not> (cn_StreamID c = sid \<and> cn_ChainID c = cid))
     \<and> db' = started sid cid start at db"
  by (auto simp: StartChain_def started_def new_chain_def chain_Open_def)

lemma inv_state_started:
  assumes "inv_state db" "\<forall>c \<in> set (db_chains db). cn_StreamID c = sid \<longrightarrow> \<not> chain_Open c"
  shows "inv_state (started sid cid start at db)"
proof -
  let ?db = "started sid cid start at db"
  have "\<exists>c \<in> set (db_chains ?db). state_at s c" if "s \<in> set (db_state ?db)" for s
    using that assms(1) move_state_at [of s sid cid start at "db_state db"]
    by (auto simp: started_def new_chain_def inv_state_def state_at_def)
  moreover have "\<exists>s \<in> set (db_state ?db). state_at s c"
    if cin: "c \<in> set (db_chains ?db)" and op: "chain_Open c" for c
  proof (cases "c = new_chain sid cid (ot_TS start)")
    case True
    then show ?thesis using move_state_new by (simp add: started_def new_chain_def state_at_def)
  next
    case False
    then have c: "c \<in> set (db_chains db)" using cin by (simp add: started_def)
    then obtain s where "s \<in> set (db_state db)" "state_at s c"
      using assms(1) op by (auto simp: inv_state_def)
    moreover have "cn_StreamID c \<noteq> sid" using assms(2) c op by blast
    ultimately show ?thesis using move_state_keeps by (fastforce simp: started_def state_at_def)
  qed
  ultimately show ?thesis using assms(1) by (simp add: inv_state_def started_def move_state_distinct)
qed

lemma inv_runs_started:
  assumes "inv_runs db" "inv_chunks db"
    and new: "\<forall>c \<in> set (db_chains db). \<not> (cn_StreamID c = sid \<and> cn_ChainID c = cid)"
  shows "inv_runs (started sid cid start at db)"
  unfolding inv_runs_def
proof
  let ?db = "started sid cid start at db"
  fix c assume c: "c \<in> set (db_chains ?db)"
  show "\<exists>e. run_from (cn_Start c) (rows_of (cn_StreamID c) (cn_ChainID c) (db_chunks ?db)) e
       \<and> (\<forall>s \<in> set (db_state ?db). state_at s c \<longrightarrow> ot_TS (sx_Last s) = e)"
  proof (cases "c = new_chain sid cid (ot_TS start)")
    case True
    then show ?thesis using rows_of_no_chain [OF assms(2) new] move_state_at
      by (fastforce simp: started_def new_chain_def state_at_def)
  next
    case False
    then have c': "c \<in> set (db_chains db)" using c by (simp add: started_def)
    then obtain e where "run_from (cn_Start c) (rows_of (cn_StreamID c) (cn_ChainID c) (db_chunks db)) e"
      "\<forall>s \<in> set (db_state db). state_at s c \<longrightarrow> ot_TS (sx_Last s) = e"
      using assms(1) by (auto simp: inv_runs_def)
    moreover have "s \<in> set (db_state db)" if "s \<in> set (db_state ?db)" "state_at s c" for s
      using that new c' move_state_at [of s sid cid start at "db_state db"]
      by (auto simp: started_def state_at_def)
    ultimately show ?thesis by (auto simp: started_def)
  qed
qed

lemma inv_StartChain:
  assumes "pitr_inv db" "StartChain sid cid start at db = Ok db'"
  shows "pitr_inv db'"
proof -
  have "inv_chains (started sid cid start at db)"
    using assms by (auto simp: StartChain_Ok pitr_inv_def inv_chains_def started_def new_chain_def
        streamExists_def chain_Open_def)
  moreover have "inv_chunks (started sid cid start at db)"
    using assms(1) by (fastforce simp: pitr_inv_def inv_chunks_def started_def)
  ultimately show ?thesis
    using assms by (auto simp: StartChain_Ok pitr_inv_def inv_state_started inv_runs_started)
      (auto simp: started_def inv_streams_def inv_life_def)
qed

lemma bex_update_rows: "(\<exists>y \<in> set (update_rows P f xs). Q y) \<longleftrightarrow> (\<exists>x \<in> set xs. Q (if P x then f x else x))"
  by (simp only: update_rows_def set_map bex_simps)

lemma ball_update_rows: "(\<forall>y \<in> set (update_rows P f xs). Q y) \<longleftrightarrow> (\<forall>x \<in> set xs. Q (if P x then f x else x))"
  by (simp only: update_rows_def set_map ball_simps)

lemma filter_open_closed:
  "(\<And>c. \<not> chain_Open (f c)) \<Longrightarrow>
   filter chain_Open (update_rows P f cs) = filter (\<lambda>c. \<not> P c \<and> chain_Open c) cs"
  by (induction cs) (auto simp: update_rows_def)

lemma pitr_inv_end_chain:
  assumes inv: "pitr_inv db"
    and f: "\<And>c. cn_StreamID (f c) = cn_StreamID c" "\<And>c. cn_ChainID (f c) = cn_ChainID c"
      "\<And>c. cn_Start (f c) = cn_Start c" "\<And>c. \<not> chain_Open (f c)"
  shows "pitr_inv (db\<lparr>db_chains := update_rows P f (db_chains db)\<rparr>)"
proof -
  let ?db = "db\<lparr>db_chains := update_rows P f (db_chains db)\<rparr>"
  have key: "map (\<lambda>c. (cn_StreamID c, cn_ChainID c)) (db_chains ?db) = map (\<lambda>c. (cn_StreamID c, cn_ChainID c)) (db_chains db)"
    by (simp add: map_update_rows f)
  have at: "state_at s (if P c then f c else c) = state_at s c" for s c
    by (simp add: state_at_def f)
  have ex: "(\<exists>c \<in> set (db_chains ?db). state_at s c) = (\<exists>c \<in> set (db_chains db). state_at s c)" for s
    by (simp add: bex_update_rows at)
  have "inv_chains ?db"
    using inv key by (simp add: pitr_inv_def inv_chains_def filter_open_closed ball_update_rows f
        distinct_map_filter_filter streamExists_def if_distrib [of cn_StreamID] if_distrib [of cn_ChainID])
  moreover have "inv_state ?db"
    using inv f(4) ex by (auto simp: pitr_inv_def inv_state_def ball_update_rows at split: if_splits)
  moreover have "inv_chunks ?db"
    using inv by (simp add: pitr_inv_def inv_chunks_def bex_update_rows f if_distrib [of cn_StreamID]
        if_distrib [of cn_ChainID])
  moreover have "inv_runs ?db"
    using inv by (auto simp: pitr_inv_def inv_runs_def ball_update_rows state_at_def f)
  ultimately show ?thesis using inv by (simp add: pitr_inv_def inv_streams_def inv_life_def)
qed

lemma inv_EndChain: "pitr_inv db \<Longrightarrow> EndChain sid cid e r at db = Ok db' \<Longrightarrow> pitr_inv db'"
  by (auto simp: EndChain_def chain_Open_def split: if_splits option.splits intro!: pitr_inv_end_chain)

section \<open>Committing a chunk\<close>

definition stored_chunk :: "go_time \<Rightarrow> Chunk \<Rightarrow> Chunk" where
  "stored_chunk now c = c\<lparr>ck_Status := ChunkCommitted,
     ck_CreatedAt := timeKey (if ck_CreatedAt c = zero_time then now else ck_CreatedAt c),
     ck_VerifiedAt := nullTime (ck_VerifiedAt c), ck_DeletedAt := None, ck_PurgeAfter := None,
     ck_RetainUntil := nullTime (ck_RetainUntil c)\<rparr>"

definition advance :: "go_time \<Rightarrow> Chunk \<Rightarrow> State \<Rightarrow> State" where
  "advance now c r = r\<lparr>sx_Last := \<lparr>ot_TS = ck_To c, ot_Term = ck_LastTerm c\<rparr>,
     sx_Status := CollectorRunning, sx_LastError := [],
     sx_UpdatedAt := timeKey (if ck_CreatedAt c = zero_time then now else ck_CreatedAt c)\<rparr>"

definition committed :: "go_time \<Rightarrow> Chunk \<Rightarrow> pitr_db \<Rightarrow> pitr_db" where
  "committed now c db = db\<lparr>db_chunks := db_chunks db @ [stored_chunk now c],
     db_state := update_rows (\<lambda>r. sx_StreamID r = ck_StreamID c) (advance now c) (db_state db)\<rparr>"

lemma stored_chunk_core [simp]: "ck_core (stored_chunk now c) = ck_core c"
  and stored_chunk_fields [simp]: "ck_ID (stored_chunk now c) = ck_ID c"
    "ck_StreamID (stored_chunk now c) = ck_StreamID c" "ck_ChainID (stored_chunk now c) = ck_ChainID c"
    "ck_From (stored_chunk now c) = ck_From c" "ck_To (stored_chunk now c) = ck_To c"
    "ck_TargetID (stored_chunk now c) = ck_TargetID c" "ck_StorageKey (stored_chunk now c) = ck_StorageKey c"
  by (simp_all add: stored_chunk_def ck_core_def)

lemma stored_chunk_life [simp]: "chunk_life (stored_chunk now c)" "Live (stored_chunk now c)"
  by (simp_all add: stored_chunk_def chunk_life_def Live_def)

lemma advance_fields [simp]: "sx_StreamID (advance now c r) = sx_StreamID r"
  "sx_ChainID (advance now c r) = sx_ChainID r" "ot_TS (sx_Last (advance now c r)) = ck_To c"
  by (simp_all add: advance_def)

text \<open>What a successful commit has checked.\<close>

lemma CommitChunk_Ok:
  assumes "CommitChunk now c db = Ok (db', c')"
  obtains st d where "db' = committed now c db" "st \<in> set (db_state db)" "sx_StreamID st = ck_StreamID c"
    "sx_ChainID st = ck_ChainID c" "ot_TS (sx_Last st) = ck_From c" "ck_From c \<le> ck_To c"
    "d \<in> set (db_chains db)" "cn_StreamID d = ck_StreamID c" "cn_ChainID d = ck_ChainID c" "chain_Open d"
    "\<forall>r \<in> set (db_chunks db). ck_ID r \<noteq> ck_ID c"
    "\<forall>r \<in> set (db_chunks db). (ck_TargetID r, ck_StorageKey r) \<noteq> (ck_TargetID c, ck_StorageKey c)"
proof -
  obtain st where st: "find (\<lambda>r. sx_StreamID r = ck_StreamID c) (db_state db) = Some st"
    using assms by (auto simp: CommitChunk_def Let_def split: if_splits option.splits)
  have ch: "openChain (ck_StreamID c) (ck_ChainID c) db = None"
    using assms st by (auto simp: CommitChunk_def Let_def split: if_splits option.splits)
  then obtain d where "d \<in> set (db_chains db)" "cn_StreamID d = ck_StreamID c" "cn_ChainID d = ck_ChainID c"
    "chain_Open d"
    by (auto simp: openChain_def chain_Open_def dest: find_Some_in split: option.splits if_splits)
  moreover have "st \<in> set (db_state db)" "sx_StreamID st = ck_StreamID c"
    using find_Some_in [OF st] by simp_all
  moreover have "sx_ChainID st = ck_ChainID c" "ot_TS (sx_Last st) = ck_From c" "ck_From c \<le> ck_To c"
    "\<forall>r \<in> set (db_chunks db). ck_ID r \<noteq> ck_ID c"
    "\<forall>r \<in> set (db_chunks db). (ck_TargetID r, ck_StorageKey r) \<noteq> (ck_TargetID c, ck_StorageKey c)"
    "db' = committed now c db"
    using assms st ch
    by (auto simp: CommitChunk_def Let_def committed_def stored_chunk_def advance_def [abs_def] split: if_splits)
  ultimately show ?thesis using that by blast
qed

lemma rows_of_snoc:
  "rows_of sid cid (cks @ [k]) = rows_of sid cid cks @ (if ck_StreamID k = sid \<and> ck_ChainID k = cid then [k] else [])"
  by (simp add: rows_of_def)

lemma inv_runs_committed:
  assumes "inv_runs db" "inv_state db" and st: "st \<in> set (db_state db)" "sx_StreamID st = ck_StreamID c"
    "sx_ChainID st = ck_ChainID c" "ot_TS (sx_Last st) = ck_From c" "ck_From c \<le> ck_To c"
  shows "inv_runs (committed now c db)"
  unfolding inv_runs_def
proof
  let ?db = "committed now c db"
  fix d assume "d \<in> set (db_chains ?db)"
  then obtain e where e: "run_from (cn_Start d) (rows_of (cn_StreamID d) (cn_ChainID d) (db_chunks db)) e"
    "\<forall>s \<in> set (db_state db). state_at s d \<longrightarrow> ot_TS (sx_Last s) = e"
    using assms(1) by (auto simp: inv_runs_def committed_def)
  have uniq: "s = st" if "s \<in> set (db_state db)" "sx_StreamID s = ck_StreamID c" for s
    using that st(1,2) assms(2) inj_onD [of sx_StreamID "set (db_state db)" s st]
    by (simp add: inv_state_def distinct_map)
  show "\<exists>e. run_from (cn_Start d) (rows_of (cn_StreamID d) (cn_ChainID d) (db_chunks ?db)) e
       \<and> (\<forall>s \<in> set (db_state ?db). state_at s d \<longrightarrow> ot_TS (sx_Last s) = e)"
  proof (cases "cn_StreamID d = ck_StreamID c \<and> cn_ChainID d = ck_ChainID c")
    case True
    then have "e = ck_From c" using e(2) st by (auto simp: state_at_def)
    then have "run_from (cn_Start d) (rows_of (cn_StreamID d) (cn_ChainID d) (db_chunks ?db)) (ck_To c)"
      using e(1) True st(5) by (simp add: committed_def rows_of_snoc run_from_append)
    then show ?thesis using True by (intro exI) (auto simp: committed_def ball_update_rows state_at_def)
  next
    case False
    then have "run_from (cn_Start d) (rows_of (cn_StreamID d) (cn_ChainID d) (db_chunks ?db)) e"
      using e(1) by (auto simp: committed_def rows_of_snoc)
    moreover have "\<forall>s \<in> set (db_state ?db). state_at s d \<longrightarrow> ot_TS (sx_Last s) = e"
      using e(2) False uniq st(3) by (auto simp: committed_def ball_update_rows state_at_def)
    ultimately show ?thesis by blast
  qed
qed

lemma inv_CommitChunk:
  assumes "pitr_inv db" "CommitChunk now c db = Ok (db', c')"
  shows "pitr_inv db'"
proof -
  from assms(2) obtain st d where c: "db' = committed now c db" "st \<in> set (db_state db)"
    "sx_StreamID st = ck_StreamID c" "sx_ChainID st = ck_ChainID c" "ot_TS (sx_Last st) = ck_From c"
    "ck_From c \<le> ck_To c" "d \<in> set (db_chains db)" "cn_StreamID d = ck_StreamID c"
    "cn_ChainID d = ck_ChainID c" "chain_Open d" "\<forall>r \<in> set (db_chunks db). ck_ID r \<noteq> ck_ID c"
    "\<forall>r \<in> set (db_chunks db). (ck_TargetID r, ck_StorageKey r) \<noteq> (ck_TargetID c, ck_StorageKey c)"
    by (rule CommitChunk_Ok)
  have i: "inv_streams db" "inv_chains db" "inv_state db" "inv_chunks db" "inv_runs db" "inv_life db"
    using assms(1) by (simp_all add: pitr_inv_def)
  have "\<exists>ca \<in> set (db_chains db). ck_StreamID c = cn_StreamID ca \<and> ck_ChainID c = cn_ChainID ca"
    using c(7-9) by (intro bexI [of _ d]) simp_all
  then have "inv_chunks db'" using i(4) c(1,11,12) by (auto simp: inv_chunks_def committed_def)
  moreover have "state_at (if sx_StreamID s = ck_StreamID c then advance now c s else s) x = state_at s x" for s x
    by (simp add: state_at_def)
  then have "inv_state db'"
    using i(3) by (simp add: c(1) inv_state_def committed_def map_update_rows ball_update_rows
        bex_update_rows)
  ultimately show ?thesis
    using i c inv_runs_committed [OF i(5,3) c(2-6)]
    by (simp add: pitr_inv_def)
      (simp add: committed_def inv_streams_def inv_chains_def streamExists_def inv_life_def)
qed

section \<open>Reachable tables\<close>

inductive repo_step :: "pitr_db \<Rightarrow> pitr_db \<Rightarrow> bool" where
  create_stream: "CreateStream cf now st db = Ok (db', st') \<Longrightarrow> repo_step db db'"
| update_stream: "UpdateStream now st db = Ok (db', st') \<Longrightarrow> repo_step db db'"
| delete_stream: "DeleteStream sid db = Ok db' \<Longrightarrow> repo_step db db'"
| start_chain: "StartChain sid cid start at db = Ok db' \<Longrightarrow> repo_step db db'"
| end_chain: "EndChain sid cid e reason at db = Ok db' \<Longrightarrow> repo_step db db'"
| commit_chunk: "CommitChunk now c db = Ok (db', c') \<Longrightarrow> repo_step db db'"
| mark_verified: "MarkChunkVerified kid at err db = Ok db' \<Longrightarrow> repo_step db db'"
| delete_chunks: "DeleteChunks ids at pa db = (db', n) \<Longrightarrow> repo_step db db'"
| retain_until: "SetChunkRetainUntil kid until db = Ok db' \<Longrightarrow> repo_step db db'"
| mark_pruned: "MarkChunkPruned kid db = Ok db' \<Longrightarrow> repo_step db db'"
| supersede: "SupersedeChunks sid cid after db = (db', n) \<Longrightarrow> repo_step db db'"
| set_status: "SetCollectorStatus sid status err lag at db = Ok db' \<Longrightarrow> repo_step db db'"
| set_window_low: "SetWindowLow sid since db = Ok db' \<Longrightarrow> repo_step db db'"
| set_rsid: "SetReplicaSetID sid rsid db = Ok db' \<Longrightarrow> repo_step db db'"

inductive repo_reachable :: "pitr_db \<Rightarrow> bool" where
  init: "repo_reachable empty_db"
| step: "repo_reachable db \<Longrightarrow> repo_step db db' \<Longrightarrow> repo_reachable db'"

lemmas repo_inv_steps = inv_CreateStream inv_UpdateStream inv_DeleteStream inv_StartChain inv_EndChain
  inv_CommitChunk inv_MarkChunkVerified inv_DeleteChunks inv_SetChunkRetainUntil inv_MarkChunkPruned
  inv_SupersedeChunks inv_SetCollectorStatus inv_SetWindowLow inv_SetReplicaSetID

lemma repo_step_inv: "repo_step db db' \<Longrightarrow> pitr_inv db \<Longrightarrow> pitr_inv db'"
  by (erule repo_step.cases) (simp_all, (erule (1) repo_inv_steps)+)

lemma repo_reachable_inv: "repo_reachable db \<Longrightarrow> pitr_inv db"
  by (induction rule: repo_reachable.induct) (auto simp: pitr_inv_empty intro: repo_step_inv)

end
