(* ===== verification/Pitr_Repo_Props.thy ===== *)
theory Pitr_Repo_Props
  imports Pitr_Repo_Steps
begin

text \<open>
  What the PITR repository promises its callers: unbroken chains in the order \<open>ListChunks\<close>
  returns them, one open chain a stream, commits that move the position, supersession of exactly
  the chunks behind a divergence point, and objects that are never forgotten before they are pruned.
\<close>

section \<open>Listings\<close>

definition chain_query :: "string \<Rightarrow> string \<Rightarrow> ChunkQuery" where
  "chain_query sid cid = \<lparr>cq_StreamID = sid, cq_ChainID = cid, cq_After = ts_zero, cq_Until = ts_zero,
     cq_Status = None, cq_Live = False\<rparr>"

definition live_query :: "string \<Rightarrow> string \<Rightarrow> ChunkQuery" where
  "live_query sid cid = (chain_query sid cid)\<lparr>cq_Status := Some ChunkCommitted, cq_Live := True\<rparr>"

lemma chunk_selected_chain:
  "chunk_selected (chain_query sid cid) = (\<lambda>c. ck_StreamID c = sid \<and> ck_ChainID c = cid)"
  by (simp add: fun_eq_iff chunk_selected_def chain_query_def ts_IsZero_def)

lemma chunk_selected_live:
  "chunk_selected (live_query sid cid) = (\<lambda>c. ck_StreamID c = sid \<and> ck_ChainID c = cid \<and> Live c)"
  by (auto simp: fun_eq_iff chunk_selected_def live_query_def chain_query_def ts_IsZero_def Live_def)

lemma ListChunks_chain:
  "sid \<noteq> [] \<Longrightarrow> cid \<noteq> [] \<Longrightarrow>
   ListChunks (chain_query sid cid) db = Ok (sort_key chunk_order (rows_of sid cid (db_chunks db)))"
  by (simp add: ListChunks_def chunk_selected_chain rows_of_def) (simp add: chain_query_def)

lemma ListChunks_live:
  "sid \<noteq> [] \<Longrightarrow> cid \<noteq> [] \<Longrightarrow>
   ListChunks (live_query sid cid) db = Ok (sort_key chunk_order (live_rows sid cid db))"
  by (simp add: ListChunks_def chunk_selected_live live_rows_def) (simp add: live_query_def chain_query_def)

lemma in_ListChains: "c \<in> set (ListChains sid db) \<longleftrightarrow> c \<in> set (db_chains db) \<and> cn_StreamID c = sid"
  by (simp add: ListChains_def)

lemma inv_chain_ids: "pitr_inv db \<Longrightarrow> c \<in> set (db_chains db) \<Longrightarrow> cn_StreamID c \<noteq> [] \<and> cn_ChainID c \<noteq> []"
  by (auto simp: pitr_inv_def inv_chains_def)

lemma LoadState_Ok: "LoadState sid db = Ok s \<Longrightarrow> s \<in> set (db_state db) \<and> sx_StreamID s = sid"
  by (auto simp: LoadState_def split: option.splits dest: find_Some_in)

section \<open>A sample run\<close>

text \<open>One stream whose collector opens a chain and commits two chunks.\<close>

definition sample_stream :: Stream where
  "sample_stream = \<lparr>st_ID = ''s'', st_ConnectionID = ''conn'', st_ReplicaSet = ''rs0'', st_TargetID = ''t'',
     st_Enabled = True, st_BaseCron = ''0 2 * * *'', st_BaseKeepCount = 7, st_BaseKeepDays = 14,
     st_OplogMaxDays = 0, st_ChunkSeconds = 60, st_BaseOnGap = True, st_ReadPreference = [],
     st_ChainTestCron = [], st_ChainTestConnectionID = [], st_CopyTargets = [],
     st_CreatedAt = zero_time, st_UpdatedAt = zero_time\<rparr>"

definition sample_chunk :: "string \<Rightarrow> Timestamp \<Rightarrow> Timestamp \<Rightarrow> Chunk" where
  "sample_chunk i from to = \<lparr>ck_ID = i, ck_StreamID = ''s'', ck_ChainID = ''c'', ck_TargetID = ''t'',
     ck_StorageKey = i, ck_From = from, ck_To = to, ck_FirstTerm = 1, ck_LastTerm = 1, ck_Entries = 5,
     ck_SizeBytes = 100, ck_SHA256 = ''ab'', ck_Encrypted = True, ck_EncryptionMode = ''keys'',
     ck_Status = ChunkCommitted, ck_CreatedAt = 7, ck_VerifiedAt = None, ck_VerifyError = [],
     ck_DeletedAt = None, ck_PurgeAfter = None, ck_VersionID = [], ck_RetainUntil = None\<rparr>"

definition sample_chain :: Chain where
  "sample_chain = \<lparr>cn_StreamID = ''s'', cn_ChainID = ''c'', cn_Start = Timestamp 100 1, cn_End = ts_zero,
     cn_EndReason = EndNone, cn_EndedAt = None\<rparr>"

definition sample_state :: "Timestamp \<Rightarrow> State" where
  "sample_state ts = \<lparr>sx_StreamID = ''s'', sx_ChainID = ''c'', sx_Last = \<lparr>ot_TS = ts, ot_Term = 1\<rparr>,
     sx_Status = CollectorRunning, sx_LastError = [], sx_LagSince = None, sx_WindowLowSince = None,
     sx_ReplicaSetID = [], sx_UpdatedAt = 7\<rparr>"

definition sample_db :: "Chunk list \<Rightarrow> Timestamp \<Rightarrow> pitr_db" where
  "sample_db cks ts = \<lparr>db_streams = [sample_stream\<lparr>st_CreatedAt := 7, st_UpdatedAt := 7\<rparr>],
     db_chains = [sample_chain], db_chunks = cks, db_state = [sample_state ts]\<rparr>"

abbreviation chunk1 :: Chunk where "chunk1 \<equiv> sample_chunk ''k1'' (Timestamp 100 1) (Timestamp 160 2)"
abbreviation chunk2 :: Chunk where "chunk2 \<equiv> sample_chunk ''k2'' (Timestamp 160 2) (Timestamp 220 1)"

lemma sample_chunk_simps [simp]:
  "ck_ID (sample_chunk i f t) = i" "ck_From (sample_chunk i f t) = f" "ck_To (sample_chunk i f t) = t"
  "ck_StreamID (sample_chunk i f t) = ''s''" "ck_ChainID (sample_chunk i f t) = ''c''"
  "Live (sample_chunk i f t)" "ck_Status (sample_chunk i f t) = ChunkCommitted"
  "ck_DeletedAt (sample_chunk i f t) = None" "ck_VerifyError (sample_chunk i f t) = []"
  by (simp_all add: sample_chunk_def Live_def)

lemmas sample_defs = sample_stream_def sample_chunk_def sample_chain_def sample_state_def sample_db_def

lemma sample_create: "CreateStream True 7 sample_stream empty_db =
    Ok (empty_db\<lparr>db_streams := [sample_stream\<lparr>st_CreatedAt := 7, st_UpdatedAt := 7\<rparr>]\<rparr>,
        sample_stream\<lparr>st_CreatedAt := 7, st_UpdatedAt := 7\<rparr>)"
  by (simp add: CreateStream_def empty_db_def sample_stream_def stream_checks_def timeKey_def)

lemma sample_start: "StartChain ''s'' ''c'' \<lparr>ot_TS = Timestamp 100 1, ot_Term = 1\<rparr> 7
    (empty_db\<lparr>db_streams := [sample_stream\<lparr>st_CreatedAt := 7, st_UpdatedAt := 7\<rparr>]\<rparr>) =
    Ok (sample_db [] (Timestamp 100 1))"
  by (simp add: StartChain_def streamExists_def move_state_def empty_db_def sample_defs timeKey_def)

lemma sample_commit1: "CommitChunk 7 chunk1 (sample_db [] (Timestamp 100 1)) =
    Ok (sample_db [chunk1] (Timestamp 160 2), chunk1)"
  by (simp add: CommitChunk_def openChain_def sample_defs timeKey_def nullTime_def update_rows_def zero_time_def
      less_Timestamp_def)

lemma sample_commit2: "CommitChunk 7 chunk2 (sample_db [chunk1] (Timestamp 160 2)) =
    Ok (sample_db [chunk1, chunk2] (Timestamp 220 1), chunk2)"
  by (simp add: CommitChunk_def openChain_def sample_defs timeKey_def nullTime_def update_rows_def zero_time_def
      less_Timestamp_def)

lemma sample_reachable: "repo_reachable (sample_db [] (Timestamp 100 1))"
  "repo_reachable (sample_db [chunk1] (Timestamp 160 2))"
  "repo_reachable (sample_db [chunk1, chunk2] (Timestamp 220 1))"
proof -
  show 0: "repo_reachable (sample_db [] (Timestamp 100 1))"
    by (rule repo_reachable.step [OF repo_reachable.step [OF repo_reachable.init]])
      (rule repo_step.create_stream [OF sample_create], rule repo_step.start_chain [OF sample_start])
  show 1: "repo_reachable (sample_db [chunk1] (Timestamp 160 2))"
    by (rule repo_reachable.step [OF 0 repo_step.commit_chunk [OF sample_commit1]])
  show "repo_reachable (sample_db [chunk1, chunk2] (Timestamp 220 1))"
    by (rule repo_reachable.step [OF 1 repo_step.commit_chunk [OF sample_commit2]])
qed

lemma sample_ListChains: "ListChains ''s'' (sample_db cks ts) = [sample_chain]"
  by (simp add: ListChains_def sample_db_def sample_chain_def)

section \<open>Unbroken chains\<close>

text \<open>C5: in every reachable state of the tables, the chunk rows of a chain, in the order
  \<open>ListChunks\<close> returns them, form one unbroken run from the chain's start: each chunk starts where
  the previous one ends and none runs backwards. If the collector's state points at the chain, the
  run ends exactly at the stored position.\<close>

theorem chain_unbroken:
  assumes "repo_reachable db" "c \<in> set (ListChains sid db)"
  shows "\<exists>cks e. ListChunks (chain_query sid (cn_ChainID c)) db = Ok cks
    \<and> run_from (cn_Start c) cks e \<and> successively meets cks
    \<and> set cks = {k \<in> set (db_chunks db). ck_StreamID k = sid \<and> ck_ChainID k = cn_ChainID c}
    \<and> (\<forall>s. LoadState sid db = Ok s \<and> sx_ChainID s = cn_ChainID c \<longrightarrow> ot_TS (sx_Last s) = e)"
proof -
  note inv = repo_reachable_inv [OF assms(1)]
  from assms(2) have c: "c \<in> set (db_chains db)" "cn_StreamID c = sid" by (simp_all add: in_ListChains)
  then obtain e where e: "run_from (cn_Start c) (rows_of sid (cn_ChainID c) (db_chunks db)) e"
    "\<forall>s \<in> set (db_state db). state_at s c \<longrightarrow> ot_TS (sx_Last s) = e"
    using inv by (auto simp: pitr_inv_def inv_runs_def)
  let ?cks = "sort_key chunk_order (rows_of sid (cn_ChainID c) (db_chunks db))"
  have "run_from (cn_Start c) ?cks e" using e(1) by (rule run_from_sort)
  moreover have "ListChunks (chain_query sid (cn_ChainID c)) db = Ok ?cks"
    using inv_chain_ids [OF inv c(1)] c(2) by (simp add: ListChunks_chain)
  moreover have "\<forall>s. LoadState sid db = Ok s \<and> sx_ChainID s = cn_ChainID c \<longrightarrow> ot_TS (sx_Last s) = e"
    using e(2) c(2) LoadState_Ok by (auto simp: state_at_def)
  ultimately show ?thesis using run_from_successively by (auto simp: rows_of_def)
qed

theorem chain_unbroken_witness:
  "\<exists>cks e. ListChunks (chain_query ''s'' ''c'') (sample_db [chunk1, chunk2] (Timestamp 220 1)) = Ok cks
    \<and> run_from (Timestamp 100 1) cks e \<and> set cks = {chunk1, chunk2}"
proof -
  have c: "sample_chain \<in> set (ListChains ''s'' (sample_db cks ts))" "cn_ChainID sample_chain = ''c''"
    "cn_Start sample_chain = Timestamp 100 1" for cks ts
    by (simp add: sample_ListChains) (simp_all add: sample_chain_def)
  have S: "{k \<in> set (db_chunks (sample_db [chunk1, chunk2] ts)). ck_StreamID k = ''s'' \<and> ck_ChainID k = ''c''} =
      {chunk1, chunk2}" for ts
    by (auto simp: sample_db_def sample_chunk_def)
  show ?thesis
    using chain_unbroken [OF sample_reachable(3) c(1)] unfolding c(2,3) S by (elim exE conjE) (intro exI conjI)
qed

text \<open>C32: a stream never has two open chains, and the collector's state of a stream with an open chain
  exists and points at that chain.\<close>

theorem one_open_chain:
  assumes "repo_reachable db"
  shows "length (filter chain_Open (ListChains sid db)) \<le> 1
    \<and> (\<forall>c \<in> set (ListChains sid db). chain_Open c \<longrightarrow>
         (\<exists>s. LoadState sid db = Ok s \<and> sx_ChainID s = cn_ChainID c))"
proof
  have inv: "inv_chains db" "inv_state db"
    using repo_reachable_inv [OF assms] by (simp_all add: pitr_inv_def)
  let ?open = "filter (\<lambda>c. cn_StreamID c = sid \<and> chain_Open c) (db_chains db)"
  have "distinct (map cn_StreamID ?open)"
    using inv(1) distinct_map_filter_filter by (auto simp: inv_chains_def)
  moreover have "map cn_StreamID ?open = replicate (length ?open) sid"
    by (rule replicate_eqI) auto
  ultimately have "length ?open \<le> 1" by (cases "length ?open") auto
  moreover have "length (filter chain_Open (ListChains sid db)) = length ?open"
    by (simp add: ListChains_def filter_sort)
  ultimately show "length (filter chain_Open (ListChains sid db)) \<le> 1" by simp
next
  have inv: "inv_state db" using repo_reachable_inv [OF assms] by (simp add: pitr_inv_def)
  show "\<forall>c \<in> set (ListChains sid db). chain_Open c \<longrightarrow>
         (\<exists>s. LoadState sid db = Ok s \<and> sx_ChainID s = cn_ChainID c)"
  proof (intro ballI impI)
    fix c assume c: "c \<in> set (ListChains sid db)" "chain_Open c"
    then obtain s where s: "s \<in> set (db_state db)" "sx_StreamID s = sid" "sx_ChainID s = cn_ChainID c"
      using inv by (auto simp: inv_state_def in_ListChains state_at_def)
    obtain r where r: "find (\<lambda>r. sx_StreamID r = sid) (db_state db) = Some r"
      using s(1,2) by (cases "find (\<lambda>r. sx_StreamID r = sid) (db_state db)") (auto simp: find_None_all)
    with s(1,2) find_Some_in [OF r] have "r = s"
      using inv inj_onD [of sx_StreamID "set (db_state db)" r s] by (simp add: inv_state_def distinct_map)
    with r s(3) show "\<exists>s. LoadState sid db = Ok s \<and> sx_ChainID s = cn_ChainID c" by (simp add: LoadState_def)
  qed
qed

theorem one_open_chain_witness:
  "length (filter chain_Open (ListChains ''s'' (sample_db [chunk1] (Timestamp 160 2)))) \<le> 1"
  using one_open_chain [OF sample_reachable(2), of "''s''"] by blast

section \<open>Commits\<close>




section \<open>Divergence\<close>

lemma run_from_cut:
  "run_from s cs e \<Longrightarrow> \<exists>e'. run_from s (filter (\<lambda>k. ck_To k \<le> a) cs) e' \<and> (e' = s \<or> e' \<le> a)"
proof (induction cs arbitrary: s)
  case (Cons c cs)
  then have c: "ck_From c = s" "s \<le> ck_To c" "run_from (ck_To c) cs e" by auto
  show ?case
  proof (cases "ck_To c \<le> a")
    case True
    with Cons.IH [OF c(3)] c show ?thesis by auto
  next
    case False
    then have "\<not> ck_To k \<le> a" if "k \<in> set cs" for k
      using run_from_bounds [OF c(3) that] by auto
    then have "filter (\<lambda>k. ck_To k \<le> a) (c # cs) = []" using False by (simp add: filter_empty_conv)
    then show ?thesis by (metis run_from.simps(1))
  qed
qed simp

lemma live_rows_superseded:
  "live_rows sid cid (fst (SupersedeChunks sid cid after db)) = filter (\<lambda>k. ck_To k \<le> after) (live_rows sid cid db)"
proof -
  have "filter (\<lambda>c. ck_StreamID c = sid \<and> ck_ChainID c = cid \<and> Live c)
      (update_rows (superseding sid cid after) (\<lambda>c. c\<lparr>ck_Status := ChunkSuperseded\<rparr>) cks) =
    filter (\<lambda>k. ck_To k \<le> after) (filter (\<lambda>c. ck_StreamID c = sid \<and> ck_ChainID c = cid \<and> Live c) cks)" for cks
    by (induction cks) (auto simp: update_rows_def superseding_def Live_def)
  then show ?thesis by (simp add: SupersedeChunks_def live_rows_def)
qed

text \<open>C25: superseding the chunks after a divergence point removes exactly the chunks that end behind it
  from the chain's live listing and keeps the order of the rest; if the live chunks formed an unbroken
  run before, they still do, and the run no longer passes the divergence point.\<close>

theorem supersede_cuts_at_divergence:
  assumes "ListChunks (live_query sid cid) db = Ok cks" "SupersedeChunks sid cid after db = (db', n)"
  shows "ListChunks (live_query sid cid) db' = Ok (filter (\<lambda>k. ck_To k \<le> after) cks)
    \<and> (\<forall>s e. run_from s cks e \<longrightarrow> (\<exists>e'. run_from s (filter (\<lambda>k. ck_To k \<le> after) cks) e' \<and> (e' = s \<or> e' \<le> after)))"
proof -
  have ids: "sid \<noteq> []" "cid \<noteq> []"
    using assms(1) by (auto simp: ListChunks_def live_query_def chain_query_def split: if_splits)
  have cks: "cks = sort_key chunk_order (live_rows sid cid db)"
    using assms(1) by (simp add: ListChunks_live [OF ids])
  then have "ListChunks (live_query sid cid) db' = Ok (filter (\<lambda>k. ck_To k \<le> after) cks)"
    using live_rows_superseded [of sid cid after db] assms(2)
    by (simp add: ListChunks_live [OF ids] filter_sort)
  then show ?thesis using run_from_cut by blast
qed

theorem supersede_cuts_at_divergence_witness:
  "ListChunks (live_query ''s'' ''c'')
     (fst (SupersedeChunks ''s'' ''c'' (Timestamp 200 0) (sample_db [chunk1, chunk2] (Timestamp 220 1)))) = Ok [chunk1]"
proof -
  have "ListChunks (live_query ''s'' ''c'') (sample_db [chunk1, chunk2] (Timestamp 220 1)) = Ok [chunk1, chunk2]"
    by (simp add: ListChunks_live live_rows_def sample_db_def chunk_order_def less_eq_prod_def
        less_Timestamp_def less_eq_Timestamp_def)
  from supersede_cuts_at_divergence [OF this surjective_pairing, of "Timestamp 200 0"] show ?thesis
    by (simp add: less_eq_Timestamp_def)
qed

section \<open>Objects are tracked until they are pruned\<close>

lemma in_update_rows_core:
  assumes "k \<in> set cks" "\<And>x. P x \<Longrightarrow> g (f x) = g x"
  shows "\<exists>k' \<in> set (update_rows P f cks). g k' = g k"
  using assms by (intro bexI [of _ "if P k then f k else k"]) (auto simp: set_update_rows)

definition tracked :: "Chunk \<Rightarrow> pitr_db \<Rightarrow> bool" where
  "tracked k db \<longleftrightarrow> (\<exists>k' \<in> set (db_chunks db). ck_core k' = ck_core k
     \<and> (ck_Status k' = ChunkPruned \<longrightarrow> ck_DeletedAt k \<noteq> None))"

lemma tracked_same: "k \<in> set (db_chunks db) \<Longrightarrow> ck_Status k \<noteq> ChunkPruned \<Longrightarrow> db_chunks db' = db_chunks db \<Longrightarrow> tracked k db'"
  by (auto simp: tracked_def)

lemma tracked_update:
  assumes "k \<in> set (db_chunks db)" "ck_Status k \<noteq> ChunkPruned" "db_chunks db' = update_rows P f (db_chunks db)"
    "\<And>x. P x \<Longrightarrow> ck_core (f x) = ck_core x"
    "\<And>x. P x \<Longrightarrow> ck_Status x \<noteq> ChunkPruned \<Longrightarrow> ck_Status (f x) = ChunkPruned \<Longrightarrow> ck_DeletedAt x \<noteq> None"
  shows "tracked k db'"
  unfolding tracked_def using assms
  by (intro bexI [of _ "if P k then f k else k"]) (auto simp: set_update_rows)

lemma tracked_update_chunk:
  assumes "update_chunk P f db = Ok db'" "k \<in> set (db_chunks db)" "ck_Status k \<noteq> ChunkPruned"
    "\<And>x. P x \<Longrightarrow> ck_core (f x) = ck_core x"
    "\<And>x. P x \<Longrightarrow> ck_Status x \<noteq> ChunkPruned \<Longrightarrow> ck_Status (f x) = ChunkPruned \<Longrightarrow> ck_DeletedAt x \<noteq> None"
  shows "tracked k db'"
  using assms by (intro tracked_update [of k db db' P f]) (auto simp: update_chunk_def split: if_splits)

lemma update_rows_twice:
  assumes "\<And>x. D x \<Longrightarrow> \<not> D (f x)"
  shows "update_rows (\<lambda>c. A c \<and> D c) f (update_rows (\<lambda>c. B c \<and> D c) f xs) = update_rows (\<lambda>c. (B c \<or> A c) \<and> D c) f xs"
  using assms by (induction xs) (auto simp: update_rows_def)

lemma DeleteChunks_rows:
  "db_chunks (fst (DeleteChunks ids at pa db)) = update_rows (\<lambda>c. ck_ID c \<in> set ids \<and> deletable c)
     (\<lambda>c. c\<lparr>ck_DeletedAt := Some (timeKey at), ck_PurgeAfter := Some (timeKey pa)\<rparr>) (db_chunks db)"
proof (induction ids arbitrary: db)
  case (Cons i ids)
  let ?f = "\<lambda>c. c\<lparr>ck_DeletedAt := Some (timeKey at), ck_PurgeAfter := Some (timeKey pa)\<rparr>"
  have "fst (DeleteChunks (i # ids) at pa db) = fst (DeleteChunks ids at pa
      (db\<lparr>db_chunks := update_rows (\<lambda>c. ck_ID c = i \<and> deletable c) ?f (db_chunks db)\<rparr>))"
    by (simp add: Let_def case_prod_beta)
  then have "db_chunks (fst (DeleteChunks (i # ids) at pa db)) = update_rows (\<lambda>c. ck_ID c \<in> set ids \<and> deletable c) ?f
      (update_rows (\<lambda>c. ck_ID c = i \<and> deletable c) ?f (db_chunks db))"
    by (simp only: Cons.IH) simp
  also have "\<dots> = update_rows (\<lambda>c. ck_ID c \<in> set (i # ids) \<and> deletable c) ?f (db_chunks db)"
    by (subst update_rows_twice) (simp_all add: deletable_def)
  finally show ?case .
qed (simp add: update_rows_def)

lemma DeleteChunks_rest:
  "db_chains (fst (DeleteChunks ids at pa db)) = db_chains db"
  "db_state (fst (DeleteChunks ids at pa db)) = db_state db"
  "db_streams (fst (DeleteChunks ids at pa db)) = db_streams db"
  by (induction ids arbitrary: db) (simp_all add: Let_def case_prod_beta)

lemma tracked_CommitChunk:
  assumes "CommitChunk now c db = Ok (db', c')" "k \<in> set (db_chunks db)" "ck_Status k \<noteq> ChunkPruned"
  shows "tracked k db'"
  using assms by (elim CommitChunk_Ok) (auto simp: tracked_def committed_def)

lemma tracked_step:
  assumes "repo_step db db'" "k \<in> set (db_chunks db)" "ck_Status k \<noteq> ChunkPruned"
  shows "tracked k db'"
  using assms(1)
proof cases
  case (delete_chunks ids at pa n)
  then have "db_chunks db' = db_chunks (fst (DeleteChunks ids at pa db))" by simp
  then show ?thesis
    unfolding DeleteChunks_rows
    by (rule tracked_update [OF assms(2,3)]) (simp_all add: ck_core_def)
next
  case (supersede sid cid after n)
  then have "db_chunks db' = update_rows (superseding sid cid after) (\<lambda>c. c\<lparr>ck_Status := ChunkSuperseded\<rparr>) (db_chunks db)"
    by (auto simp: SupersedeChunks_def)
  then show ?thesis by (rule tracked_update [OF assms(2,3)]) (simp_all add: ck_core_def)
next
  case (mark_verified kid at err)
  then show ?thesis unfolding MarkChunkVerified_def
    by (rule tracked_update_chunk [OF _ assms(2,3)]) (simp_all add: ck_core_def)
next
  case (retain_until kid until)
  then show ?thesis unfolding SetChunkRetainUntil_def
    by (rule tracked_update_chunk [OF _ assms(2,3)]) (simp_all add: ck_core_def)
next
  case (mark_pruned kid)
  then show ?thesis unfolding MarkChunkPruned_def
    by (rule tracked_update_chunk [OF _ assms(2,3)]) (simp_all add: ck_core_def)
next
  case (commit_chunk now c c')
  then show ?thesis using assms by (intro tracked_CommitChunk)
next
  case (delete_stream sid)
  then have "k \<in> set (db_chunks db')" using assms(2,3) by (auto simp: DeleteStream_def split: if_splits)
  then show ?thesis using assms(3) by (auto simp: tracked_def)
qed (rule tracked_same [OF assms(2,3)], auto simp: CreateStream_def UpdateStream_def StartChain_def EndChain_def
      SetCollectorStatus_def SetWindowLow_def SetReplicaSetID_def update_state_def Let_def
      split: if_splits option.splits)+

text \<open>C26: no statement of the repository forgets a stored object: a chunk row that is not pruned is
  still there after every step, with the same identity, object location and range, and it becomes pruned
  only if it had been deleted before.\<close>

theorem stored_object_tracked:
  assumes "repo_step db db'" "k \<in> set (db_chunks db)" "ck_Status k \<noteq> ChunkPruned"
  shows "\<exists>k' \<in> set (db_chunks db'). ck_core k' = ck_core k
    \<and> (ck_Status k' = ChunkPruned \<longrightarrow> ck_DeletedAt k \<noteq> None)"
  using tracked_step [OF assms] by (simp add: tracked_def)

theorem stored_object_tracked_witness:
  "\<exists>k' \<in> set (db_chunks (sample_db [chunk1, chunk2] (Timestamp 220 1))). ck_core k' = ck_core chunk1"
  using stored_object_tracked [OF repo_step.commit_chunk [OF sample_commit2], of chunk1]
  by (auto simp: sample_db_def)

end
