(* ===== verification/Pitr_Plan_Props.thy ===== *)
theory Pitr_Plan_Props
  imports Pitr_Plan Pitr_Repo_Props
begin

text \<open>
  Correctness of the restore planner: targets are converted without overflow, a plan replays every
  position between the base and the limit from chunks that are live, did not fail verification and can be
  decrypted, the newest usable base is chosen, and what it refuses.
\<close>

section \<open>Runs of chunks hold every position between their ends\<close>

lemma successively_meets_holds:
  "successively meets (c # cs) \<Longrightarrow> ck_From c < ts \<Longrightarrow> ts \<le> ck_To (last (c # cs)) \<Longrightarrow>
   \<exists>k \<in> set (c # cs). ck_From k < ts \<and> ts \<le> ck_To k"
proof (induction cs arbitrary: c)
  case (Cons d cs)
  show ?case
  proof (cases "ts \<le> ck_To c")
    case False
    with Cons.prems have "successively meets (d # cs)" "ck_From d < ts" "ts \<le> ck_To (last (d # cs))" by auto
    from Cons.IH [OF this] show ?thesis by auto
  qed (use Cons.prems(2) in auto)
qed auto

section \<open>The loop over the chunks\<close>

definition chunk_ok :: "Chunk \<Rightarrow> bool" where
  "chunk_ok ch \<longleftrightarrow> \<not> is_blank (ck_SHA256 ch) \<and> ck_VerifyError ch = []"

text \<open>What the loop has established about the chunks it took: they continue the earlier ones, reach the
  limit only with the last one, passed verification, and hold the consistent point in the right term.\<close>

definition taken_ok :: "Base \<Rightarrow> Timestamp \<Rightarrow> bool \<Rightarrow> Chunk list \<Rightarrow> Chunk list \<Rightarrow> bool" where
  "taken_ok b limit tk acc taken \<longleftrightarrow> taken \<noteq> []
     \<and> (successively meets acc \<longrightarrow> successively meets (acc @ taken))
     \<and> limit \<le> ck_To (last taken) \<and> (\<forall>k \<in> set (butlast taken). ck_To k < limit)
     \<and> (\<forall>k \<in> set taken. chunk_ok k)
     \<and> (tk \<or> ot_TS (b_TAfter b) \<le> ck_From (hd (acc @ taken))
          \<or> (\<exists>k \<in> set taken. holds_TAfter b k \<and> \<not> term_outside b k))"

lemma taken_ok_single:
  assumes "acc \<noteq> [] \<longrightarrow> ck_From ch = ck_To (last acc)" "chunk_ok ch" "limit \<le> ck_To ch"
    "tk \<or> ot_TS (b_TAfter b) \<le> ck_From (hd (acc @ [ch])) \<or> holds_TAfter b ch \<and> \<not> term_outside b ch"
  shows "taken_ok b limit tk acc [ch]"
  using assms by (auto simp: taken_ok_def successively_append_iff)

lemma taken_ok_Cons:
  assumes "acc \<noteq> [] \<longrightarrow> ck_From ch = ck_To (last acc)" "chunk_ok ch" "ck_To ch < limit"
    "holds_TAfter b ch \<longrightarrow> tk \<or> \<not> term_outside b ch"
    "taken_ok b limit (tk \<or> holds_TAfter b ch) (acc @ [ch]) taken"
  shows "taken_ok b limit tk acc (ch # taken)"
  using assms by (auto simp: taken_ok_def successively_append_iff)

lemma planLoop_Ok:
  assumes "planLoop b limit tk acc bytes unver chs = Some (Ok (cks, bytes', unver'))"
  shows "\<exists>taken post. chs = taken @ post \<and> cks = acc @ taken \<and> taken_ok b limit tk acc taken
    \<and> unver' = unver + int (length (filter (\<lambda>k. ck_VerifiedAt k = None) taken))"
  using assms
proof (induction chs arbitrary: tk acc bytes unver)
  case (Cons ch chs)
  let ?tk = "tk \<or> holds_TAfter b ch"
  let ?u = "if ck_VerifiedAt ch = None then unver + 1 else unver"
  from Cons.prems have g: "acc \<noteq> [] \<longrightarrow> ck_From ch = ck_To (last acc)" "chunk_ok ch"
    "holds_TAfter b ch \<longrightarrow> tk \<or> \<not> term_outside b ch"
    by (auto simp: chunk_ok_def split: if_splits)
  show ?case
  proof (cases "limit \<le> ck_To ch")
    case True
    with Cons.prems g have "cks = acc @ [ch]" "unver' = ?u"
      "tk \<or> ot_TS (b_TAfter b) \<le> ck_From (hd (acc @ [ch])) \<or> holds_TAfter b ch \<and> \<not> term_outside b ch"
      by (auto simp: Let_def not_less split: if_splits)
    with taken_ok_single [OF g(1,2) True] show ?thesis
      by - (rule exI [of _ "[ch]"], rule exI [of _ chs], auto)
  next
    case False
    with Cons.prems g have "planLoop b limit ?tk (acc @ [ch]) (wrap64 (bytes + ck_SizeBytes ch)) ?u chs
        = Some (Ok (cks, bytes', unver'))"
      by (auto simp: Let_def split: if_splits)
    from Cons.IH [OF this] obtain taken post where t: "chs = taken @ post" "cks = (acc @ [ch]) @ taken"
      "taken_ok b limit ?tk (acc @ [ch]) taken"
      "unver' = ?u + int (length (filter (\<lambda>k. ck_VerifiedAt k = None) taken))" by blast
    from taken_ok_Cons [OF g(1,2) _ g(3) t(3)] False have "taken_ok b limit tk acc (ch # taken)" by simp
    with t show ?thesis by - (rule exI [of _ "ch # taken"], rule exI [of _ post], auto)
  qed
qed simp

lemma findStart_Some:
  "findStart tb chs = Some ys \<Longrightarrow> \<exists>pre. chs = pre @ ys \<and> ys \<noteq> [] \<and> ck_From (hd ys) \<le> tb \<and> tb \<le> ck_To (hd ys)"
  by (induction chs) (auto split: if_splits intro: exI [of _ "[]"] exI [of _ "_ # _"])

text \<open>A plan as the loop leaves it: a stretch of the live chunks of one chain that can be replayed on the base.\<close>

definition replayable :: "Base \<Rightarrow> Timestamp \<Rightarrow> Chunk list \<Rightarrow> bool" where
  "replayable b limit cks \<longleftrightarrow> cks \<noteq> [] \<and> successively meets cks
     \<and> ck_From (hd cks) \<le> ot_TS (b_TBefore b) \<and> ot_TS (b_TBefore b) \<le> ck_To (hd cks)
     \<and> limit \<le> ck_To (last cks) \<and> (\<forall>k \<in> set (butlast cks). ck_To k < limit)
     \<and> (\<forall>k \<in> set cks. chunk_ok k)
     \<and> (ot_TS (b_TAfter b) \<le> ck_From (hd cks) \<or> (\<exists>k \<in> set cks. holds_TAfter b k \<and> \<not> term_outside b k))"

lemma planLoop_replayable:
  assumes "findStart (ot_TS (b_TBefore b)) chunks = Some ys"
    "planLoop b limit False [] bytes unver ys = Some (Ok (cks, bytes', unver'))"
  shows "replayable b limit cks \<and> (\<exists>pre post. chunks = pre @ cks @ post)
    \<and> unver' = unver + int (length (filter (\<lambda>k. ck_VerifiedAt k = None) cks))"
proof -
  from findStart_Some [OF assms(1)] obtain pre where f: "chunks = pre @ ys" "ys \<noteq> []"
    "ck_From (hd ys) \<le> ot_TS (b_TBefore b)" "ot_TS (b_TBefore b) \<le> ck_To (hd ys)" by blast
  from planLoop_Ok [OF assms(2)] obtain post where t: "ys = cks @ post" "taken_ok b limit False [] cks"
    "unver' = unver + int (length (filter (\<lambda>k. ck_VerifiedAt k = None) cks))" by auto
  then have "hd ys = hd cks" by (auto simp: taken_ok_def)
  with f t show ?thesis by (auto simp: taken_ok_def replayable_def)
qed

lemma planFrom_Ok:
  assumes "planFrom cs byChain b limit = Ok plan"
  shows "\<exists>c \<in> set cs. rp_ChainID plan = cn_ChainID c \<and> rp_Base plan = b \<and> rp_Limit plan = limit
    \<and> replayable b limit (rp_Chunks plan) \<and> (\<exists>pre post. chunks_of byChain c = pre @ rp_Chunks plan @ post)
    \<and> rp_ChunkCount plan = int (length (rp_Chunks plan))
    \<and> rp_UnverifiedChunks plan = int (length (filter (\<lambda>k. ck_VerifiedAt k = None) (rp_Chunks plan)))"
  using assms
proof (induction cs)
  case (Cons c cs)
  show ?case
  proof (cases "findStart (ot_TS (b_TBefore b)) (chunks_of byChain c)")
    case (Some ys)
    with Cons.prems obtain cks bytes unver where l: "planLoop b limit False [] 0 0 ys = Some (Ok (cks, bytes, unver))"
      "plan = \<lparr>rp_StreamID = [], rp_ChainID = cn_ChainID c, rp_Base = b, rp_Chunks = cks,
         rp_ChunkCount = int (length cks), rp_OplogBytes = bytes, rp_UnverifiedChunks = unver,
         rp_Limit = limit, rp_TargetTime = zero_time\<rparr>"
      by (auto split: option.splits sum.splits prod.splits)
    then show ?thesis using planLoop_replayable [OF Some l(1)] by simp
  qed (use Cons in auto)
qed simp

lemma tryBases_Ok:
  assumes "tryBases cs byChain limit fe bs = Ok plan"
  shows "\<exists>pre b post. bs = pre @ b # post \<and> planFrom cs byChain b limit = Ok plan
    \<and> (\<forall>b' \<in> set pre. \<exists>e. planFrom cs byChain b' limit = Err e)"
  using assms
proof (induction bs arbitrary: fe)
  case (Cons b bs)
  show ?case
  proof (cases "planFrom cs byChain b limit")
    case (Inl e)
    with Cons.prems obtain fe' where "tryBases cs byChain limit fe' bs = Ok plan" by auto
    from Cons.IH [OF this] obtain pre b' post where "bs = pre @ b' # post" "planFrom cs byChain b' limit = Ok plan"
      "\<forall>b' \<in> set pre. \<exists>e. planFrom cs byChain b' limit = Err e" by blast
    with Inl show ?thesis by - (rule exI [of _ "b # pre"], auto)
  next
    case (Inr p)
    with Cons.prems show ?thesis by - (rule exI [of _ "[]"], auto)
  qed
qed simp

lemma tryBases_Err: "tryBases cs byChain limit fe bs = Err e \<Longrightarrow> \<forall>b \<in> set bs. \<exists>e. planFrom cs byChain b limit = Err e"
  by (induction bs arbitrary: fe) (auto split: sum.splits option.splits)

lemma sorted_before:
  assumes "sorted (map f (pre @ b # post))" "x \<in> set (pre @ b # post)" "f x < f b"
  shows "x \<in> set pre"
  using assms by (auto simp: sorted_append)

lemma candidates_iff:
  "b \<in> set (candidates limit bs) \<longleftrightarrow> b \<in> set bs \<and> ot_TS (b_TAfter b) < limit \<and> \<not> ts_IsZero (ot_TS (b_TBefore b))"
  by (auto simp: candidates_def)

lemma listChains_Ok:
  assumes "listChains src sid cs m n = Ok (byChain, newest)"
  shows "(\<forall>c \<in> set cs. \<exists>chunks. ps_ListChunks src (committed_query sid (cn_ChainID c)) = Ok chunks
       \<and> byChain (cn_ChainID c) = Some (filter Live chunks))
    \<and> (\<forall>i. i \<notin> cn_ChainID ` set cs \<longrightarrow> byChain i = m i)"
  using assms
proof (induction cs arbitrary: m n)
  case (Cons c cs)
  then obtain chunks n' where l: "ps_ListChunks src (committed_query sid (cn_ChainID c)) = Ok chunks"
    "listChains src sid cs (m(cn_ChainID c \<mapsto> filter Live chunks)) n' = Ok (byChain, newest)"
    by (auto simp: Let_def split: sum.splits)
  note IH = Cons.IH [OF l(2)]
  have "byChain (cn_ChainID c) = Some (filter Live chunks)"
    using IH l(1) by (cases "cn_ChainID c \<in> cn_ChainID ` set cs") fastforce+
  with IH l(1) show ?case by auto
qed simp

section \<open>Completeness of the loop\<close>

lemma planLoop_complete:
  assumes "taken \<noteq> []" "successively meets (acc @ taken)" "\<forall>k \<in> set taken. chunk_ok k"
    "\<forall>k \<in> set taken. holds_TAfter b k \<longrightarrow> \<not> term_outside b k" "limit \<le> ck_To (last taken)"
    "ot_TS (b_TAfter b) < limit"
    "tk \<or> ot_TS (b_TAfter b) \<le> ck_From (hd (acc @ taken)) \<or> ck_From (hd taken) < ot_TS (b_TAfter b)"
  shows "\<exists>r. planLoop b limit tk acc bytes unver (taken @ post) = Some (Ok r)"
  using assms
proof (induction taken arbitrary: tk acc bytes unver)
  case (Cons ch taken)
  let ?tk = "tk \<or> holds_TAfter b ch"
  have g: "acc \<noteq> [] \<longrightarrow> ck_From ch = ck_To (last acc)" "chunk_ok ch" "holds_TAfter b ch \<longrightarrow> \<not> term_outside b ch"
    using Cons.prems by (auto simp: successively_append_iff)
  show ?case
  proof (cases "limit \<le> ck_To ch")
    case True
    then have "?tk \<or> ot_TS (b_TAfter b) \<le> ck_From (hd (acc @ [ch]))"
      using Cons.prems(6,7) by (cases acc) (auto simp: holds_TAfter_def)
    then show ?thesis using True g by (auto simp: Let_def chunk_ok_def not_less)
  next
    case False
    with Cons.prems(5) have ne: "taken \<noteq> []" by (cases taken) auto
    then have hd: "ck_From (hd taken) = ck_To ch"
      using Cons.prems(2) by (cases taken) (auto simp: successively_append_iff)
    have "\<exists>r. planLoop b limit ?tk (acc @ [ch]) (wrap64 (bytes + ck_SizeBytes ch))
        (if ck_VerifiedAt ch = None then unver + 1 else unver) (taken @ post) = Some (Ok r)"
    proof (rule Cons.IH [OF ne])
      show "?tk \<or> ot_TS (b_TAfter b) \<le> ck_From (hd ((acc @ [ch]) @ taken)) \<or> ck_From (hd taken) < ot_TS (b_TAfter b)"
        using Cons.prems(7) unfolding hd by (cases acc) (auto simp: holds_TAfter_def)
    qed (use Cons.prems ne in auto)
    then show ?thesis using False g by (auto simp: Let_def chunk_ok_def)
  qed
qed simp

section \<open>Repositories the planner reads\<close>

definition repo_source :: "(string \<Rightarrow> 'db \<Rightarrow> Chain list) \<Rightarrow> (ChunkQuery \<Rightarrow> 'db \<Rightarrow> pitr_error + Chunk list) \<Rightarrow> 'db
    \<Rightarrow> Base list \<Rightarrow> (string \<Rightarrow> bool) option \<Rightarrow> PlanSource" where
  "repo_source lc lk db bases hk = \<lparr>ps_ListChains = \<lambda>sid. Ok (lc sid db), ps_ListChunks = \<lambda>q. lk q db,
     ps_Bases = bases, ps_HasKey = hk\<rparr>"

lemma PlanRestore_Ok:
  assumes "PlanRestore (Some st) src target = Ok plan"
  obtains limit cs byChain newest p where "Limit target = Ok limit" "ps_ListChains src (st_ID st) = Ok cs"
    "listChains src (st_ID st) cs Map.empty ts_zero = Ok (byChain, newest)" "limit \<le> newest"
    "tryBases cs byChain limit None (candidates limit (ps_Bases src)) = Ok p"
    "plan = p\<lparr>rp_StreamID := st_ID st, rp_TargetTime := targetTime target\<rparr>"
    "checkKeys plan (ps_HasKey src) = None"
  using assms by (auto simp: PlanRestore_def Let_def not_less split: sum.splits prod.splits if_splits option.splits)

definition live_map :: "(string \<Rightarrow> 'db \<Rightarrow> Chain list) \<Rightarrow> (string \<Rightarrow> string \<Rightarrow> 'db \<Rightarrow> Chunk list) \<Rightarrow> 'db \<Rightarrow> string
    \<Rightarrow> (string \<rightharpoonup> Chunk list)" where
  "live_map lc live db sid cid = (if cid \<in> cn_ChainID ` set (lc sid db) then Some (live sid cid db) else None)"

text \<open>The contract of a repository: the chunks of a chain the planner asks for are listed in the order of
  their ranges, are live, and belong to the stream and the chain.\<close>

locale plan_repository =
  fixes inv :: "'db \<Rightarrow> bool"
    and list_chains :: "string \<Rightarrow> 'db \<Rightarrow> Chain list"
    and list_chunks :: "ChunkQuery \<Rightarrow> 'db \<Rightarrow> pitr_error + Chunk list"
    and live_chunks :: "string \<Rightarrow> string \<Rightarrow> 'db \<Rightarrow> Chunk list"
  assumes listed: "inv db \<Longrightarrow> c \<in> set (list_chains sid db) \<Longrightarrow>
      list_chunks (committed_query sid (cn_ChainID c)) db = Ok (live_chunks sid (cn_ChainID c) db)"
    and live: "k \<in> set (live_chunks sid cid db) \<Longrightarrow> Live k \<and> ck_StreamID k = sid \<and> ck_ChainID k = cid"
    and forward: "inv db \<Longrightarrow> c \<in> set (list_chains sid db) \<Longrightarrow> k \<in> set (live_chunks sid (cn_ChainID c) db) \<Longrightarrow> ck_forward k"
    and ordered: "inv db \<Longrightarrow> c \<in> set (list_chains sid db) \<Longrightarrow>
      sorted (map ck_From (live_chunks sid (cn_ChainID c) db)) \<and> sorted (map ck_To (live_chunks sid (cn_ChainID c) db))"
begin

abbreviation src_of :: "'db \<Rightarrow> Base list \<Rightarrow> (string \<Rightarrow> bool) option \<Rightarrow> PlanSource" where
  "src_of \<equiv> repo_source list_chains list_chunks"

lemma listChains_live_map:
  assumes "inv db" "listChains (src_of db bases hk) sid (list_chains sid db) Map.empty n = Ok (byChain, newest)"
  shows "byChain = live_map list_chains live_chunks db sid"
proof
  fix i
  have flt: "filter Live (live_chunks sid cid db) = live_chunks sid cid db" for cid
    using live by (simp add: filter_id_conv)
  show "byChain i = live_map list_chains live_chunks db sid i"
  proof (cases "i \<in> cn_ChainID ` set (list_chains sid db)")
    case True
    then obtain c where "c \<in> set (list_chains sid db)" "i = cn_ChainID c" by blast
    with listChains_Ok [OF assms(2)] listed [OF assms(1), of c sid] flt show ?thesis
      by (auto simp: live_map_def repo_source_def)
  next
    case False
    with listChains_Ok [OF assms(2)] show ?thesis by (auto simp: live_map_def)
  qed
qed

lemma plan_chosen:
  assumes "inv db" "PlanRestore (Some st) (src_of db bases hk) target = Ok plan"
  obtains limit p where "Limit target = Ok limit" "rp_Base plan \<in> set (candidates limit bases)"
    "planFrom (list_chains (st_ID st) db) (live_map list_chains live_chunks db (st_ID st)) (rp_Base plan) limit = Ok p"
    "plan = p\<lparr>rp_StreamID := st_ID st, rp_TargetTime := targetTime target\<rparr>" "checkKeys plan hk = None"
    "\<forall>b \<in> set (candidates limit bases). ot_TS (b_TAfter (rp_Base plan)) < ot_TS (b_TAfter b) \<longrightarrow>
       (\<exists>e. planFrom (list_chains (st_ID st) db) (live_map list_chains live_chunks db (st_ID st)) b limit = Err e)"
proof -
  from assms(2) obtain limit byChain newest p where p: "Limit target = Ok limit"
    "listChains (src_of db bases hk) (st_ID st) (list_chains (st_ID st) db) Map.empty ts_zero = Ok (byChain, newest)"
    "tryBases (list_chains (st_ID st) db) byChain limit None (candidates limit bases) = Ok p"
    "plan = p\<lparr>rp_StreamID := st_ID st, rp_TargetTime := targetTime target\<rparr>" "checkKeys plan hk = None"
    by (elim PlanRestore_Ok) (auto simp: repo_source_def)
  note m = listChains_live_map [OF assms(1) p(2)]
  from tryBases_Ok [OF p(3)] obtain pre b post where b: "candidates limit bases = pre @ b # post"
    "planFrom (list_chains (st_ID st) db) byChain b limit = Ok p"
    "\<forall>b' \<in> set pre. \<exists>e. planFrom (list_chains (st_ID st) db) byChain b' limit = Err e" by blast
  have pb: "rp_Base plan = b" using planFrom_Ok [OF b(2)] p(4) by auto
  have "sorted (map (\<lambda>b. - ts_num (ot_TS (b_TAfter b))) (candidates limit bases))" by (simp add: candidates_def)
  then have "b' \<in> set pre" if "b' \<in> set (candidates limit bases)" "ot_TS (b_TAfter b) < ot_TS (b_TAfter b')" for b'
    using sorted_before [of "\<lambda>b. - ts_num (ot_TS (b_TAfter b))" pre b post b'] that by (simp add: b(1) ts_num_less)
  with that [OF p(1)] b p(4,5) pb m show ?thesis by auto
qed

lemma plan_chunks:
  assumes "inv db" "PlanRestore (Some st) (src_of db bases hk) target = Ok plan"
  obtains limit pre post where "Limit target = Ok limit" "rp_Limit plan = limit" "rp_Base plan \<in> set bases"
    "ot_TS (b_TAfter (rp_Base plan)) < limit" "rp_StreamID plan = st_ID st"
    "replayable (rp_Base plan) limit (rp_Chunks plan)" "checkKeys plan hk = None"
    "live_chunks (st_ID st) (rp_ChainID plan) db = pre @ rp_Chunks plan @ post"
proof -
  from plan_chosen [OF assms] obtain limit p where p: "Limit target = Ok limit"
    "rp_Base plan \<in> set (candidates limit bases)"
    "planFrom (list_chains (st_ID st) db) (live_map list_chains live_chunks db (st_ID st)) (rp_Base plan) limit = Ok p"
    "plan = p\<lparr>rp_StreamID := st_ID st, rp_TargetTime := targetTime target\<rparr>" "checkKeys plan hk = None"
    by blast
  from planFrom_Ok [OF p(3)] obtain c pre post where "c \<in> set (list_chains (st_ID st) db)"
    "rp_ChainID p = cn_ChainID c" "rp_Limit p = limit" "replayable (rp_Base plan) limit (rp_Chunks p)"
    "chunks_of (live_map list_chains live_chunks db (st_ID st)) c = pre @ rp_Chunks p @ post" by blast
  with that [OF p(1)] p(2,4,5) show ?thesis by (auto simp: candidates_iff chunks_of_def live_map_def)
qed

lemma plan_counts:
  assumes "inv db" "PlanRestore (Some st) (src_of db bases hk) target = Ok plan"
  shows "rp_ChunkCount plan = int (length (rp_Chunks plan))
    \<and> rp_UnverifiedChunks plan = int (length (filter (\<lambda>k. ck_VerifiedAt k = None) (rp_Chunks plan)))"
proof -
  from plan_chosen [OF assms] obtain limit p where p:
    "planFrom (list_chains (st_ID st) db) (live_map list_chains live_chunks db (st_ID st)) (rp_Base plan) limit = Ok p"
    "plan = p\<lparr>rp_StreamID := st_ID st, rp_TargetTime := targetTime target\<rparr>" by blast
  from planFrom_Ok [OF p(1)] show ?thesis by (auto simp: p(2))
qed

end

section \<open>The SQLite repository\<close>

definition live_listing :: "string \<Rightarrow> string \<Rightarrow> pitr_db \<Rightarrow> Chunk list" where
  "live_listing sid cid db = sort_key chunk_order (live_rows sid cid db)"

abbreviation sql_source :: "pitr_db \<Rightarrow> Base list \<Rightarrow> (string \<Rightarrow> bool) option \<Rightarrow> PlanSource" where
  "sql_source \<equiv> repo_source ListChains ListChunks"

lemma committed_query_live: "committed_query = live_query"
  by (intro ext) (simp add: committed_query_def live_query_def chain_query_def)

text \<open>The live listing of a chain is the listing of all its rows without the others, so it inherits its order.\<close>

lemma live_listing_rows: "live_listing sid cid db = filter Live (sort_key chunk_order (rows_of sid cid (db_chunks db)))"
  by (simp add: live_listing_def live_rows_def rows_of_def filter_sort conj_ac)

lemma inv_run_listing:
  "pitr_inv db \<Longrightarrow> c \<in> set (db_chains db) \<Longrightarrow>
   \<exists>e. run_from (cn_Start c) (sort_key chunk_order (rows_of (cn_StreamID c) (cn_ChainID c) (db_chunks db))) e"
  using run_from_sort by (fastforce simp: pitr_inv_def inv_runs_def)

lemma run_from_sorted_ends: "run_from s cs e \<Longrightarrow> sorted (map ck_From cs) \<and> sorted (map ck_To cs)"
proof (induction cs arbitrary: s)
  case (Cons c cs)
  then have c: "ck_From c \<le> ck_To c" "run_from (ck_To c) cs e" by auto
  from Cons.IH [OF c(2)] show ?case
    using c(1) run_from_bounds [OF c(2)] by (auto intro: order_trans)
qed simp

interpretation sql: plan_repository pitr_inv ListChains ListChunks live_listing
proof
  fix db c sid assume "pitr_inv db" "c \<in> set (ListChains sid db)"
  then have "sid \<noteq> []" "cn_ChainID c \<noteq> []" using inv_chain_ids by (auto simp: in_ListChains)
  then show "ListChunks (committed_query sid (cn_ChainID c)) db = Ok (live_listing sid (cn_ChainID c) db)"
    by (simp add: committed_query_live ListChunks_live live_listing_def)
next
  fix k sid cid db assume "k \<in> set (live_listing sid cid db)"
  then show "Live k \<and> ck_StreamID k = sid \<and> ck_ChainID k = cid" by (simp add: live_listing_def live_rows_def)
next
  fix db c sid k assume "pitr_inv db" "c \<in> set (ListChains sid db)" "k \<in> set (live_listing sid (cn_ChainID c) db)"
  then show "ck_forward k"
    using inv_run_listing run_from_bounds by (fastforce simp: live_listing_rows in_ListChains)
next
  fix db c sid assume "pitr_inv db" "c \<in> set (ListChains sid db)"
  then obtain e where "run_from (cn_Start c) (sort_key chunk_order (rows_of sid (cn_ChainID c) (db_chunks db))) e"
    using inv_run_listing by (fastforce simp: in_ListChains)
  from run_from_sorted_ends [OF this] show "sorted (map ck_From (live_listing sid (cn_ChainID c) db)) \<and>
      sorted (map ck_To (live_listing sid (cn_ChainID c) db))"
    by (simp add: live_listing_rows sorted_filter)
qed

lemma in_live_listing: "k \<in> set (live_listing sid cid db) \<longleftrightarrow>
    k \<in> set (db_chunks db) \<and> ck_StreamID k = sid \<and> ck_ChainID k = cid \<and> Live k"
  by (auto simp: live_listing_def live_rows_def)

lemma replayable_holds:
  assumes "replayable b limit cks" "ot_TS (b_TBefore b) < ts" "ts \<le> limit"
  shows "\<exists>k \<in> set cks. ck_From k < ts \<and> ts \<le> ck_To k"
proof -
  from assms(1) obtain c cs where cks: "cks = c # cs" by (cases cks) (auto simp: replayable_def)
  from assms show ?thesis
    unfolding cks by (intro successively_meets_holds) (auto simp: replayable_def)
qed

text \<open>C2: a restore plan loses no write. Its base has its consistent point before the limit; its chunks are live rows of
  one chain of the stream with a recorded checksum and no recorded verification failure, and the keys of the encrypted
  ones are configured; they meet without a gap, and every oplog position after the base's T_before up to the limit lies
  in one of them. A chunk that was never verified is accepted; the plan counts those.\<close>

theorem plan_replays_every_write:
  assumes "repo_reachable db" "PlanRestore (Some st) (sql_source db bases hk) target = Ok plan"
  shows "Limit target = Ok (rp_Limit plan) \<and> rp_Base plan \<in> set bases
    \<and> ot_TS (b_TAfter (rp_Base plan)) < rp_Limit plan \<and> successively meets (rp_Chunks plan)
    \<and> (\<forall>k \<in> set (rp_Chunks plan). k \<in> set (db_chunks db) \<and> Live k \<and> ck_StreamID k = st_ID st
         \<and> ck_ChainID k = rp_ChainID plan \<and> ck_VerifyError k = [] \<and> \<not> is_blank (ck_SHA256 k)
         \<and> (ck_Encrypted k \<longrightarrow> (\<exists>h. hk = Some h \<and> h (ck_EncryptionMode k))))
    \<and> (\<forall>ts. ot_TS (b_TBefore (rp_Base plan)) < ts \<and> ts \<le> rp_Limit plan \<longrightarrow>
         (\<exists>k \<in> set (rp_Chunks plan). ck_From k < ts \<and> ts \<le> ck_To k))
    \<and> rp_ChunkCount plan = int (length (rp_Chunks plan))
    \<and> rp_UnverifiedChunks plan = int (length (filter (\<lambda>k. ck_VerifiedAt k = None) (rp_Chunks plan)))"
proof -
  from sql.plan_chunks [OF repo_reachable_inv [OF assms(1)] assms(2)] obtain limit pre post where
    p: "Limit target = Ok limit" "rp_Limit plan = limit" "rp_Base plan \<in> set bases"
    "ot_TS (b_TAfter (rp_Base plan)) < limit" "replayable (rp_Base plan) limit (rp_Chunks plan)"
    "checkKeys plan hk = None" "live_listing (st_ID st) (rp_ChainID plan) db = pre @ rp_Chunks plan @ post"
    by blast
  have "k \<in> set (live_listing (st_ID st) (rp_ChainID plan) db)" if "k \<in> set (rp_Chunks plan)" for k
    using that p(7) by simp
  moreover have "ck_Encrypted k \<longrightarrow> (\<exists>h. hk = Some h \<and> h (ck_EncryptionMode k))" if "k \<in> set (rp_Chunks plan)" for k
    using p(6) that by (auto simp: checkKeys_def key_missing_def split: if_splits option.splits)
  moreover have "ck_VerifyError k = [] \<and> \<not> is_blank (ck_SHA256 k)" if "k \<in> set (rp_Chunks plan)" for k
    using p(5) that by (auto simp: replayable_def chunk_ok_def)
  moreover have "successively meets (rp_Chunks plan)" using p(5) by (simp add: replayable_def)
  ultimately show ?thesis
    using p(1-4) replayable_holds [OF p(5)] sql.plan_counts [OF repo_reachable_inv [OF assms(1)] assms(2)]
    by (simp add: in_live_listing)
qed

text \<open>C20: the plan uses the newest base that works: planning fails for every other base of the stream whose
  consistent point is before the limit and newer than the chosen one.\<close>

theorem plan_uses_newest_base:
  assumes "repo_reachable db" "PlanRestore (Some st) (sql_source db bases hk) target = Ok plan"
    "b \<in> set bases" "ot_TS (b_TAfter (rp_Base plan)) < ot_TS (b_TAfter b)" "ot_TS (b_TAfter b) < rp_Limit plan"
    "\<not> ts_IsZero (ot_TS (b_TBefore b))"
  shows "\<exists>e. planFrom (ListChains (st_ID st) db) (live_map ListChains live_listing db (st_ID st)) b (rp_Limit plan) = Err e"
proof -
  note inv = repo_reachable_inv [OF assms(1)]
  from sql.plan_chosen [OF inv assms(2)] obtain limit where "Limit target = Ok limit"
    "\<forall>b \<in> set (candidates limit bases). ot_TS (b_TAfter (rp_Base plan)) < ot_TS (b_TAfter b) \<longrightarrow>
       (\<exists>e. planFrom (ListChains (st_ID st) db) (live_map ListChains live_listing db (st_ID st)) b limit = Err e)" by blast
  moreover from sql.plan_chunks [OF inv assms(2)] have "Limit target = Ok (rp_Limit plan)" by blast
  ultimately show ?thesis using assms(3-6) by (auto simp: candidates_iff)
qed

end
