(* ===== verification/Pitr_Plan_Complete.thy ===== *)
theory Pitr_Plan_Complete
  imports Pitr_Plan_Props
begin

text \<open>
  When the planner succeeds: targets, the listings it reads, a base from which the oplog runs to the limit,
  and the recheck of a plan before it is used.
\<close>

section \<open>Targets\<close>

text \<open>the limit of a wall-clock target is the end of its second, without overflow: a position is before
  the limit exactly when its second is at most the second of the target. An exact target is its own limit.
  Zero, double, empty and out-of-range targets are refused.\<close>

theorem limit_is_end_of_second:
  "(case Limit t of
      Inr l \<Rightarrow> (case tg_TS t of
          Some ts \<Rightarrow> l = ts \<and> \<not> ts_IsZero ts \<and> tg_At t = zero_time
        | None \<Rightarrow> 0 < go_Unix (tg_At t) \<and> (\<forall>p. p < l \<longleftrightarrow> uint (ts_T p) \<le> go_Unix (tg_At t)))
    | Inl e \<Rightarrow> e = ErrInvalidTarget \<and> ((tg_At t = zero_time) = (tg_TS t = None) \<or> tg_TS t = Some ts_zero
        \<or> tg_TS t = None \<and> (go_Unix (tg_At t) \<le> 0 \<or> 2 ^ 32 - 1 \<le> go_Unix (tg_At t))))"
proof -
  have word: "uint (word_of_int s + 1 :: 32 word) = s + 1" if "0 < s" "s < 2 ^ 32 - 1" for s
    using that by (simp add: uint_word_arith_bintrs uint_word_of_int take_bit_eq_mod)
  have pos: "p < Timestamp w 0 \<longleftrightarrow> uint (ts_T p) < uint w" for p w
    by (simp add: less_Timestamp_def word_less_def)
  show ?thesis
    by (auto simp: Limit_def Let_def ts_IsZero_def pos word split: option.splits intro: Timestamp.expand)
qed

section \<open>Planning succeeds\<close>

lemma listChains_newest:
  assumes "listChains src sid cs m n = Ok (byChain, newest)" "c \<in> set cs"
    "ps_ListChunks src (committed_query sid (cn_ChainID c)) = Ok chunks" "filter Live chunks \<noteq> []"
  shows "ck_To (last (filter Live chunks)) \<le> newest"
proof -
  have mono: "n \<le> newest" if "listChains src sid cs m n = Ok (byChain, newest)" for cs m n
    using that
  proof (induction cs arbitrary: m n)
    case (Cons a cs)
    then obtain m' n' where "listChains src sid cs m' n' = Ok (byChain, newest)" "n \<le> n'"
      by (fastforce simp: Let_def split: sum.splits if_splits)
    with Cons.IH order_trans show ?case by blast
  qed simp
  show ?thesis
    using assms
  proof (induction cs arbitrary: m n)
    case (Cons d cs)
    show ?case
    proof (cases "c \<in> set cs")
      case True
      with Cons show ?thesis by (auto simp: Let_def split: sum.splits)
    next
      case False
      with Cons.prems have "d = c" by simp
      with Cons.prems obtain m' where
        "listChains src sid cs m' (if ck_To (last (filter Live chunks)) > n then ck_To (last (filter Live chunks)) else n)
           = Ok (byChain, newest)"
        by (auto simp: Let_def split: sum.splits)
      from mono [OF this] show ?thesis by (auto split: if_splits)
    qed
  qed simp
qed

lemma listChains_total:
  "(\<forall>c \<in> set cs. \<exists>chunks. ps_ListChunks src (committed_query sid (cn_ChainID c)) = Ok chunks) \<Longrightarrow>
   \<exists>r. listChains src sid cs m n = Ok r"
  by (induction cs arbitrary: m n) (fastforce simp: Let_def)+

lemma findStart_skip:
  "(\<forall>k \<in> set pre. ck_To k < tb) \<Longrightarrow> findStart tb (pre @ ys) = findStart tb ys"
  by (induction pre) auto

lemma planFrom_skip:
  "(\<forall>d \<in> set cs1. findStart (ot_TS (b_TBefore b)) (chunks_of byChain d) = None) \<Longrightarrow>
   planFrom (cs1 @ cs2) byChain b limit = planFrom cs2 byChain b limit"
  by (induction cs1) auto

text \<open>A stretch of chunks that leads from the base past the limit.\<close>

definition leads_to :: "Base \<Rightarrow> Timestamp \<Rightarrow> Chunk list \<Rightarrow> bool" where
  "leads_to b limit cks \<longleftrightarrow> cks \<noteq> [] \<and> successively meets cks
     \<and> ck_From (hd cks) \<le> ot_TS (b_TBefore b) \<and> ot_TS (b_TBefore b) \<le> ck_To (hd cks)
     \<and> limit \<le> ck_To (last cks) \<and> (\<forall>k \<in> set cks. chunk_ok k)
     \<and> (\<forall>k \<in> set cks. holds_TAfter b k \<longrightarrow> \<not> term_outside b k)"

lemma planFrom_complete:
  assumes "leads_to b limit taken" "chunks_of byChain c = pre @ taken @ post"
    "\<forall>k \<in> set pre. ck_To k < ot_TS (b_TBefore b)" "ot_TS (b_TAfter b) < limit"
  shows "\<exists>plan. planFrom (c # cs) byChain b limit = Ok plan"
proof -
  from assms(1) obtain k ks where t: "taken = k # ks" by (cases taken) (auto simp: leads_to_def)
  have "findStart (ot_TS (b_TBefore b)) (chunks_of byChain c) = Some (taken @ post)"
    using assms(1) unfolding assms(2) findStart_skip [OF assms(3)] by (auto simp: leads_to_def t)
  moreover have "\<exists>r. planLoop b limit False [] 0 0 (taken @ post) = Some (Ok r)"
    using assms(1,4) by (intro planLoop_complete) (auto simp: leads_to_def)
  ultimately show ?thesis by (auto simp: split_beta)
qed

lemma tryBases_complete:
  "b \<in> set bs \<Longrightarrow> planFrom cs byChain b limit = Ok p \<Longrightarrow> \<exists>plan. tryBases cs byChain limit fe bs = Ok plan"
  using tryBases_Err by (cases "tryBases cs byChain limit fe bs") fastforce+

context plan_repository
begin

lemma plan_found:
  assumes "inv db" "Limit target = Ok limit" "b \<in> set bases" "ot_TS (b_TAfter b) < limit"
    "\<not> ts_IsZero (ot_TS (b_TBefore b))"
    and cs: "list_chains (st_ID st) db = cs1 @ c # cs2"
    and first: "\<forall>d \<in> set cs1. findStart (ot_TS (b_TBefore b)) (live_chunks (st_ID st) (cn_ChainID d) db) = None"
    and run: "live_chunks (st_ID st) (cn_ChainID c) db = pre @ taken @ post" "leads_to b limit taken"
      "\<forall>k \<in> set pre. ck_To k < ot_TS (b_TBefore b)"
    and keys: "\<forall>m. h m"
  shows "\<exists>plan. PlanRestore (Some st) (src_of db bases (Some h)) target = Ok plan"
proof -
  let ?src = "src_of db bases (Some h)"
  have lk: "ps_ListChunks ?src (committed_query (st_ID st) (cn_ChainID d)) = Ok (live_chunks (st_ID st) (cn_ChainID d) db)"
    if "d \<in> set (list_chains (st_ID st) db)" for d
    using listed [OF assms(1) that] by (simp add: repo_source_def)
  then obtain byChain newest where l:
    "listChains ?src (st_ID st) (list_chains (st_ID st) db) Map.empty ts_zero = Ok (byChain, newest)"
    using listChains_total [of "list_chains (st_ID st) db" ?src] by fastforce
  have flt: "filter Live (live_chunks sid cid db) = live_chunks sid cid db" for sid cid
    using live by (simp add: filter_id_conv)
  have c: "c \<in> set (list_chains (st_ID st) db)" using cs by simp
  have m: "byChain = live_map list_chains live_chunks db (st_ID st)" by (rule listChains_live_map [OF assms(1) l])
  have co: "chunks_of byChain d = live_chunks (st_ID st) (cn_ChainID d) db" if "d \<in> set (list_chains (st_ID st) db)" for d
    using that by (auto simp: m chunks_of_def live_map_def)
  have ne: "taken \<noteq> []" "limit \<le> ck_To (last taken)" using run(2) by (auto simp: leads_to_def)
  have "last taken \<in> set (live_chunks (st_ID st) (cn_ChainID c) db)" using ne(1) by (simp add: run(1))
  then have "ck_To (last taken) \<le> ck_To (last (live_chunks (st_ID st) (cn_ChainID c) db))"
    by (rule sorted_last_ge [OF conjunct2 [OF ordered [OF assms(1) c]]])
  moreover have "ck_To (last (live_chunks (st_ID st) (cn_ChainID c) db)) \<le> newest"
    using listChains_newest [OF l c lk [OF c]] ne(1) run(1) unfolding flt by auto
  ultimately have new: "limit \<le> newest" using ne(2) by (meson order_trans)
  obtain p where "planFrom (c # cs2) byChain b limit = Ok p"
    using planFrom_complete [OF run(2) _ run(3) assms(4)] co [OF c] run(1) by metis
  then have "planFrom (list_chains (st_ID st) db) byChain b limit = Ok p"
    unfolding cs using first co cs by (subst planFrom_skip) auto
  moreover have b: "b \<in> set (candidates limit bases)" using assms(3-5) by (simp add: candidates_iff)
  ultimately obtain plan where "tryBases (list_chains (st_ID st) db) byChain limit None (candidates limit bases) = Ok plan"
    using tryBases_complete by blast
  moreover have "candidates limit bases \<noteq> []" using b by auto
  moreover have "checkKeys q (Some h) = None" for q using keys by (simp add: checkKeys_def key_missing_def)
  ultimately show ?thesis
    using assms(2) l new by (auto simp: PlanRestore_def Let_def repo_source_def)
qed

end
text \<open>C11: take a base whose consistent point is before the limit and the first chain, in listing order, with a live
  chunk that holds the base's T_before. If from that chunk on the chain's live chunks meet, up to and past the limit,
  have checksums and no verification failure, and agree with the term of T_after, and if every key is configured, then
  \<open>PlanRestore\<close> returns a plan. Only that first chain counts: a later chain that would do is not tried.\<close>

theorem plan_exists:
  assumes "repo_reachable db" "Limit target = Ok limit" "b \<in> set bases" "ot_TS (b_TAfter b) < limit"
    "\<not> ts_IsZero (ot_TS (b_TBefore b))" "ListChains (st_ID st) db = cs1 @ c # cs2"
    "\<forall>d \<in> set cs1. findStart (ot_TS (b_TBefore b)) (live_listing (st_ID st) (cn_ChainID d) db) = None"
    "live_listing (st_ID st) (cn_ChainID c) db = pre @ taken @ post" "leads_to b limit taken"
    "\<forall>k \<in> set pre. ck_To k < ot_TS (b_TBefore b)" "\<forall>m. h m"
  shows "\<exists>plan. PlanRestore (Some st) (sql_source db bases (Some h)) target = Ok plan"
  by (rule sql.plan_found [OF repo_reachable_inv [OF assms(1)] assms(2-11)])

section \<open>A sample plan\<close>

definition sample_base :: "string \<Rightarrow> Timestamp \<Rightarrow> Timestamp \<Rightarrow> Base" where
  "sample_base i before after = \<lparr>b_ID = i, b_TBefore = \<lparr>ot_TS = before, ot_Term = 1\<rparr>,
     b_TAfter = \<lparr>ot_TS = after, ot_Term = 1\<rparr>, b_SizeBytes = 10, b_Encrypted = True,
     b_EncryptionMode = ''keys'', b_StartedAt = 5\<rparr>"

lemma sample_base_simps [simp]:
  "b_TBefore (sample_base i x y) = \<lparr>ot_TS = x, ot_Term = 1\<rparr>" "b_TAfter (sample_base i x y) = \<lparr>ot_TS = y, ot_Term = 1\<rparr>"
  by (simp_all add: sample_base_def)

abbreviation base1 :: Base where "base1 \<equiv> sample_base ''b1'' (Timestamp 120 1) (Timestamp 130 1)"
abbreviation base2 :: Base where "base2 \<equiv> sample_base ''b2'' (Timestamp 50 1) (Timestamp 140 1)"

definition sample_target :: Target where
  "sample_target = \<lparr>tg_At = zero_time, tg_TS = Some (Timestamp 200 1)\<rparr>"

abbreviation sample_db2 :: pitr_db where "sample_db2 \<equiv> sample_db [chunk1, chunk2] (Timestamp 220 1)"

lemma sample_listing: "live_listing ''s'' ''c'' sample_db2 = [chunk1, chunk2]"
  by (simp add: live_listing_def live_rows_def sample_db_def chunk_order_def less_eq_prod_def
      less_Timestamp_def less_eq_Timestamp_def)

lemma sample_leads: "leads_to base1 (Timestamp 200 1) [chunk1, chunk2]"
  by (simp add: leads_to_def chunk_ok_def is_blank_def go_TrimSpace_empty go_space_def holds_TAfter_def term_outside_def sample_base_def
      sample_chunk_def less_Timestamp_def less_eq_Timestamp_def)

lemma sample_Limit: "Limit sample_target = Ok (Timestamp 200 1)"
  by (simp add: Limit_def sample_target_def ts_IsZero_def)

theorem plan_exists_witness:
  "\<exists>plan. PlanRestore (Some sample_stream) (sql_source sample_db2 [base1] (Some (\<lambda>_. True))) sample_target = Ok plan"
  by (rule plan_exists [OF sample_reachable(3) sample_Limit, of base1 _ _ "[]" sample_chain "[]" "[]" "[chunk1, chunk2]" "[]"])
     (auto simp: sample_stream_def sample_ListChains sample_leads sample_listing sample_chain_def
        less_Timestamp_def ts_IsZero_def)

lemma sample_plan:
  obtains plan where
    "PlanRestore (Some sample_stream) (sql_source sample_db2 [base1, base2] (Some (\<lambda>_. True))) sample_target = Ok plan"
proof -
  have "\<exists>plan. PlanRestore (Some sample_stream) (sql_source sample_db2 [base1, base2] (Some (\<lambda>_. True))) sample_target = Ok plan"
    by (rule sql.plan_found [OF repo_reachable_inv [OF sample_reachable(3)] sample_Limit, of base1 _ _ "[]" sample_chain "[]" "[]"
          "[chunk1, chunk2]" "[]"])
       (auto simp: sample_stream_def sample_ListChains sample_leads sample_listing sample_chain_def
          less_Timestamp_def ts_IsZero_def)
  then show ?thesis using that by blast
qed

theorem plan_replays_every_write_witness:
  "\<exists>plan. PlanRestore (Some sample_stream) (sql_source sample_db2 [base1, base2] (Some (\<lambda>_. True))) sample_target = Ok plan
    \<and> rp_Base plan \<in> {base1, base2}
    \<and> (\<forall>ts. ot_TS (b_TBefore (rp_Base plan)) < ts \<and> ts \<le> Timestamp 200 1 \<longrightarrow>
         (\<exists>k \<in> set (rp_Chunks plan). ck_From k < ts \<and> ts \<le> ck_To k))"
proof -
  obtain plan where p:
    "PlanRestore (Some sample_stream) (sql_source sample_db2 [base1, base2] (Some (\<lambda>_. True))) sample_target = Ok plan"
    by (rule sample_plan)
  from plan_replays_every_write [OF sample_reachable(3) p] sample_Limit show ?thesis
    by (intro exI [of _ plan]) (simp add: p)
qed

lemma sample_base2_fails:
  "planFrom (ListChains ''s'' sample_db2) (live_map ListChains live_listing sample_db2 ''s'') base2 (Timestamp 200 1) = Err ErrChainBreak"
  by (simp add: sample_ListChains live_map_def chunks_of_def sample_listing less_eq_Timestamp_def)
    (simp add: sample_chain_def sample_listing less_eq_Timestamp_def)

theorem plan_uses_newest_base_witness:
  "\<exists>e. planFrom (ListChains ''s'' sample_db2) (live_map ListChains live_listing sample_db2 ''s'') base2 (Timestamp 200 1) = Err e"
proof -
  obtain plan where p:
    "PlanRestore (Some sample_stream) (sql_source sample_db2 [base1, base2] (Some (\<lambda>_. True))) sample_target = Ok plan"
    by (rule sample_plan)
  note inv = repo_reachable_inv [OF sample_reachable(3)]
  have st: "st_ID sample_stream = ''s''" by (simp add: sample_stream_def)
  from sql.plan_chosen [OF inv p] obtain limit q where "Limit sample_target = Ok limit"
    "planFrom (ListChains ''s'' sample_db2) (live_map ListChains live_listing sample_db2 ''s'') (rp_Base plan) limit = Ok q"
    unfolding st by blast
  with sample_base2_fails have "rp_Base plan \<noteq> base2" by (auto simp: sample_Limit)
  moreover from sql.plan_chunks [OF inv p] have "rp_Base plan \<in> set [base1, base2]"
    "Limit sample_target = Ok (rp_Limit plan)" by blast+
  ultimately have pl: "rp_Base plan = base1" "rp_Limit plan = Timestamp 200 1" by (simp_all add: sample_Limit)
  from plan_uses_newest_base [OF sample_reachable(3) p, of base2] show ?thesis
    by (simp add: pl st less_Timestamp_def ts_IsZero_def)
qed

section \<open>The first chain decides\<close>




section \<open>Rechecking a plan\<close>

lemma word_minus_1_less: "(w :: 32 word) \<noteq> 0 \<Longrightarrow> w - 1 < w"
  unfolding word_less_nat_alt by (rule measure_unat)

lemma before_position_less: "ts_IsZero (before_position p) \<or> before_position p < p"
proof (cases "ts_I p > 0")
  case True
  then have "ts_I p - 1 < ts_I p" by (simp add: word_gt_0 word_minus_1_less)
  then show ?thesis using True by (simp add: before_position_def less_Timestamp_def)
next
  case False
  show ?thesis
  proof (cases "ts_T p > 0")
    case True
    then have "ts_T p - 1 < ts_T p" by (simp add: word_gt_0 word_minus_1_less)
    then show ?thesis using True False by (simp add: before_position_def less_Timestamp_def)
  qed (use False in \<open>simp add: before_position_def ts_IsZero_def\<close>)
qed

lemma word_less_plus_1: "(w :: 32 word) < - 1 \<Longrightarrow> w < w + 1"
proof -
  assume "w < - 1"
  then have "w + 1 \<noteq> 0" by (metis add_eq_0_iff2 order_less_irrefl)
  from measure_unat [OF this] show ?thesis by (simp add: word_less_nat_alt)
qed

lemma after_position_greater: "ts_IsZero (after_position p) \<or> p < after_position p"
proof (cases "ts_I p < - 1")
  case True
  then show ?thesis by (simp add: after_position_def less_Timestamp_def word_less_plus_1)
next
  case False
  show ?thesis
  proof (cases "ts_T p < - 1")
    case True
    then show ?thesis using False by (simp add: after_position_def less_Timestamp_def word_less_plus_1)
  qed (use False in \<open>simp add: after_position_def ts_IsZero_def\<close>)
qed

lemma meets_bounds:
  assumes "successively meets cks" "\<forall>k \<in> set cks. ck_forward k" "k \<in> set cks"
  shows "ck_From (hd cks) \<le> ck_To k \<and> ck_From k \<le> ck_To (last cks)"
proof -
  have "cks \<noteq> []" using assms(3) by auto
  from run_from_bounds [OF meets_run [OF this assms(1,2)] assms(3)] show ?thesis by auto
qed

lemma meets_sorted:
  "successively meets cks \<Longrightarrow> \<forall>k \<in> set cks. ck_forward k \<Longrightarrow> sorted (map ck_From cks) \<and> sorted (map ck_To cks)"
  by (cases "cks = []") (auto dest: meets_run run_from_sorted_ends)

text \<open>C33: the recheck of a plan before its use is exact. It passes when every chunk of the plan still has a live
  row, and reports a stale plan otherwise: the widened bounds of its query miss no chunk of the plan, the empty
  ones and those at the ends of the timestamp range included.\<close>

theorem plan_recheck_exact:
  assumes "rp_Chunks plan \<noteq> []" "successively meets (rp_Chunks plan)" "\<forall>k \<in> set (rp_Chunks plan). ck_forward k"
    "rp_StreamID plan \<noteq> []" "rp_ChainID plan \<noteq> []"
    "\<forall>k \<in> set (rp_Chunks plan). ck_StreamID k = rp_StreamID plan \<and> ck_ChainID k = rp_ChainID plan"
    "\<forall>k \<in> set (rp_Chunks plan). \<forall>k' \<in> set (db_chunks db). ck_ID k' = ck_ID k \<longrightarrow> ck_core k' = ck_core k"
  shows "CheckPlanLive (sql_source db bases hk) (Some plan) =
    (if \<forall>k \<in> set (rp_Chunks plan). \<exists>k' \<in> set (db_chunks db). ck_ID k' = ck_ID k \<and> Live k'
     then None else Some ErrPlanStale)"
proof -
  let ?q = "\<lparr>cq_StreamID = rp_StreamID plan, cq_ChainID = rp_ChainID plan,
     cq_After = before_position (ck_From (hd (rp_Chunks plan))), cq_Until = after_position (ck_To (last (rp_Chunks plan))),
     cq_Status = Some ChunkCommitted, cq_Live = True\<rparr>"
  let ?live = "filter Live (sort_key chunk_order (filter (chunk_selected ?q) (db_chunks db)))"
  have sel: "chunk_selected ?q k'" if k: "k \<in> set (rp_Chunks plan)" "k' \<in> set (db_chunks db)" "ck_ID k' = ck_ID k" "Live k'" for k k'
  proof -
    have "ck_core k' = ck_core k" using assms(7) k by blast
    then have c: "ck_From k' = ck_From k" "ck_To k' = ck_To k" "ck_StreamID k' = rp_StreamID plan" "ck_ChainID k' = rp_ChainID plan"
      using assms(6) k(1) by (auto simp: ck_core_def)
    note b = meets_bounds [OF assms(2,3) k(1)]
    have "ts_IsZero (cq_After ?q) \<or> cq_After ?q < ck_To k'"
      using before_position_less [of "ck_From (hd (rp_Chunks plan))"] b c(2) by (auto intro: less_le_trans)
    moreover have "ts_IsZero (cq_Until ?q) \<or> ck_From k' < cq_Until ?q"
      using after_position_greater [of "ck_To (last (rp_Chunks plan))"] b c(1) by (auto intro: le_less_trans)
    ultimately show ?thesis using c k(4) by (simp add: chunk_selected_def Live_def)
  qed
  have "ck_ID k \<in> set (map ck_ID ?live) \<longleftrightarrow> (\<exists>k' \<in> set (db_chunks db). ck_ID k' = ck_ID k \<and> Live k')"
    if "k \<in> set (rp_Chunks plan)" for k
    using sel [OF that] by (auto simp: image_iff)
  then show ?thesis
    using assms(1,4,5) by (auto simp: CheckPlanLive_def repo_source_def ListChunks_def Let_def)
qed

theorem plan_recheck_exact_witness:
  "CheckPlanLive (sql_source sample_db2 [] None)
     (Some \<lparr>rp_StreamID = ''s'', rp_ChainID = ''c'', rp_Base = base1, rp_Chunks = [chunk1, chunk2], rp_ChunkCount = 2,
        rp_OplogBytes = 200, rp_UnverifiedChunks = 2, rp_Limit = Timestamp 200 1, rp_TargetTime = 0\<rparr>) = None"
  by (subst plan_recheck_exact) (auto simp: sample_db_def less_eq_Timestamp_def)

end
