(* ===== verification/Models_Backup.thy ===== *)
theory Models_Backup
  imports Pitr_Types
begin

text \<open>
  Backup records and their copies, \<open>src/internal/models/backup.go\<close> and \<open>src/internal/models/copy.go\<close>.
  The record holds the fields the modelled functions read or write; the display fields of the source
  (names, labels, phases, progress, manifest summaries) are left out. Messages keep the constants of the source.
\<close>

section \<open>Data\<close>

datatype BackupStatus = StatusNone | StatusPending | StatusInProgress | StatusCompleted | StatusFailed | StatusPruned
  | StatusCancelled | StatusSkipped | StatusMissing | StatusDeleted | StatusPurged

definition status_Deleted :: "BackupStatus \<Rightarrow> bool" where
  "status_Deleted st \<longleftrightarrow> st = StatusDeleted \<or> st = StatusPurged"

datatype BackupTrigger = TriggerNone | TriggerScheduled | TriggerOnDemand | TriggerManual | TriggerMCP

datatype BackupScope = ScopeDatabase | ScopeInstance

datatype CopyMode = CopyModeEmpty | CopyAsync | CopySync

datatype CopyStatus = CopyPending | CopyDone | CopyFailed | CopyPurged

datatype VerificationStatus = VerificationNone | VerificationOK | VerificationMismatch | VerificationErrored

record StorageObject =
  so_Key :: string
  so_VersionID :: string
  so_RetainUntil :: "go_time option"
  so_ObjectLockMode :: string

record BackupCopy =
  bc_TargetID :: string
  bc_TargetName :: string
  bc_StorageKey :: string
  bc_Status :: CopyStatus
  bc_SHA256OK :: bool
  bc_SHA256 :: string
  bc_VersionID :: string
  bc_ObjectLockMode :: string
  bc_RetainUntil :: "go_time option"
  bc_Error :: string
  bc_Written :: bool
  bc_CopiedAt :: "go_time option"
  bc_Attempts :: int
  bc_NextAttemptAt :: "go_time option"
  bc_VerifiedAt :: "go_time option"
  bc_Verification :: VerificationStatus
  bc_VerificationError :: string
  bc_PurgedAt :: "go_time option"

record BackupRecord =
  br_ID :: string
  br_JobID :: string
  br_Trigger :: BackupTrigger
  br_Database :: string
  br_Status :: BackupStatus
  br_StorageTargetID :: string
  br_StorageTargetName :: string
  br_StorageKey :: string
  br_SizeBytes :: int
  br_SHA256 :: string
  br_Encrypted :: bool
  br_EncryptionMode :: string
  br_StartedAt :: go_time
  br_CompletedAt :: "go_time option"
  br_ErrorMessage :: string
  br_VerifiedAt :: "go_time option"
  br_Verification :: VerificationStatus
  br_VerificationError :: string
  br_Pinned :: bool
  br_StorageVersionID :: string
  br_ObjectLockMode :: string
  br_RetainUntil :: "go_time option"
  br_ArchiveCleanupPending :: bool
  br_MissingSince :: "go_time option"
  br_DeletedAt :: "go_time option"
  br_DeletedBy :: string
  br_DeleteApprovedBy :: string
  br_DeleteReason :: string
  br_PurgeAfter :: "go_time option"
  br_StatusBeforeDelete :: BackupStatus
  br_PurgedAt :: "go_time option"
  br_Scope :: BackupScope
  br_TBefore :: "OpTime option"
  br_TAfter :: "OpTime option"
  br_Copies :: "BackupCopy list"
  br_CopyMode :: CopyMode

section \<open>Deletion, undeletion and purge\<close>

record SoftDelete =
  sd_At :: go_time
  sd_PurgeAfter :: go_time
  sd_By :: string
  sd_ApprovedBy :: string
  sd_Reason :: string

definition MarkDeleted :: "SoftDelete \<Rightarrow> BackupRecord \<Rightarrow> BackupRecord" where
  "MarkDeleted d r = r\<lparr>br_StatusBeforeDelete := br_Status r, br_Status := StatusDeleted,
     br_DeletedAt := Some (sd_At d), br_PurgeAfter := Some (sd_PurgeAfter d), br_DeletedBy := sd_By d,
     br_DeleteApprovedBy := sd_ApprovedBy d, br_DeleteReason := sd_Reason d, br_PurgedAt := None\<rparr>"

definition Undelete :: "BackupRecord \<Rightarrow> BackupRecord" where
  "Undelete r =
     (let prev = (if br_StatusBeforeDelete r = StatusNone \<or> status_Deleted (br_StatusBeforeDelete r)
                  then StatusCompleted else br_StatusBeforeDelete r) in
      r\<lparr>br_Status := prev, br_StatusBeforeDelete := StatusNone, br_DeletedAt := None, br_PurgeAfter := None,
        br_PurgedAt := None, br_DeletedBy := [], br_DeleteApprovedBy := [], br_DeleteReason := []\<rparr>)"

definition copy_LockedAt :: "go_time \<Rightarrow> BackupCopy \<Rightarrow> bool" where
  "copy_LockedAt now c \<longleftrightarrow> bc_Status c \<noteq> CopyPurged
     \<and> (case bc_RetainUntil c of None \<Rightarrow> False | Some u \<Rightarrow> now < u)"

definition LockedAt :: "go_time \<Rightarrow> BackupRecord \<Rightarrow> bool" where
  "LockedAt now r \<longleftrightarrow> (case br_RetainUntil r of None \<Rightarrow> False | Some u \<Rightarrow> now < u)
     \<or> (\<exists>c \<in> set (br_Copies r). copy_LockedAt now c)"

definition PurgeDue :: "go_time \<Rightarrow> duration \<Rightarrow> BackupRecord \<Rightarrow> bool" where
  "PurgeDue now grace r =
     (case (br_DeletedAt r, br_PurgeAfter r) of
        (Some deletedAt, Some purgeAfter) \<Rightarrow>
          if br_Status r \<noteq> StatusDeleted \<or> br_Pinned r \<or> LockedAt now r then False
          else let end' = (if deletedAt + grace > purgeAfter then deletedAt + grace else purgeAfter)
               in \<not> now < end'
      | _ \<Rightarrow> False)"

definition SetStorageObject :: "StorageObject option \<Rightarrow> BackupRecord \<Rightarrow> BackupRecord" where
  "SetStorageObject obj r =
     (case obj of
        None \<Rightarrow> r
      | Some ob \<Rightarrow>
          let r' = r\<lparr>br_StorageVersionID := so_VersionID ob\<rparr> in
          (case so_RetainUntil ob of
             None \<Rightarrow> r'
           | Some u \<Rightarrow> r'\<lparr>br_RetainUntil := Some u, br_ObjectLockMode := so_ObjectLockMode ob\<rparr>))"

definition InstanceScope :: "BackupRecord \<Rightarrow> bool" where
  "InstanceScope r \<longleftrightarrow> br_Scope r = ScopeInstance"

definition EffectiveTrigger :: "BackupRecord \<Rightarrow> BackupTrigger" where
  "EffectiveTrigger r = (if br_Trigger r \<noteq> TriggerNone then br_Trigger r
     else if br_JobID r \<noteq> [] then TriggerScheduled else TriggerManual)"

section \<open>Copies\<close>

definition Healthy :: "BackupCopy \<Rightarrow> bool" where
  "Healthy c \<longleftrightarrow> bc_Status c = CopyDone \<and> bc_Verification c \<noteq> VerificationMismatch"

definition MayExist :: "BackupCopy \<Rightarrow> bool" where
  "MayExist c = (case bc_Status c of
     CopyDone \<Rightarrow> True | CopyPending \<Rightarrow> True | CopyPurged \<Rightarrow> False
   | CopyFailed \<Rightarrow> bc_RetainUntil c \<noteq> None \<or> bc_Written c)"

definition copy_SetStorageObject :: "StorageObject option \<Rightarrow> BackupCopy \<Rightarrow> BackupCopy" where
  "copy_SetStorageObject obj c =
     (case obj of
        None \<Rightarrow> c
      | Some ob \<Rightarrow>
          let c' = c\<lparr>bc_VersionID := so_VersionID ob\<rparr> in
          (case so_RetainUntil ob of
             None \<Rightarrow> c'
           | Some u \<Rightarrow> c'\<lparr>bc_RetainUntil := Some u, bc_ObjectLockMode := so_ObjectLockMode ob\<rparr>))"

definition RecordFailure :: "string \<Rightarrow> StorageObject option \<Rightarrow> BackupCopy \<Rightarrow> BackupCopy" where
  "RecordFailure msg obj c =
     (let c' = c\<lparr>bc_Status := CopyFailed, bc_SHA256OK := False, bc_Error := msg\<rparr> in
      if obj \<noteq> None then copy_SetStorageObject obj (c'\<lparr>bc_Written := True\<rparr>) else c')"

definition AtCopy :: "BackupCopy \<Rightarrow> BackupRecord \<Rightarrow> BackupRecord" where
  "AtCopy c r =
     (let v = r\<lparr>br_StorageTargetID := bc_TargetID c, br_StorageTargetName := bc_TargetName c,
                br_StorageKey := bc_StorageKey c, br_StorageVersionID := bc_VersionID c,
                br_RetainUntil := bc_RetainUntil c, br_ObjectLockMode := bc_ObjectLockMode c,
                br_VerifiedAt := bc_VerifiedAt c, br_Verification := bc_Verification c,
                br_VerificationError := bc_VerificationError c\<rparr> in
      if br_Status v = StatusMissing then v\<lparr>br_Status := StatusCompleted, br_MissingSince := None\<rparr> else v)"

text \<open>\<open>strings.EqualFold\<close> on ASCII.\<close>

definition to_lower :: "char \<Rightarrow> char" where
  "to_lower c = (let n = (of_char c :: nat) in if 65 \<le> n \<and> n \<le> 90 then char_of (n + 32) else c)"

definition EqualFold :: "string \<Rightarrow> string \<Rightarrow> bool" where
  "EqualFold s t \<longleftrightarrow> map to_lower s = map to_lower t"

definition CopyUsable :: "BackupRecord \<Rightarrow> BackupCopy option \<Rightarrow> bool" where
  "CopyUsable r c = (case c of None \<Rightarrow> False
     | Some c \<Rightarrow> Healthy c \<and> br_SHA256 r \<noteq> [] \<and> EqualFold (bc_SHA256 c) (br_SHA256 r))"

definition fresh_copy :: "string \<Rightarrow> string \<Rightarrow> string \<Rightarrow> BackupCopy" where
  "fresh_copy target name key = \<lparr>bc_TargetID = target, bc_TargetName = name, bc_StorageKey = key,
     bc_Status = CopyPending, bc_SHA256OK = False, bc_SHA256 = [], bc_VersionID = [], bc_ObjectLockMode = [],
     bc_RetainUntil = None, bc_Error = [], bc_Written = False, bc_CopiedAt = None, bc_Attempts = 0,
     bc_NextAttemptAt = None, bc_VerifiedAt = None, bc_Verification = VerificationNone,
     bc_VerificationError = [], bc_PurgedAt = None\<rparr>"

definition RequeueCopies :: "string \<Rightarrow> BackupRecord \<Rightarrow> BackupRecord" where
  "RequeueCopies key r = r\<lparr>br_Copies := map (\<lambda>c. if bc_Status c = CopyPurged then c
     else fresh_copy (bc_TargetID c) (bc_TargetName c) key) (br_Copies r)\<rparr>"

definition ErrNotCopied :: string where
  "ErrNotCopied = ''not copied: the backup did not complete''"

definition AbandonCopies :: "BackupRecord \<Rightarrow> BackupRecord" where
  "AbandonCopies r = r\<lparr>
     br_Copies := map (\<lambda>c. if bc_Status c = CopyPending
       then c\<lparr>bc_Status := CopyFailed, bc_Error := ErrNotCopied, bc_NextAttemptAt := None\<rparr> else c) (br_Copies r),
     br_ArchiveCleanupPending := br_ArchiveCleanupPending r
       \<or> (\<exists>c \<in> set (br_Copies r). bc_Status c \<noteq> CopyPending \<and> MayExist c)\<rparr>"

definition RetryCopies :: "BackupRecord \<Rightarrow> BackupRecord \<times> bool" where
  "RetryCopies r = (r\<lparr>br_Copies := map (\<lambda>c. if bc_Status c = CopyFailed
       then c\<lparr>bc_Status := CopyPending, bc_Attempts := 0, bc_NextAttemptAt := None\<rparr> else c) (br_Copies r)\<rparr>,
     \<exists>c \<in> set (br_Copies r). bc_Status c = CopyFailed)"

definition Exhausted :: "BackupCopy \<Rightarrow> bool" where
  "Exhausted c \<longleftrightarrow> bc_Status c = CopyFailed \<and> bc_NextAttemptAt c = None"

definition MaxCopyTargets :: nat where "MaxCopyTargets = 3"

datatype copy_error = ErrCopyTargetEmpty | ErrCopyTargetPrimary | ErrTooManyCopyTargets

fun normalizeLoop :: "string \<Rightarrow> string list \<Rightarrow> string list \<Rightarrow> copy_error + string list" where
  "normalizeLoop primary out [] = Ok out"
| "normalizeLoop primary out (i # ids) =
     (let t = go_TrimSpace i in
      if t = [] then Err ErrCopyTargetEmpty
      else if primary \<noteq> [] \<and> t = primary then Err ErrCopyTargetPrimary
      else if t \<in> set out then normalizeLoop primary out ids
      else normalizeLoop primary (out @ [t]) ids)"

definition NormalizeCopyTargets :: "string list \<Rightarrow> string \<Rightarrow> copy_error + string list" where
  "NormalizeCopyTargets ids primary =
     (if ids = [] then Ok []
      else case normalizeLoop primary [] ids of
        Inl e \<Rightarrow> Err e
      | Inr out \<Rightarrow> if length out > MaxCopyTargets then Err ErrTooManyCopyTargets else Ok out)"

definition PlanCopies :: "(string \<times> string) list \<Rightarrow> CopyMode \<Rightarrow> BackupRecord \<Rightarrow> BackupRecord" where
  "PlanCopies copies mode r =
     (if copies = [] then r
      else r\<lparr>br_CopyMode := (if mode = CopyModeEmpty then CopyAsync else mode),
             br_Copies := map (\<lambda>(t, name). fresh_copy t name (br_StorageKey r)) copies\<rparr>)"

definition Copy :: "string \<Rightarrow> BackupRecord \<Rightarrow> BackupCopy option" where
  "Copy target r = find (\<lambda>c. bc_TargetID c = target) (br_Copies r)"

definition DoneCopies :: "BackupRecord \<Rightarrow> nat" where
  "DoneCopies r = length (filter (\<lambda>c. bc_Status c = CopyDone) (br_Copies r))"

definition CopiesComplete :: "BackupRecord \<Rightarrow> bool" where
  "CopiesComplete r \<longleftrightarrow> DoneCopies r = length (br_Copies r)"

definition HoldsTarget :: "string \<Rightarrow> BackupRecord \<Rightarrow> bool" where
  "HoldsTarget target r \<longleftrightarrow> br_StorageTargetID r = target
     \<or> (\<exists>c \<in> set (br_Copies r). bc_TargetID c = target \<and> MayExist c)"

section \<open>Records that could not be saved\<close>

definition ErrRecordNotSaved :: string where
  "ErrRecordNotSaved = ''the backup record could not be saved''"

definition ArchiveKeptNote :: string where
  "ArchiveKeptNote = ''; the archive was kept''"

definition has_prefix :: "string \<Rightarrow> string \<Rightarrow> bool" where
  "has_prefix s p \<longleftrightarrow> take (length p) s = p"

definition FailUnsaved :: "string \<Rightarrow> go_time \<Rightarrow> BackupRecord \<Rightarrow> BackupRecord" where
  "FailUnsaved cause now r =
     (let kept = (br_Status r = StatusCompleted \<and> br_StorageKey r \<noteq> []);
          msg = ErrRecordNotSaved @ (if cause \<noteq> [] then '' (data disk full: '' @ cause @ '')'' else [])
                @ (if kept then ArchiveKeptNote else [])
                @ (if br_ErrorMessage r \<noteq> [] then ''; the run itself ended with: '' @ br_ErrorMessage r else []);
          r1 = (if has_prefix (br_ErrorMessage r) ErrRecordNotSaved then r else r\<lparr>br_ErrorMessage := msg\<rparr>);
          r2 = (if br_Status r1 \<noteq> StatusCancelled then r1\<lparr>br_Status := StatusFailed\<rparr> else r1);
          r3 = (if br_CompletedAt r2 = None then r2\<lparr>br_CompletedAt := Some now\<rparr> else r2) in
      if kept then (AbandonCopies r3)\<lparr>br_ArchiveCleanupPending := br_ArchiveCleanupPending r3\<rparr>
      else AbandonCopies r3)"

section \<open>Properties\<close>

definition no_deletion :: "BackupRecord \<Rightarrow> bool" where
  "no_deletion r \<longleftrightarrow> br_Status r \<noteq> StatusNone \<and> \<not> status_Deleted (br_Status r) \<and> br_StatusBeforeDelete r = StatusNone
     \<and> br_DeletedAt r = None \<and> br_PurgeAfter r = None \<and> br_PurgedAt r = None \<and> br_DeletedBy r = []
     \<and> br_DeleteApprovedBy r = [] \<and> br_DeleteReason r = []"

text \<open>C27: undeleting a backup brings back exactly the record that was deleted, whatever the deletion recorded.\<close>

theorem undelete_roundtrip:
  assumes "no_deletion r"
  shows "Undelete (MarkDeleted d r) = r"
  using assms by (cases r) (simp add: no_deletion_def Undelete_def MarkDeleted_def status_Deleted_def)

definition sample_record :: BackupRecord where
  "sample_record = \<lparr>br_ID = ''b'', br_JobID = ''j'', br_Trigger = TriggerScheduled, br_Database = ''db'',
     br_Status = StatusCompleted, br_StorageTargetID = ''t'', br_StorageTargetName = [], br_StorageKey = ''k'',
     br_SizeBytes = 1, br_SHA256 = ''ab'', br_Encrypted = False, br_EncryptionMode = [], br_StartedAt = 0, br_CompletedAt = None, br_ErrorMessage = [],
     br_VerifiedAt = None, br_Verification = VerificationNone, br_VerificationError = [], br_Pinned = False,
     br_StorageVersionID = [], br_ObjectLockMode = [], br_RetainUntil = None, br_ArchiveCleanupPending = False,
     br_MissingSince = None, br_DeletedAt = None, br_DeletedBy = [], br_DeleteApprovedBy = [], br_DeleteReason = [],
     br_PurgeAfter = None, br_StatusBeforeDelete = StatusNone, br_PurgedAt = None, br_Scope = ScopeDatabase,
     br_TBefore = None, br_TAfter = None, br_Copies = [], br_CopyMode = CopyModeEmpty\<rparr>"

theorem undelete_roundtrip_witness:
  "Undelete (MarkDeleted \<lparr>sd_At = 5, sd_PurgeAfter = 9, sd_By = ''a'', sd_ApprovedBy = [], sd_Reason = ''x''\<rparr> sample_record)
    = sample_record"
  by (rule undelete_roundtrip) (simp add: no_deletion_def sample_record_def status_Deleted_def)

lemma AbandonCopies_fields [simp]:
  "br_Status (AbandonCopies r) = br_Status r" "br_CompletedAt (AbandonCopies r) = br_CompletedAt r"
  "br_ErrorMessage (AbandonCopies r) = br_ErrorMessage r" "br_StorageKey (AbandonCopies r) = br_StorageKey r"
  by (simp_all add: AbandonCopies_def)

lemma AbandonCopies_settled: "c \<in> set (br_Copies (AbandonCopies r)) \<Longrightarrow> bc_Status c \<noteq> CopyPending"
  by (auto simp: AbandonCopies_def)

lemma FailUnsaved_copies: "br_Copies (FailUnsaved cause now r) = br_Copies (AbandonCopies r)"
  by (simp add: FailUnsaved_def Let_def AbandonCopies_def)

lemma FailUnsaved_fields:
  "br_Status (FailUnsaved cause now r) = (if br_Status r = StatusCancelled then StatusCancelled else StatusFailed)"
  "br_CompletedAt (FailUnsaved cause now r) = Some (case br_CompletedAt r of None \<Rightarrow> now | Some t \<Rightarrow> t)"
  "br_StorageKey (FailUnsaved cause now r) = br_StorageKey r"
  by (simp_all add: FailUnsaved_def Let_def split: option.splits)

lemma FailUnsaved_cleanup:
  "br_ArchiveCleanupPending (FailUnsaved cause now r) = (br_ArchiveCleanupPending r
     \<or> \<not> (br_Status r = StatusCompleted \<and> br_StorageKey r \<noteq> [])
       \<and> (\<exists>c \<in> set (br_Copies r). bc_Status c \<noteq> CopyPending \<and> MayExist c))"
  by (simp add: FailUnsaved_def Let_def AbandonCopies_def)

text \<open>C34: a backup whose record could not be saved never counts as a success: it ends failed, or stays cancelled,
  with an end time, the reason at the start of its error and no pending copy. The archive of a completed backup
  is not handed to the cleanup: the cleanup flag is unchanged; otherwise a copy that may exist is handed to it.\<close>

theorem fail_unsaved_never_succeeds:
  "br_Status (FailUnsaved cause now r) = (if br_Status r = StatusCancelled then StatusCancelled else StatusFailed)
   \<and> br_CompletedAt (FailUnsaved cause now r) \<noteq> None
   \<and> has_prefix (br_ErrorMessage (FailUnsaved cause now r)) ErrRecordNotSaved
   \<and> (\<forall>c \<in> set (br_Copies (FailUnsaved cause now r)). bc_Status c \<noteq> CopyPending)
   \<and> br_StorageKey (FailUnsaved cause now r) = br_StorageKey r
   \<and> (if br_Status r = StatusCompleted \<and> br_StorageKey r \<noteq> []
      then br_ArchiveCleanupPending (FailUnsaved cause now r) = br_ArchiveCleanupPending r
      else (\<exists>c \<in> set (br_Copies r). bc_Status c \<noteq> CopyPending \<and> MayExist c) \<longrightarrow>
        br_ArchiveCleanupPending (FailUnsaved cause now r))"
proof -
  have "\<forall>c \<in> set (br_Copies (FailUnsaved cause now r)). bc_Status c \<noteq> CopyPending"
    using AbandonCopies_settled by (simp add: FailUnsaved_copies)
  moreover have "has_prefix (br_ErrorMessage (FailUnsaved cause now r)) ErrRecordNotSaved"
    by (simp add: FailUnsaved_def Let_def has_prefix_def)
  ultimately show ?thesis
    by (simp add: FailUnsaved_fields FailUnsaved_cleanup)
qed

theorem fail_unsaved_never_succeeds_witness:
  "br_Status (FailUnsaved [] 3 sample_record) = StatusFailed \<and> \<not> br_ArchiveCleanupPending (FailUnsaved [] 3 sample_record)"
proof -
  have "br_Status sample_record = StatusCompleted" "br_StorageKey sample_record \<noteq> []" "\<not> br_ArchiveCleanupPending sample_record"
    by (simp_all add: sample_record_def)
  then show ?thesis using fail_unsaved_never_succeeds [of "[]" 3 sample_record] by simp
qed

lemma normalizeLoop_Ok:
  assumes "normalizeLoop primary out ids = Ok res" "distinct out" "\<forall>t \<in> set out. t \<noteq> [] \<and> (primary \<noteq> [] \<longrightarrow> t \<noteq> primary)"
  shows "distinct res \<and> (\<forall>t \<in> set res. t \<noteq> [] \<and> (primary \<noteq> [] \<longrightarrow> t \<noteq> primary)) \<and> set res = set out \<union> go_TrimSpace ` set ids"
  using assms
proof (induction ids arbitrary: out)
  case (Cons i ids)
  let ?t = "go_TrimSpace i"
  from Cons.prems(1) have t: "?t \<noteq> []" "primary \<noteq> [] \<longrightarrow> ?t \<noteq> primary"
    and l: "normalizeLoop primary (if ?t \<in> set out then out else out @ [?t]) ids = Ok res"
    by (auto simp: Let_def split: if_splits)
  show ?case
  proof (cases "?t \<in> set out")
    case True
    with Cons.IH [of out] Cons.prems l show ?thesis by auto
  next
    case False
    with Cons.IH [of "out @ [?t]"] Cons.prems l t show ?thesis by simp
  qed
qed simp

text \<open>C36: accepted copy targets are at most three distinct, non-empty target IDs, none the primary target, and exactly
  the trimmed IDs of the request.\<close>

theorem copy_targets_normalized:
  assumes "NormalizeCopyTargets ids primary = Ok out"
  shows "distinct out \<and> length out \<le> 3 \<and> set out = go_TrimSpace ` set ids
    \<and> (\<forall>t \<in> set out. t \<noteq> [] \<and> (primary \<noteq> [] \<longrightarrow> t \<noteq> primary))"
  using assms normalizeLoop_Ok [of primary "[]" ids]
  by (auto simp: NormalizeCopyTargets_def MaxCopyTargets_def split: if_splits sum.splits)

theorem copy_targets_normalized_witness:
  "NormalizeCopyTargets ['' a'', ''b '', ''a''] ''p'' = Ok [''a'', ''b''] \<and> distinct [''a'', ''b'']"
proof -
  have e: "NormalizeCopyTargets ['' a'', ''b '', ''a''] ''p'' = Ok [''a'', ''b'']"
    by (simp add: NormalizeCopyTargets_def MaxCopyTargets_def go_TrimSpace_def go_space_def)
  from copy_targets_normalized [OF e] e show ?thesis by blast
qed

end
