(* ===== verification/Pitr_Segments.thy ===== *)
theory Pitr_Segments
  imports Models_Backup Pitr_Plan_Complete
begin

text \<open>
  Usable segments and point-in-time windows, \<open>src/internal/pitr/collector/segments.go\<close> and
  \<open>src/internal/pitr/collector/status.go\<close>: the runs of live chunks that did not fail verification, the bases they
  cover, and the windows the dashboard offers.
\<close>

section \<open>Segments\<close>

record Segment =
  sg_From :: Timestamp
  sg_To :: Timestamp
  sg_Chunks :: int
  sg_chunks :: "Chunk list"

definition seg_flush :: "Segment option \<Rightarrow> Segment list \<Rightarrow> Segment list" where
  "seg_flush cur out = (case cur of None \<Rightarrow> out | Some s \<Rightarrow> out @ [s])"

definition seg_extend :: "Segment option \<Rightarrow> Chunk \<Rightarrow> Segment" where
  "seg_extend cur c =
     (let s = (case cur of None \<Rightarrow> \<lparr>sg_From = ck_From c, sg_To = ts_zero, sg_Chunks = 0, sg_chunks = []\<rparr> | Some s \<Rightarrow> s) in
      s\<lparr>sg_To := ck_To c, sg_Chunks := sg_Chunks s + 1, sg_chunks := sg_chunks s @ [c]\<rparr>)"

fun segLoop :: "Segment option \<Rightarrow> Segment list \<Rightarrow> nat \<Rightarrow> Chunk list \<Rightarrow> Segment list \<times> nat" where
  "segLoop cur out corrupt [] = (seg_flush cur out, corrupt)"
| "segLoop cur out corrupt (c # cs) =
     (if \<not> Live c then segLoop cur out corrupt cs
      else if ck_VerifyError c \<noteq> [] then segLoop None (seg_flush cur out) (corrupt + 1) cs
      else if (case cur of None \<Rightarrow> False | Some s \<Rightarrow> ck_From c \<noteq> sg_To s)
      then segLoop (Some (seg_extend None c)) (seg_flush cur out) corrupt cs
      else segLoop (Some (seg_extend cur c)) out corrupt cs)"

definition segments :: "Chunk list \<Rightarrow> Segment list \<times> nat" where
  "segments chunks = segLoop None [] 0 chunks"

text \<open>The flag is true for the first chunk of the segment only.\<close>

fun termLoop :: "bool \<Rightarrow> Timestamp \<Rightarrow> Chunk list \<Rightarrow> (int \<times> int) option" where
  "termLoop first ts [] = None"
| "termLoop first ts (c # cs) =
     (if (Compare (ck_From c) ts < 0 \<or> ck_From c = ts \<and> first) \<and> Compare (ck_To c) ts \<ge> 0
      then Some (ck_FirstTerm c, ck_LastTerm c) else termLoop False ts cs)"

definition termAt :: "Segment \<Rightarrow> Timestamp \<Rightarrow> (int \<times> int) option" where
  "termAt seg ts = termLoop True ts (sg_chunks seg)"

definition covers :: "BackupRecord \<Rightarrow> Segment \<Rightarrow> bool" where
  "covers b seg =
     (case (br_TBefore b, br_TAfter b) of
        (Some tb, Some ta) \<Rightarrow>
          if Compare (sg_From seg) (ot_TS tb) > 0 \<or> Compare (sg_To seg) (ot_TS ta) < 0 then False
          else (case termAt seg (ot_TS ta) of
                  None \<Rightarrow> False
                | Some (firstTerm, lastTerm) \<Rightarrow> ot_Term ta = 0 \<or> (firstTerm \<le> ot_Term ta \<and> ot_Term ta \<le> lastTerm))
      | _ \<Rightarrow> False)"

definition coveringSegment :: "Segment list \<Rightarrow> BackupRecord \<Rightarrow> Segment option" where
  "coveringSegment segs b = find (covers b) segs"

definition eligibleBase :: "BackupRecord \<Rightarrow> bool" where
  "eligibleBase b \<longleftrightarrow> br_Status b = StatusCompleted \<and> InstanceScope b \<and> br_TBefore b \<noteq> None \<and> br_TAfter b \<noteq> None"

section \<open>Windows\<close>

record Window =
  w_ChainID :: string
  w_Open :: bool
  w_Start :: Timestamp
  w_End :: Timestamp
  w_StartTime :: go_time
  w_EndTime :: go_time
  w_Bases :: nat

record ChainStatus =
  cs_Chain :: Chain
  cs_Span :: ChainSpan
  cs_Segments :: "Segment list"
  cs_Corrupt :: nat
  cs_lastTo :: Timestamp

record BaseStatus =
  bs_ID :: string
  bs_Status :: BackupStatus
  bs_StartedAt :: go_time
  bs_SizeBytes :: int
  bs_TBefore :: "OpTime option"
  bs_TAfter :: "OpTime option"
  bs_Pinned :: bool
  bs_ChainID :: string
  bs_Eligible :: bool
  bs_segmentTo :: Timestamp

definition chainStatus :: "(string \<Rightarrow> Chunk list) \<Rightarrow> (string \<Rightarrow> ChainSpan) \<Rightarrow> Chain \<Rightarrow> ChainStatus" where
  "chainStatus listing spans c =
     (let chunks = listing (cn_ChainID c); (segs, corrupt) = segments chunks in
      \<lparr>cs_Chain = c, cs_Span = spans (cn_ChainID c), cs_Segments = segs, cs_Corrupt = corrupt,
       cs_lastTo = (if chunks = [] then ts_zero else ck_To (last chunks))\<rparr>)"

fun coveringChain :: "ChainStatus list \<Rightarrow> BackupRecord \<Rightarrow> (string \<times> Segment) option" where
  "coveringChain [] b = None"
| "coveringChain (c # cs) b =
     (case coveringSegment (cs_Segments c) b of
        Some seg \<Rightarrow> Some (cn_ChainID (cs_Chain c), seg)
      | None \<Rightarrow> coveringChain cs b)"

definition baseStatus :: "ChainStatus list \<Rightarrow> BackupRecord \<Rightarrow> BaseStatus" where
  "baseStatus chns b =
     (let bs = \<lparr>bs_ID = br_ID b, bs_Status = br_Status b, bs_StartedAt = br_StartedAt b, bs_SizeBytes = br_SizeBytes b,
                bs_TBefore = br_TBefore b, bs_TAfter = br_TAfter b, bs_Pinned = br_Pinned b,
                bs_ChainID = [], bs_Eligible = False, bs_segmentTo = ts_zero\<rparr> in
      case coveringChain chns b of
        None \<Rightarrow> bs
      | Some (cid, seg) \<Rightarrow> bs\<lparr>bs_ChainID := cid, bs_Eligible := eligibleBase b, bs_segmentTo := sg_To seg\<rparr>)"

definition baseStatuses :: "ChainStatus list \<Rightarrow> BackupRecord list \<Rightarrow> BaseStatus list" where
  "baseStatuses chns bases = map (baseStatus chns) (filter (\<lambda>b. \<not> status_Deleted (br_Status b)) bases)"

text \<open>The bases of one window: eligible, on the chain, in the segment.\<close>

definition window_bases :: "ChainStatus \<Rightarrow> Segment \<Rightarrow> BaseStatus list \<Rightarrow> BaseStatus list" where
  "window_bases c seg bases = filter (\<lambda>b. bs_ChainID b = cn_ChainID (cs_Chain c) \<and> bs_Eligible b
     \<and> bs_segmentTo b = sg_To seg) bases"

definition base_point :: "BaseStatus \<Rightarrow> Timestamp" where
  "base_point b = (case bs_TAfter b of None \<Rightarrow> ts_zero | Some ta \<Rightarrow> ot_TS ta)"

fun windowStart :: "Timestamp \<Rightarrow> nat \<Rightarrow> BaseStatus list \<Rightarrow> Timestamp \<times> nat" where
  "windowStart start n [] = (start, n)"
| "windowStart start n (b # bs) =
     windowStart (if n = 0 \<or> Compare (base_point b) start < 0 then base_point b else start) (n + 1) bs"

definition window_of :: "BaseStatus list \<Rightarrow> ChainStatus \<Rightarrow> Segment \<Rightarrow> Window list" where
  "window_of bases c seg =
     (let (start, n) = windowStart ts_zero 0 (window_bases c seg bases) in
      if n = 0 then []
      else [\<lparr>w_ChainID = cn_ChainID (cs_Chain c), w_Open = (chain_Open (cs_Chain c) \<and> sg_To seg = cs_lastTo c),
             w_Start = start, w_End = sg_To seg, w_StartTime = ts_Time start, w_EndTime = ts_Time (sg_To seg),
             w_Bases = n\<rparr>])"

definition windows :: "ChainStatus list \<Rightarrow> BaseStatus list \<Rightarrow> Window list" where
  "windows chns bases = concat (map (\<lambda>c. concat (map (window_of bases c) (cs_Segments c))) chns)"

definition pitr_window_list :: "string \<Rightarrow> BackupRecord list \<Rightarrow> pitr_db \<Rightarrow> Window list" where
  "pitr_window_list sid bases db =
     (let spans = (\<lambda>cid. case find (\<lambda>sp. sp_ChainID sp = cid) (rev (ChainSpans sid db)) of
                     None \<Rightarrow> \<lparr>sp_ChainID = [], sp_From = ts_zero, sp_To = ts_zero, sp_Chunks = 0, sp_SizeBytes = 0\<rparr>
                   | Some sp \<Rightarrow> sp);
          chns = map (chainStatus (\<lambda>cid. live_listing sid cid db) spans) (ListChains sid db)
      in windows chns (baseStatuses chns bases))"

section \<open>The bases a restore may start from\<close>

text \<open>\<open>src/internal/operations/pitrrestore.go\<close> offers these bases to the planner.\<close>

definition hasUsableCopy :: "BackupRecord \<Rightarrow> bool" where
  "hasUsableCopy r \<longleftrightarrow> (\<exists>c \<in> set (br_Copies r). CopyUsable r (Some c))"

definition pitrBases :: "BackupRecord list \<Rightarrow> Base list" where
  "pitrBases records = concat (map (\<lambda>r.
     if br_Status r = StatusCompleted \<or> br_Status r = StatusMissing \<and> hasUsableCopy r
     then (case (br_TBefore r, br_TAfter r) of
             (Some tb, Some ta) \<Rightarrow>
               if InstanceScope r
               then [\<lparr>b_ID = br_ID r, b_TBefore = tb, b_TAfter = ta, b_SizeBytes = br_SizeBytes r,
                      b_Encrypted = br_Encrypted r, b_EncryptionMode = br_EncryptionMode r, b_StartedAt = br_StartedAt r\<rparr>]
               else []
           | _ \<Rightarrow> [])
     else []) records)"

section \<open>What segments are\<close>

definition usable :: "Chunk \<Rightarrow> bool" where
  "usable c \<longleftrightarrow> Live c \<and> ck_VerifyError c = []"

definition seg_ok :: "Segment \<Rightarrow> bool" where
  "seg_ok s \<longleftrightarrow> sg_chunks s \<noteq> [] \<and> successively meets (sg_chunks s) \<and> sg_From s = ck_From (hd (sg_chunks s))
     \<and> sg_To s = ck_To (last (sg_chunks s)) \<and> sg_Chunks s = int (length (sg_chunks s))"

lemma seg_ok_new: "seg_ok (seg_extend None c)"
  by (simp add: seg_ok_def seg_extend_def Let_def)

lemma seg_ok_extend: "seg_ok s \<Longrightarrow> ck_From c = sg_To s \<Longrightarrow> seg_ok (seg_extend (Some s) c)"
  by (auto simp: seg_ok_def seg_extend_def Let_def successively_append_iff)

lemma seg_extend_chunks: "sg_chunks (seg_extend cur c) = (case cur of None \<Rightarrow> [] | Some s \<Rightarrow> sg_chunks s) @ [c]"
  by (simp add: seg_extend_def Let_def split: option.splits)

lemma segLoop_spec:
  assumes "segLoop cur out k cs = (segs, n)" "\<forall>s \<in> set out. seg_ok s" "\<And>s. cur = Some s \<Longrightarrow> seg_ok s"
  shows "(\<forall>s \<in> set segs. seg_ok s)
    \<and> concat (map sg_chunks segs) = concat (map sg_chunks (seg_flush cur out)) @ filter usable cs
    \<and> n = k + length (filter (\<lambda>c. Live c \<and> ck_VerifyError c \<noteq> []) cs)"
  using assms
proof (induction cs arbitrary: cur out k)
  case Nil
  then show ?case by (auto simp: seg_flush_def split: option.splits)
next
  case (Cons c cs)
  have flushed: "\<forall>s \<in> set (seg_flush cur out). seg_ok s"
    using Cons.prems(2,3) by (auto simp: seg_flush_def split: option.splits)
  consider "\<not> Live c" | "Live c" "ck_VerifyError c \<noteq> []"
    | s where "usable c" "cur = Some s" "ck_From c \<noteq> sg_To s" | "usable c" "\<And>s. cur = Some s \<Longrightarrow> ck_From c = sg_To s"
    by (cases cur) (auto simp: usable_def)
  then show ?case
  proof cases
    case 1
    with Cons.prems(1) have "segLoop cur out k cs = (segs, n)" by simp
    from Cons.IH [OF this Cons.prems(2,3)] 1 show ?thesis by (simp add: usable_def)
  next
    case 2
    with Cons.prems(1) have "segLoop None (seg_flush cur out) (k + 1) cs = (segs, n)" by simp
    from Cons.IH [OF this flushed] 2 show ?thesis by (simp add: seg_flush_def usable_def)
  next
    case (3 s)
    with Cons.prems(1) have "segLoop (Some (seg_extend None c)) (seg_flush cur out) k cs = (segs, n)"
      by (simp add: usable_def)
    from Cons.IH [OF this flushed] seg_ok_new 3 show ?thesis
      by (auto simp: seg_flush_def [of "Some (seg_extend None c)"] seg_extend_chunks usable_def)
  next
    case 4
    with Cons.prems(1) have l: "segLoop (Some (seg_extend cur c)) out k cs = (segs, n)"
      by (auto simp: usable_def split: option.splits)
    have "seg_ok (seg_extend cur c)"
      using 4 Cons.prems(3) seg_ok_new seg_ok_extend by (cases cur) auto
    with Cons.IH [OF l Cons.prems(2)] 4 show ?thesis
      by (auto simp: seg_flush_def seg_extend_chunks usable_def split: option.splits)
  qed
qed

lemma segments_spec:
  assumes "segments chunks = (segs, corrupt)"
  shows "\<forall>s \<in> set segs. seg_ok s" "concat (map sg_chunks segs) = filter usable chunks"
    "corrupt = length (filter (\<lambda>c. Live c \<and> ck_VerifyError c \<noteq> []) chunks)"
  using segLoop_spec [of None "[]" 0 chunks segs corrupt] assms by (auto simp: segments_def seg_flush_def)

section \<open>A covered base can be restored to the end of its segment\<close>

lemma termLoop_holder:
  assumes "successively meets (xs @ k # ys)" "\<forall>c \<in> set (xs @ k # ys). ck_forward c"
    "ck_From k < ts" "ts \<le> ck_To k"
  shows "termLoop first ts (xs @ k # ys) = Some (ck_FirstTerm k, ck_LastTerm k)"
  using assms
proof (induction xs arbitrary: first)
  case (Cons x xs)
  have m: "successively meets (xs @ k # ys)" using Cons.prems(1) by (cases xs) auto
  have "ck_To x = ck_From (hd (xs @ k # ys))" using Cons.prems(1) by (cases xs) auto
  also have "\<dots> \<le> ck_From k"
    using meets_sorted [OF m] Cons.prems(2) by (cases xs) (auto simp: sorted_append)
  finally have "ck_To x \<le> ck_From k" .
  with Cons.prems(3) have "\<not> ts \<le> ck_To x" by auto
  then show ?case using Cons.IH [OF m, of False] Cons.prems by simp
qed simp

lemma covers_facts:
  assumes "covers r seg"
  obtains tb ta where "br_TBefore r = Some tb" "br_TAfter r = Some ta" "sg_From seg \<le> ot_TS tb" "ot_TS ta \<le> sg_To seg"
    "\<And>k xs ys. sg_chunks seg = xs @ k # ys \<Longrightarrow> successively meets (sg_chunks seg) \<Longrightarrow>
       \<forall>c \<in> set (sg_chunks seg). ck_forward c \<Longrightarrow> ck_From k < ot_TS ta \<Longrightarrow> ot_TS ta \<le> ck_To k \<Longrightarrow>
       ot_Term ta = 0 \<or> ck_FirstTerm k \<le> ot_Term ta \<and> ot_Term ta \<le> ck_LastTerm k"
proof -
  from assms obtain tb ta where t: "br_TBefore r = Some tb" "br_TAfter r = Some ta"
    by (auto simp: covers_def split: option.splits prod.splits)
  then have s: "sg_From seg \<le> ot_TS tb" "ot_TS ta \<le> sg_To seg"
    using assms by (auto simp: covers_def not_less split: if_splits)
  have "ot_Term ta = 0 \<or> ck_FirstTerm k \<le> ot_Term ta \<and> ot_Term ta \<le> ck_LastTerm k"
    if "sg_chunks seg = xs @ k # ys" "successively meets (sg_chunks seg)" "\<forall>c \<in> set (sg_chunks seg). ck_forward c"
      "ck_From k < ot_TS ta" "ot_TS ta \<le> ck_To k" for k xs ys
    using assms t termLoop_holder [of xs k ys "ot_TS ta" True] that
    by (auto simp: covers_def termAt_def split: if_splits)
  with that t s show ?thesis by blast
qed

lemma segment_splits:
  assumes "seg_ok seg" "\<forall>c \<in> set (sg_chunks seg). ck_forward c" "sg_From seg \<le> tb" "tb \<le> sg_To seg"
  obtains pre taken where "sg_chunks seg = pre @ taken" "taken \<noteq> []" "\<forall>k \<in> set pre. ck_To k < tb"
    "ck_From (hd taken) \<le> tb" "tb \<le> ck_To (hd taken)" "successively meets taken" "last taken = last (sg_chunks seg)"
proof -
  have ne: "sg_chunks seg \<noteq> []" and m: "successively meets (sg_chunks seg)"
    and ends: "sg_From seg = ck_From (hd (sg_chunks seg))" "sg_To seg = ck_To (last (sg_chunks seg))"
    using assms(1) by (simp_all add: seg_ok_def)
  have "\<exists>k \<in> set (sg_chunks seg). tb \<le> ck_To k" using assms(4) ends(2) ne by auto
  from split_list_first_prop [OF this] obtain pre k post where
    k: "sg_chunks seg = pre @ k # post" "tb \<le> ck_To k" "\<forall>y \<in> set pre. \<not> tb \<le> ck_To y" by blast
  have "ck_From k \<le> tb"
  proof (cases pre rule: rev_cases)
    case Nil
    then show ?thesis using assms(3) ends(1) k(1) by simp
  next
    case (snoc ys y)
    then have "ck_From k = ck_To y" using m k(1) by (auto simp: successively_append_iff)
    then show ?thesis using k(3) snoc by auto
  qed
  then show ?thesis
    using that [of pre "k # post"] k m by (auto simp: successively_append_iff not_le)
qed

definition planner_base :: "BackupRecord \<Rightarrow> Base \<Rightarrow> bool" where
  "planner_base r b \<longleftrightarrow> br_TBefore r = Some (b_TBefore b) \<and> br_TAfter r = Some (b_TAfter b)"

lemma covered_leads_to:
  assumes "seg_ok seg" "covers r seg" "planner_base r b"
    "\<forall>c \<in> set (sg_chunks seg). ck_forward c \<and> chunk_ok c"
    "ot_TS (b_TBefore b) \<le> ot_TS (b_TAfter b)" "limit \<le> sg_To seg"
  obtains pre taken where "sg_chunks seg = pre @ taken" "leads_to b limit taken"
    "\<forall>k \<in> set pre. ck_To k < ot_TS (b_TBefore b)"
proof -
  obtain tb ta where t: "br_TBefore r = Some tb" "br_TAfter r = Some ta" "sg_From seg \<le> ot_TS tb" "ot_TS ta \<le> sg_To seg"
    and trm: "\<And>k xs ys. sg_chunks seg = xs @ k # ys \<Longrightarrow> successively meets (sg_chunks seg) \<Longrightarrow>
       \<forall>c \<in> set (sg_chunks seg). ck_forward c \<Longrightarrow> ck_From k < ot_TS ta \<Longrightarrow> ot_TS ta \<le> ck_To k \<Longrightarrow>
       ot_Term ta = 0 \<or> ck_FirstTerm k \<le> ot_Term ta \<and> ot_Term ta \<le> ck_LastTerm k"
    using covers_facts [OF assms(2)] by metis
  then have b: "b_TBefore b = tb" "b_TAfter b = ta" using assms(3) by (simp_all add: planner_base_def)
  have fw: "\<forall>c \<in> set (sg_chunks seg). ck_forward c" using assms(4) by blast
  have le: "ot_TS tb \<le> sg_To seg" using assms(5) t(4) b by (meson order_trans)
  obtain pre taken where s: "sg_chunks seg = pre @ taken" "taken \<noteq> []" "\<forall>k \<in> set pre. ck_To k < ot_TS tb"
    "ck_From (hd taken) \<le> ot_TS tb" "ot_TS tb \<le> ck_To (hd taken)" "successively meets taken"
    "last taken = last (sg_chunks seg)"
    by (rule segment_splits [OF assms(1) fw t(3) le])
  have "\<not> term_outside b k" if "k \<in> set taken" "holds_TAfter b k" for k
  proof -
    from that(1) obtain xs ys where "taken = xs @ k # ys" by (meson split_list)
    then have "sg_chunks seg = (pre @ xs) @ k # ys" using s(1) by simp
    from trm [OF this] that(2) assms(1) fw show ?thesis
      by (auto simp: term_outside_def holds_TAfter_def b seg_ok_def)
  qed
  moreover have "\<forall>k \<in> set taken. chunk_ok k" using s(1) assms(4) by auto
  ultimately have "leads_to b limit taken"
    using s assms(1,6) b by (simp add: leads_to_def seg_ok_def)
  with that s(1,3) b show ?thesis by blast
qed

end
