(* ===== verification/Pitr_Windows.thy ===== *)
theory Pitr_Windows
  imports Pitr_Segments
begin

text \<open>
  The promise of a point-in-time window: every limit after its start and up to its end can be restored. The
  planner and the status page read the same chunks; this theory ties them together, and states when they agree.
\<close>

section \<open>Segments are stretches of the listing\<close>

definition cur_chunks :: "Segment option \<Rightarrow> Chunk list" where
  "cur_chunks cur = (case cur of None \<Rightarrow> [] | Some s \<Rightarrow> sg_chunks s)"

text \<open>A segment is a longest stretch: the chunk before it failed verification or does not meet it.\<close>

definition cut_off :: "Chunk list \<Rightarrow> Segment \<Rightarrow> bool" where
  "cut_off pre s \<longleftrightarrow> pre = [] \<or> ck_VerifyError (last pre) \<noteq> [] \<or> ck_To (last pre) \<noteq> ck_From (hd (sg_chunks s))"

lemma cut_off_append: "cut_off pre s \<Longrightarrow> (pre = [] \<Longrightarrow> cut_off xs s) \<Longrightarrow> cut_off (xs @ pre) s"
  by (cases "pre = []") (auto simp: cut_off_def)

lemma segLoop_stretch:
  assumes "segLoop cur out k cs = (segs, n)" "s \<in> set segs" "\<forall>c \<in> set cs. Live c" "\<And>t. cur = Some t \<Longrightarrow> seg_ok t" "seg_ok s"
  shows "s \<in> set out \<or> (\<exists>pre post. cur_chunks cur @ cs = pre @ sg_chunks s @ post \<and> cut_off pre s)"
  using assms
proof (induction cs arbitrary: cur out k)
  case Nil
  then show ?case by (auto simp: seg_flush_def cur_chunks_def cut_off_def split: option.splits intro: exI [of _ "[]"])
next
  case (Cons c cs)
  have live: "Live c" "\<forall>c \<in> set cs. Live c" using Cons.prems(3) by auto
  have flush: ?case if "s \<in> set (seg_flush cur out)"
    using that by (auto simp: seg_flush_def cur_chunks_def cut_off_def split: option.splits intro: exI [of _ "[]"])
  have grow: ?case if e: "xs @ ys = cur_chunks cur @ c # cs" "ys = pre @ sg_chunks s @ post" "cut_off pre s" "pre = [] \<Longrightarrow> cut_off xs s"
    for xs ys pre post
    using cut_off_append [OF e(3,4)] e(1,2) by (intro disjI2 exI [of _ "xs @ pre"] exI [of _ post]) auto
  consider "ck_VerifyError c \<noteq> []" | t where "ck_VerifyError c = []" "cur = Some t" "ck_From c \<noteq> sg_To t"
    | "ck_VerifyError c = []" "\<And>t. cur = Some t \<Longrightarrow> ck_From c = sg_To t" by (cases cur) auto
  then show ?case
  proof cases
    case 1
    with Cons.prems(1) live(1) have "segLoop None (seg_flush cur out) (k + 1) cs = (segs, n)" by simp
    from Cons.IH [OF this Cons.prems(2) live(2) _ Cons.prems(5)]
    consider "s \<in> set (seg_flush cur out)" | pre post where "cs = pre @ sg_chunks s @ post" "cut_off pre s"
      by (auto simp: cur_chunks_def)
    then show ?thesis
    proof cases
      case 1 then show ?thesis by (rule flush)
    next
      case 2
      show ?thesis by (rule grow [of "cur_chunks cur @ [c]" cs, OF _ 2]) (simp_all add: cut_off_def 1)
    qed
  next
    case 2
    with Cons.prems(1) live(1) have "segLoop (Some (seg_extend None c)) (seg_flush cur out) k cs = (segs, n)" by simp
    from Cons.IH [OF this Cons.prems(2) live(2) _ Cons.prems(5)] seg_ok_new
    consider "s \<in> set (seg_flush cur out)" | pre post where "c # cs = pre @ sg_chunks s @ post" "cut_off pre s"
      by (auto simp: cur_chunks_def seg_extend_chunks)
    then show ?thesis
    proof cases
      case 1 then show ?thesis by (rule flush)
    next
      case p: 2
      have "cut_off (cur_chunks cur) s" if "pre = []"
      proof -
        have "sg_chunks s \<noteq> []" using Cons.prems(5) by (simp add: seg_ok_def)
        then have "hd (sg_chunks s) = c" using p(1) that by (cases "sg_chunks s") auto
        moreover have "ck_To (last (sg_chunks t)) = sg_To t" using Cons.prems(4) 2(2) by (simp add: seg_ok_def)
        ultimately show ?thesis using 2(2,3) by (auto simp: cut_off_def cur_chunks_def)
      qed
      then show ?thesis by (intro grow [OF _ p]) simp_all
    qed
  next
    case 3
    with Cons.prems(1) live(1) have "segLoop (Some (seg_extend cur c)) out k cs = (segs, n)" by (cases cur) simp_all
    moreover have "seg_ok (seg_extend cur c)" using 3(2) Cons.prems(4) seg_ok_new seg_ok_extend by (cases cur) auto
    ultimately have "s \<in> set out \<or> (\<exists>pre post. cur_chunks (Some (seg_extend cur c)) @ cs = pre @ sg_chunks s @ post \<and> cut_off pre s)"
      using Cons.IH [OF _ Cons.prems(2) live(2) _ Cons.prems(5)] by blast
    then show ?thesis by (simp add: cur_chunks_def seg_extend_chunks)
  qed
qed

lemma segments_stretch:
  assumes "segments chunks = (segs, n)" "s \<in> set segs" "\<forall>c \<in> set chunks. Live c"
  obtains pre post where "chunks = pre @ sg_chunks s @ post" "cut_off pre s"
proof -
  have "seg_ok s" using segments_spec(1) [OF assms(1)] assms(2) by blast
  from segLoop_stretch [OF assms(1) [unfolded segments_def] assms(2,3) _ this] that show ?thesis
    by (auto simp: cur_chunks_def)
qed

section \<open>Windows come from bases\<close>

lemma windowStart_spec:
  assumes "windowStart start n bs = (start', m)"
  shows "m = n + length bs \<and> (start' \<in> base_point ` set bs \<or> start' = start \<and> (n > 0 \<or> bs = []))
    \<and> (\<forall>b \<in> set bs. start' \<le> base_point b) \<and> (n > 0 \<longrightarrow> start' \<le> start)"
  using assms
proof (induction bs arbitrary: start n)
  case (Cons b bs)
  let ?s = "if n = 0 \<or> Compare (base_point b) start < 0 then base_point b else start"
  from Cons.prems have "windowStart ?s (n + 1) bs = (start', m)" by simp
  from Cons.IH [OF this] show ?case by (auto split: if_splits)
qed simp

lemma coveringChain_Some:
  "coveringChain chns b = Some (cid, seg) \<Longrightarrow>
   \<exists>c \<in> set chns. cid = cn_ChainID (cs_Chain c) \<and> seg \<in> set (cs_Segments c) \<and> covers b seg"
  by (induction chns) (auto simp: coveringSegment_def split: option.splits dest: find_Some_in)

lemma window_base:
  assumes "w \<in> set (windows chns (baseStatuses chns recs))"
  obtains r c seg where "r \<in> set recs" "eligibleBase r" "c \<in> set chns" "w_ChainID w = cn_ChainID (cs_Chain c)"
    "seg \<in> set (cs_Segments c)" "covers r seg" "w_End w = sg_To seg" "br_TAfter r \<noteq> None"
    "w_Start w = ot_TS (the (br_TAfter r))"
proof -
  from assms obtain d s where d: "w \<in> set (window_of (baseStatuses chns recs) d s)"
    unfolding windows_def by auto
  then have d2: "w_ChainID w = cn_ChainID (cs_Chain d)"
    by (auto simp: window_of_def split: prod.splits if_splits)
  obtain start n where wn0: "windowStart ts_zero 0 (window_bases d s (baseStatuses chns recs)) = (start, n)" by fastforce
  with d have wn: "n \<noteq> 0" "w_Start w = start" "w_End w = sg_To s"
    by (auto simp: window_of_def split: if_splits)
  have "n = length (window_bases d s (baseStatuses chns recs))" using windowStart_spec [OF wn0] by simp
  then have "start \<in> base_point ` set (window_bases d s (baseStatuses chns recs))"
    using windowStart_spec [OF wn0] wn(1) by auto
  then obtain r where r: "r \<in> set recs" "start = base_point (baseStatus chns r)"
    "bs_ChainID (baseStatus chns r) = cn_ChainID (cs_Chain d)" "bs_Eligible (baseStatus chns r)"
    "bs_segmentTo (baseStatus chns r) = sg_To s"
    by (auto simp: window_bases_def baseStatuses_def)
  then obtain cid seg where cs: "coveringChain chns r = Some (cid, seg)"
    by (auto simp: baseStatus_def Let_def split: option.splits)
  with r have "cid = cn_ChainID (cs_Chain d)" "eligibleBase r" "sg_To seg = sg_To s" "start = base_point (baseStatus chns r)"
    by (auto simp: baseStatus_def Let_def)
  moreover from this cs have "br_TAfter r \<noteq> None" "start = ot_TS (the (br_TAfter r))"
    by (auto simp: baseStatus_def Let_def base_point_def eligibleBase_def)
  ultimately show ?thesis
    using that coveringChain_Some [OF cs] r(1) d2 wn(2,3) by metis
qed

section \<open>The limits of a window can be restored\<close>

text \<open>The live chunks that hold a position are chunks of one chain, and when they are several (the position is where
  chunks meet) none of them failed verification.\<close>

definition one_holder :: "pitr_db \<Rightarrow> string \<Rightarrow> Timestamp \<Rightarrow> bool" where
  "one_holder db sid p \<longleftrightarrow> (\<forall>k \<in> set (db_chunks db). \<forall>l \<in> set (db_chunks db).
     Live k \<and> Live l \<and> ck_StreamID k = sid \<and> ck_StreamID l = sid
     \<and> ck_From k \<le> p \<and> p \<le> ck_To k \<and> ck_From l \<le> p \<and> p \<le> ck_To l \<longrightarrow>
     k = l \<or> ck_ChainID k = ck_ChainID l \<and> ck_VerifyError k = [])"

text \<open>Chunks of a run do not overlap, and neither do the live ones among them.\<close>

lemma run_from_apart: "run_from s cs e \<Longrightarrow> sorted_wrt (\<lambda>x y. ck_To x \<le> ck_From y) cs"
  by (induction cs arbitrary: s) (auto dest: run_from_bounds)

lemma live_listing_apart:
  assumes "pitr_inv db" "c \<in> set (ListChains sid db)"
  shows "sorted_wrt (\<lambda>x y. ck_To x \<le> ck_From y) (live_listing sid (cn_ChainID c) db)"
proof -
  from assms(2) have c: "c \<in> set (db_chains db)" "cn_StreamID c = sid" by (auto simp: in_ListChains)
  from inv_run_listing [OF assms(1) c(1)] run_from_apart
  have "sorted_wrt (\<lambda>x y. ck_To x \<le> ck_From y) (sort_key chunk_order (rows_of sid (cn_ChainID c) (db_chunks db)))"
    by (auto simp: c(2))
  then show ?thesis unfolding live_listing_rows by (rule sorted_wrt_filter)
qed

lemma distinct_ListChains: "pitr_inv db \<Longrightarrow> distinct (map cn_ChainID (ListChains sid db))"
proof -
  assume "pitr_inv db"
  then have d: "distinct (db_chains db)" "inj_on (\<lambda>c. (cn_StreamID c, cn_ChainID c)) (set (db_chains db))"
    by (simp_all add: pitr_inv_def inv_chains_def distinct_map)
  then have "inj_on cn_ChainID (set (ListChains sid db))"
    by (auto simp: inj_on_def in_ListChains)
  with d(1) show ?thesis by (simp add: distinct_map ListChains_def)
qed

lemma segment_first:
  assumes inv: "pitr_inv db" and c: "c \<in> set (ListChains sid db)"
    and L: "live_listing sid (cn_ChainID c) db = A @ sg_chunks seg @ B" "cut_off A seg"
    and seg: "covers r seg" "seg_ok seg" "planner_base r b" and x: "x \<in> set A"
    and clean: "\<And>y. y \<in> set A \<Longrightarrow> ck_From y \<le> ot_TS (b_TBefore b) \<Longrightarrow> ot_TS (b_TBefore b) \<le> ck_To y \<Longrightarrow> ck_VerifyError y = []"
  shows "ck_To x < ot_TS (b_TBefore b)"
proof (rule ccontr)
  let ?tb = "ot_TS (b_TBefore b)" and ?h = "hd (sg_chunks seg)"
  assume x2: "\<not> ck_To x < ?tb"
  from x obtain A' y where A: "A = A' @ [y]" by (metis append_butlast_last_id empty_iff list.set(1))
  have h: "?h \<in> set (sg_chunks seg)" "ck_From ?h \<le> ?tb"
    using seg by (auto simp: seg_ok_def covers_def planner_base_def split: option.splits if_splits)
  have fwd: "ck_From y \<le> ck_To y" using sql.forward [OF inv c, of y] by (simp add: L(1) A)
  have "ck_To y \<le> ck_From ?h" and gap: "\<forall>z \<in> set A'. ck_To z \<le> ck_From y"
    using live_listing_apart [OF inv c] h(1) unfolding L(1) A by (auto simp: sorted_wrt_append)
  moreover have "?tb \<le> ck_To y" using x x2 gap fwd unfolding A by (auto dest: order_trans)
  ultimately have "ck_To y = ck_From ?h" "ck_From y \<le> ?tb" "?tb \<le> ck_To y" using h(2) fwd by auto
  with clean [of y] L(2) show False by (auto simp: A cut_off_def)
qed

lemma covered_base_plan:
  assumes inv: "pitr_inv db" and lim: "Limit target = Ok limit" and b: "b \<in> set bases" "planner_base r b"
    "ot_TS (b_TBefore b) \<le> ot_TS (b_TAfter b)" "\<not> ts_IsZero (ot_TS (b_TBefore b))" "ot_TS (b_TAfter b) < limit"
    and c: "c \<in> set (ListChains (st_ID st) db)"
    and seg: "segments (live_listing (st_ID st) (cn_ChainID c) db) = (segs, n)" "seg \<in> set segs" "covers r seg" "limit \<le> sg_To seg"
    and sha: "\<forall>k \<in> set (db_chunks db). \<not> is_blank (ck_SHA256 k)"
    and one: "one_holder db (st_ID st) (ot_TS (b_TBefore b))" and keys: "\<forall>m. h m"
  shows "\<exists>plan. PlanRestore (Some st) (sql_source db bases (Some h)) target = Ok plan"
proof -
  let ?L = "live_listing (st_ID st) (cn_ChainID c) db" and ?tb = "ot_TS (b_TBefore b)"
  have rows: "k \<in> set (db_chunks db) \<and> Live k \<and> ck_StreamID k = st_ID st \<and> ck_ChainID k = cid"
    if "k \<in> set (live_listing (st_ID st) cid db)" for k cid using that by (simp add: in_live_listing)
  obtain A B where AB: "?L = A @ sg_chunks seg @ B" "cut_off A seg"
    by (rule segments_stretch [OF seg(1,2)]) (use rows in blast)
  have ok: "seg_ok seg" using segments_spec(1) [OF seg(1)] seg(2) by blast
  have "set (sg_chunks seg) \<subseteq> set (filter usable ?L)"
    unfolding segments_spec(2) [OF seg(1), symmetric] using seg(2) by auto
  then have inL: "k \<in> set ?L" "usable k" if "k \<in> set (sg_chunks seg)" for k using that by auto
  have "\<forall>k \<in> set (sg_chunks seg). ck_forward k \<and> chunk_ok k"
  proof
    fix k assume k: "k \<in> set (sg_chunks seg)"
    with rows [OF inL(1)] sha have "\<not> is_blank (ck_SHA256 k)" by blast
    with inL(2) [OF k] sql.forward [OF inv c inL(1) [OF k]] show "ck_forward k \<and> chunk_ok k"
      by (simp add: chunk_ok_def usable_def)
  qed
  from covered_leads_to [OF ok seg(3) b(2) this b(3) seg(4)] obtain pre taken where
    t: "sg_chunks seg = pre @ taken" "leads_to b limit taken" "\<forall>k \<in> set pre. ck_To k < ?tb" by blast
  then obtain k ks where k: "taken = k # ks" "ck_From k \<le> ?tb" "?tb \<le> ck_To k"
    by (cases taken) (auto simp: leads_to_def)
  have L: "?L = (A @ pre) @ k # (ks @ B)" using AB t(1) k(1) by simp
  have kin: "k \<in> set ?L" using L by simp
  have only: "cid = cn_ChainID c \<and> ck_VerifyError x = []"
    if "x \<in> set (live_listing (st_ID st) cid db)" "ck_From x \<le> ?tb" "?tb \<le> ck_To x" for x cid
  proof -
    have "x = k \<or> ck_ChainID x = ck_ChainID k \<and> ck_VerifyError x = []"
      using one rows [OF that(1)] rows [OF kin] that(2,3) k(2,3) unfolding one_holder_def by blast
    moreover have "ck_VerifyError k = []" using inL(2) [of k] t(1) k(1) by (simp add: usable_def)
    ultimately show ?thesis using rows [OF that(1)] rows [OF kin] by auto
  qed
  have "ck_VerifyError y = []" if "y \<in> set A" "ck_From y \<le> ?tb" "?tb \<le> ck_To y" for y
    using only [of y "cn_ChainID c"] that AB(1) by simp
  then have "ck_To x < ?tb" if "x \<in> set A" for x
    using segment_first [OF inv c AB seg(3) ok b(2) that] by blast
  with t(3) have before: "ck_To x < ?tb" if "x \<in> set (A @ pre)" for x using that by auto
  obtain cs1 cs2 where cs: "ListChains (st_ID st) db = cs1 @ c # cs2" using c by (meson split_list)
  have "findStart ?tb (live_listing (st_ID st) (cn_ChainID d) db) = None" if d: "d \<in> set cs1" for d
  proof (rule ccontr)
    assume "findStart ?tb (live_listing (st_ID st) (cn_ChainID d) db) \<noteq> None"
    then obtain ys where "findStart ?tb (live_listing (st_ID st) (cn_ChainID d) db) = Some ys" by auto
    from findStart_Some [OF this] obtain y where "y \<in> set (live_listing (st_ID st) (cn_ChainID d) db)" "ck_From y \<le> ?tb" "?tb \<le> ck_To y"
      by (metis Un_iff hd_in_set set_append)
    with only have "cn_ChainID d = cn_ChainID c" by blast
    moreover have "cn_ChainID c \<notin> cn_ChainID ` set cs1"
      using distinct_ListChains [OF inv, of "st_ID st"] by (simp add: cs)
    ultimately show False using d by (metis imageI)
  qed
  with sql.plan_found [OF inv lim b(1,5,4) cs _ _ t(2) _ keys, of "A @ pre" B] before AB(1) t(1) show ?thesis by auto
qed

lemma in_pitrBases:
  assumes "r \<in> set recs" "eligibleBase r"
  obtains b where "b \<in> set (pitrBases recs)" "planner_base r b"
proof -
  from assms(2) obtain tb ta where t: "br_TBefore r = Some tb" "br_TAfter r = Some ta" "br_Status r = StatusCompleted" "InstanceScope r"
    by (auto simp: eligibleBase_def)
  let ?b = "\<lparr>b_ID = br_ID r, b_TBefore = tb, b_TAfter = ta, b_SizeBytes = br_SizeBytes r,
     b_Encrypted = br_Encrypted r, b_EncryptionMode = br_EncryptionMode r, b_StartedAt = br_StartedAt r\<rparr>"
  have "?b \<in> set (pitrBases recs)" using assms(1) t unfolding pitrBases_def by (auto intro!: bexI [of _ r])
  moreover have "planner_base r ?b" using t by (simp add: planner_base_def)
  ultimately show ?thesis by (rule that)
qed

definition sound_base :: "pitr_db \<Rightarrow> string \<Rightarrow> BackupRecord \<Rightarrow> bool" where
  "sound_base db sid r \<longleftrightarrow> (\<forall>tb ta. eligibleBase r \<and> br_TBefore r = Some tb \<and> br_TAfter r = Some ta \<longrightarrow>
     ot_TS tb \<le> ot_TS ta \<and> \<not> ts_IsZero (ot_TS tb) \<and> one_holder db sid (ot_TS tb))"

text \<open>C10: for every window the status page shows and every limit after its start and up to its end, \<open>PlanRestore\<close>
  finds a plan. The conditions are that every encryption key a plan may ask for is configured, that the chunk rows have
  checksums, and that each eligible base was taken forward (\<open>T_before\<close> at most \<open>T_after\<close>) from a nonzero \<open>T_before\<close> that
  lies in live chunks of one chain only, all of them free of a verification error when there are several. A limit equal
  to the start itself is refused: the planner wants a consistent point strictly before the limit.\<close>

theorem window_is_restorable:
  assumes "repo_reachable db" "w \<in> set (pitr_window_list (st_ID st) recs db)" "Limit target = Ok limit"
    "w_Start w < limit" "limit \<le> w_End w" "\<forall>r \<in> set recs. sound_base db (st_ID st) r"
    "\<forall>k \<in> set (db_chunks db). \<not> is_blank (ck_SHA256 k)" "\<forall>m. h m"
  shows "\<exists>plan. PlanRestore (Some st) (sql_source db (pitrBases recs) (Some h)) target = Ok plan"
proof -
  note inv = repo_reachable_inv [OF assms(1)]
  obtain chns spans where chns: "chns = map (chainStatus (\<lambda>cid. live_listing (st_ID st) cid db) spans) (ListChains (st_ID st) db)"
    "w \<in> set (windows chns (baseStatuses chns recs))"
    using assms(2) by (auto simp: pitr_window_list_def Let_def)
  obtain r d seg where r: "r \<in> set recs" "eligibleBase r" "d \<in> set chns" "w_ChainID w = cn_ChainID (cs_Chain d)"
    "seg \<in> set (cs_Segments d)" "covers r seg" "w_End w = sg_To seg" "br_TAfter r \<noteq> None"
    "w_Start w = ot_TS (the (br_TAfter r))" by (rule window_base [OF chns(2)])
  from r(3) chns(1) obtain c where c: "c \<in> set (ListChains (st_ID st) db)"
    "d = chainStatus (\<lambda>cid. live_listing (st_ID st) cid db) spans c" by auto
  obtain segs n where seg: "segments (live_listing (st_ID st) (cn_ChainID c) db) = (segs, n)" by fastforce
  with c(2) r(5) have "seg \<in> set segs" by (simp add: chainStatus_def Let_def)
  moreover obtain b where b: "b \<in> set (pitrBases recs)" "planner_base r b" by (rule in_pitrBases [OF r(1,2)])
  moreover have "ot_TS (b_TBefore b) \<le> ot_TS (b_TAfter b)" "\<not> ts_IsZero (ot_TS (b_TBefore b))"
    "one_holder db (st_ID st) (ot_TS (b_TBefore b))"
    using assms(6) r(1,2) b(2) by (auto simp: sound_base_def planner_base_def)
  moreover have "ot_TS (b_TAfter b) < limit" using assms(4) r(9) b(2) by (simp add: planner_base_def)
  ultimately show ?thesis
    using covered_base_plan [OF inv assms(3) _ _ _ _ _ c(1) seg _ r(6) _ assms(7) _ assms(8)] assms(5) r(7) by simp
qed

definition sample_pitr_record :: BackupRecord where
  "sample_pitr_record = sample_record\<lparr>br_Scope := ScopeInstance, br_TBefore := Some \<lparr>ot_TS = Timestamp 120 1, ot_Term = 1\<rparr>,
     br_TAfter := Some \<lparr>ot_TS = Timestamp 130 1, ot_Term = 1\<rparr>\<rparr>"

lemma sample_record_simps [simp]:
  "br_Status sample_pitr_record = StatusCompleted" "br_Scope sample_pitr_record = ScopeInstance"
  "br_TBefore sample_pitr_record = Some \<lparr>ot_TS = Timestamp 120 1, ot_Term = 1\<rparr>"
  "br_TAfter sample_pitr_record = Some \<lparr>ot_TS = Timestamp 130 1, ot_Term = 1\<rparr>"
  by (simp_all add: sample_pitr_record_def sample_record_def)

lemma sample_window: "\<exists>w \<in> set (pitr_window_list ''s'' [sample_pitr_record] sample_db2).
    w_Start w = Timestamp 130 1 \<and> w_End w = Timestamp 220 1"
proof -
  have cid: "cn_ChainID sample_chain = ''c''" by (simp add: sample_chain_def)
  have terms: "ck_FirstTerm (sample_chunk i f t) = 1" "ck_LastTerm (sample_chunk i f t) = 1" for i f t
    by (simp_all add: sample_chunk_def)
  show ?thesis
    by (simp add: pitr_window_list_def Let_def sample_ListChains cid chainStatus_def sample_listing segments_def
        seg_extend_def seg_flush_def windows_def window_of_def window_bases_def baseStatuses_def baseStatus_def
        coveringSegment_def covers_def termAt_def less_Timestamp_def less_eq_Timestamp_def terms status_Deleted_def
        eligibleBase_def InstanceScope_def base_point_def)
qed

theorem window_is_restorable_witness:
  "\<exists>plan. PlanRestore (Some sample_stream) (sql_source sample_db2 (pitrBases [sample_pitr_record]) (Some (\<lambda>_. True))) sample_target = Ok plan"
proof -
  have s: "st_ID sample_stream = ''s''" by (simp add: sample_stream_def)
  obtain w where w: "w \<in> set (pitr_window_list (st_ID sample_stream) [sample_pitr_record] sample_db2)"
    "w_Start w = Timestamp 130 1" "w_End w = Timestamp 220 1"
    using sample_window by (auto simp: s)
  have sha: "\<not> is_blank (ck_SHA256 (sample_chunk i f t))" for i f t
    by (simp add: sample_chunk_def is_blank_def go_TrimSpace_empty go_space_def)
  show ?thesis
    by (rule window_is_restorable [OF sample_reachable(3) w(1) sample_Limit])
      (auto simp: w s sound_base_def one_holder_def sample_db_def sha ts_IsZero_def less_Timestamp_def less_eq_Timestamp_def)
qed

end
