(* ===== verification/Go_Text.thy ===== *)
theory Go_Text
  imports Mr_Prelude
begin

text \<open>
  Text conversions of Go's standard library that several components use: the decimal form of an unsigned
  number (\<open>fmt\<close>'s \<open>%d\<close>), the hexadecimal form of bytes (\<open>encoding/hex\<close>), the
  splitting of a text at its first separator, and the width of the UTF-8 sequence a text begins with
  (what \<open>range\<close> over a string advances by).
\<close>

section \<open>Decimal numbers\<close>

fun dec_text :: "nat \<Rightarrow> string" where
  "dec_text n = (if n < 10 then [char_of (48 + n)] else dec_text (n div 10) @ [char_of (48 + n mod 10)])"

declare dec_text.simps [simp del]

fun dec_value :: "nat \<Rightarrow> string \<Rightarrow> nat" where
  "dec_value acc [] = acc"
| "dec_value acc (c # cs) = dec_value (10 * acc + (of_char c - 48)) cs"

lemma dec_value_append: "dec_value acc (xs @ ys) = dec_value (dec_value acc xs) ys"
  by (induction xs arbitrary: acc) simp_all

lemma dec_value_text [simp]: "dec_value 0 (dec_text n) = n"
proof (induction n rule: dec_text.induct)
  case (1 n)
  then show ?case
    by (subst dec_text.simps) (auto simp: dec_value_append)
qed

lemma dec_text_inj: "dec_text m = dec_text n \<longleftrightarrow> m = n"
  by (metis dec_value_text)

lemma dec_text_digits: "c \<in> set (dec_text n) \<Longrightarrow> 48 \<le> (of_char c :: nat) \<and> of_char c \<le> (57 :: nat)"
proof (induction n rule: dec_text.induct)
  case (1 n)
  then show ?case by (subst (asm) (2) dec_text.simps) (auto split: if_splits)
qed

lemma dec_text_nonempty [simp]: "dec_text n \<noteq> []"
  by (subst dec_text.simps) simp

section \<open>Hexadecimal bytes\<close>

definition hex_digit :: "nat \<Rightarrow> char" where
  "hex_digit n = char_of (if n < 10 then 48 + n else 87 + n)"

definition hex_value :: "char \<Rightarrow> nat option" where
  "hex_value c = (let n = (of_char c :: nat) in
     if 48 \<le> n \<and> n \<le> 57 then Some (n - 48)
     else if 97 \<le> n \<and> n \<le> 102 then Some (n - 87)
     else if 65 \<le> n \<and> n \<le> 70 then Some (n - 55)
     else None)"

text \<open>\<open>hex.EncodeToString\<close> and \<open>hex.DecodeString\<close> (\<open>None\<close> is an error: a byte that is no
  hexadecimal digit, or an odd length).\<close>

fun hex_EncodeToString :: "string \<Rightarrow> string" where
  "hex_EncodeToString [] = []"
| "hex_EncodeToString (c # cs) =
     hex_digit (of_char c div 16) # hex_digit (of_char c mod 16) # hex_EncodeToString cs"

fun hex_DecodeString :: "string \<Rightarrow> string option" where
  "hex_DecodeString [] = Some []"
| "hex_DecodeString [c] = None"
| "hex_DecodeString (a # b # cs) =
     (case (hex_value a, hex_value b, hex_DecodeString cs) of
        (Some x, Some y, Some r) \<Rightarrow> Some (char_of (16 * x + y) # r) | _ \<Rightarrow> None)"

lemma hex_value_digit [simp]: "n < 16 \<Longrightarrow> hex_value (hex_digit n) = Some n"
  by (auto simp: hex_value_def hex_digit_def Let_def)

lemma of_char_less_256 [simp]: "(of_char c :: nat) < 256"
  using nat_of_char_less_256 by simp

lemma hex_roundtrip [simp]: "hex_DecodeString (hex_EncodeToString s) = Some s"
proof (induction s)
  case (Cons c s)
  have "(of_char c :: nat) div 16 < 16" using of_char_less_256 [of c] by linarith
  then show ?case using Cons by (simp add: mult.commute)
qed simp

lemma hex_EncodeToString_inj: "hex_EncodeToString s = hex_EncodeToString t \<longleftrightarrow> s = t"
  by (metis hex_roundtrip option.inject)

lemma hex_EncodeToString_empty [simp]: "hex_EncodeToString s = [] \<longleftrightarrow> s = []"
  by (cases s) simp_all

section \<open>Separators\<close>

lemma split_at_sep:
  assumes "x \<notin> set a" "x \<notin> set b" "a @ x # r = b @ x # s"
  shows "a = b \<and> r = s"
  using assms
proof (induction a arbitrary: b)
  case Nil
  then show ?case by (cases b) auto
next
  case (Cons y a)
  then show ?case by (cases b) auto
qed

section \<open>UTF-8\<close>

definition utf8_cont :: "nat \<Rightarrow> nat \<Rightarrow> string \<Rightarrow> nat \<Rightarrow> bool" where
  "utf8_cont lo hi s i \<longleftrightarrow> i < length s \<and> lo \<le> (of_char (s ! i) :: nat) \<and> (of_char (s ! i) :: nat) \<le> hi"

text \<open>The bytes of the first character; an invalid sequence counts as one byte.\<close>

definition utf8_width :: "string \<Rightarrow> nat" where
  "utf8_width s = (case s of [] \<Rightarrow> 0 | c # _ \<Rightarrow>
     (let n = (of_char c :: nat); more = utf8_cont 128 191 s in
      if 194 \<le> n \<and> n \<le> 223 then (if more 1 then 2 else 1)
      else if 224 \<le> n \<and> n \<le> 239
      then (if utf8_cont (if n = 224 then 160 else 128) (if n = 237 then 159 else 191) s 1 \<and> more 2 then 3 else 1)
      else if 240 \<le> n \<and> n \<le> 244
      then (if utf8_cont (if n = 240 then 144 else 128) (if n = 244 then 143 else 191) s 1 \<and> more 2 \<and> more 3 then 4 else 1)
      else 1))"

lemma utf8_width_pos: "s \<noteq> [] \<Longrightarrow> 0 < utf8_width s"
  by (simp add: utf8_width_def Let_def split: list.splits)

lemma utf8_width_ascii: "(of_char c :: nat) < 128 \<Longrightarrow> utf8_width (c # cs) = 1"
  by (simp add: utf8_width_def Let_def)

end
