(* ===== verification/Ha_Lease.thy ===== *)
theory Ha_Lease
  imports Go_Text
begin

text \<open>
  The lease object of active-passive high availability and the state an instance keeps about its
  clusters, \<open>src/internal/ha/lease.go\<close> and \<open>src/internal/ha/state.go\<close>.

  The stored JSON of a lease is identified with the value it decodes to: an object of the lease key is
  either a lease or a text that does not decode. HMAC-SHA256 is the parameter \<open>hm\<close> (key, message) and
  the RFC 3339 form of a time is the parameter \<open>ft\<close>. Epochs and sequence numbers are uint64 words.
\<close>

section \<open>Snapshot marks\<close>

record SnapshotMark =
  sm_Epoch :: "64 word"
  sm_At :: go_time

definition mark_Before :: "SnapshotMark \<Rightarrow> SnapshotMark \<Rightarrow> bool" where
  "mark_Before m o' = (if sm_Epoch m \<noteq> sm_Epoch o' then sm_Epoch m < sm_Epoch o' else sm_At m < sm_At o')"

definition mark_IsZero :: "SnapshotMark \<Rightarrow> bool" where
  "mark_IsZero m \<longleftrightarrow> sm_Epoch m = 0 \<and> sm_At m = zero_time"

definition zero_mark :: SnapshotMark where
  "zero_mark = \<lparr>sm_Epoch = 0, sm_At = zero_time\<rparr>"

definition mark_String :: "(go_time \<Rightarrow> string) \<Rightarrow> SnapshotMark \<Rightarrow> string" where
  "mark_String ft m = (if mark_IsZero m then ''none''
     else ''epoch '' @ dec_text (unat (sm_Epoch m)) @ '' at '' @ ft (sm_At m))"

definition LaterMark :: "SnapshotMark \<Rightarrow> SnapshotMark \<Rightarrow> SnapshotMark" where
  "LaterMark a b = (if mark_Before a b then b else a)"

text \<open>Marks are ordered lexicographically, so \<open>LaterMark\<close> is the maximum of a linear order.\<close>

instantiation SnapshotMark_ext :: (linorder) linorder
begin

definition less_eq_SnapshotMark_ext :: "'a SnapshotMark_scheme \<Rightarrow> 'a SnapshotMark_scheme \<Rightarrow> bool" where
  "less_eq_SnapshotMark_ext a b \<longleftrightarrow> (sm_Epoch a, sm_At a, SnapshotMark.more a) \<le> (sm_Epoch b, sm_At b, SnapshotMark.more b)"

definition less_SnapshotMark_ext :: "'a SnapshotMark_scheme \<Rightarrow> 'a SnapshotMark_scheme \<Rightarrow> bool" where
  "less_SnapshotMark_ext a b \<longleftrightarrow> (sm_Epoch a, sm_At a, SnapshotMark.more a) < (sm_Epoch b, sm_At b, SnapshotMark.more b)"

instance
  by standard (auto simp: less_eq_SnapshotMark_ext_def less_SnapshotMark_ext_def)

end

lemma mark_Before_less [simp]: "mark_Before a b \<longleftrightarrow> a < b"
  by (auto simp: mark_Before_def less_SnapshotMark_ext_def)

lemma LaterMark_max: "LaterMark a b = max b a"
  by (auto simp: LaterMark_def max_def)

section \<open>Cluster names\<close>

definition lower_or_digit :: "char \<Rightarrow> bool" where
  "lower_or_digit c \<longleftrightarrow> CHR ''a'' \<le> c \<and> c \<le> CHR ''z'' \<or> CHR ''0'' \<le> c \<and> c \<le> CHR ''9''"

text \<open>The pattern \<open>^[a-z0-9][a-z0-9._-]{0,62}$\<close>.\<close>

definition ValidateCluster :: "string \<Rightarrow> bool" where
  "ValidateCluster name = (case name of
     [] \<Rightarrow> False
   | c # cs \<Rightarrow> lower_or_digit c \<and> length cs \<le> 62
       \<and> list_all (\<lambda>x. lower_or_digit x \<or> x = CHR ''.'' \<or> x = CHR ''_'' \<or> x = CHR ''-'') cs)"

definition ha_Prefix :: string where "ha_Prefix = ''_mongorescue/ha/''"

definition LeaseKey :: "string \<Rightarrow> string" where
  "LeaseKey cluster = ha_Prefix @ cluster @ ''/lease.json''"

definition ProbeKey :: "string \<Rightarrow> string \<Rightarrow> string" where
  "ProbeKey cluster instanceID = ha_Prefix @ cluster @ ''/probe-'' @ instanceID @ ''.json''"

section \<open>The lease\<close>

record Lease =
  ls_Cluster :: string
  ls_Holder :: string
  ls_HolderName :: string
  ls_Epoch :: "64 word"
  ls_Seq :: "64 word"
  ls_RenewedAt :: go_time
  ls_TTLSeconds :: int
  ls_KeyID :: string
  ls_LastSnapshotEpoch :: "64 word"
  ls_LastSnapshotAt :: go_time
  ls_MAC :: string

definition zero_lease :: Lease where
  "zero_lease = \<lparr>ls_Cluster = [], ls_Holder = [], ls_HolderName = [], ls_Epoch = 0, ls_Seq = 0,
     ls_RenewedAt = zero_time, ls_TTLSeconds = 0, ls_KeyID = [], ls_LastSnapshotEpoch = 0,
     ls_LastSnapshotAt = zero_time, ls_MAC = []\<rparr>"

definition lease_SnapshotMark :: "Lease \<Rightarrow> SnapshotMark" where
  "lease_SnapshotMark l = \<lparr>sm_Epoch = ls_LastSnapshotEpoch l, sm_At = ls_LastSnapshotAt l\<rparr>"

definition withSnapshotMark :: "SnapshotMark \<Rightarrow> Lease \<Rightarrow> Lease" where
  "withSnapshotMark m l = l\<lparr>ls_LastSnapshotEpoch := sm_Epoch m, ls_LastSnapshotAt := sm_At m\<rparr>"

definition macInput :: "(go_time \<Rightarrow> string) \<Rightarrow> Lease \<Rightarrow> string" where
  "macInput ft l =
     (let at = (if ls_LastSnapshotAt l = zero_time then [] else ft (ls_LastSnapshotAt l)) in
      ''mongorescue-ha-lease/1'' @ CHR 0x00 # ls_Cluster l @ CHR 0x00 # dec_text (unat (ls_Epoch l)) @ CHR 0x00 #
      ls_Holder l @ CHR 0x00 # dec_text (unat (ls_LastSnapshotEpoch l)) @ CHR 0x00 # at)"

definition leaseMAC :: "(string \<Rightarrow> string \<Rightarrow> string) \<Rightarrow> (go_time \<Rightarrow> string) \<Rightarrow> string \<Rightarrow> Lease \<Rightarrow> string" where
  "leaseMAC hm ft key l = hm key (macInput ft l)"

definition lease_sign :: "(string \<Rightarrow> string \<Rightarrow> string) \<Rightarrow> (go_time \<Rightarrow> string) \<Rightarrow> string \<Rightarrow> Lease \<Rightarrow> Lease" where
  "lease_sign hm ft key l = l\<lparr>ls_MAC := hex_EncodeToString (leaseMAC hm ft key l)\<rparr>"

definition Authentic :: "(string \<Rightarrow> string \<Rightarrow> string) \<Rightarrow> (go_time \<Rightarrow> string) \<Rightarrow> string \<Rightarrow> Lease \<Rightarrow> bool" where
  "Authentic hm ft key l = (case hex_DecodeString (ls_MAC l) of
     None \<Rightarrow> False
   | Some mac \<Rightarrow> ls_MAC l \<noteq> [] \<and> mac = leaseMAC hm ft key l)"

definition Released :: "Lease \<Rightarrow> bool" where
  "Released l \<longleftrightarrow> ls_Holder l = []"

definition lease_ttl :: "Lease \<Rightarrow> duration" where
  "lease_ttl l = wrap64 (ls_TTLSeconds l * go_Second)"

datatype lease_object = LeaseObject Lease | UnreadableObject string

definition DecodeLease :: "lease_object \<Rightarrow> Lease option" where
  "DecodeLease d = (case d of LeaseObject l \<Rightarrow> Some l | UnreadableObject _ \<Rightarrow> None)"

definition lease_encode :: "Lease \<Rightarrow> lease_object" where
  "lease_encode l = LeaseObject l"

section \<open>The state file\<close>

record HaState =
  hs_InstanceID :: string
  hs_Cluster :: string
  hs_LastActiveEpoch :: "64 word"
  hs_Clusters :: "string \<rightharpoonup> SnapshotMark"
  hs_AuthenticatedLease :: "string \<Rightarrow> bool"

definition Seen :: "string \<Rightarrow> HaState \<Rightarrow> bool" where
  "Seen cluster st \<longleftrightarrow> hs_Clusters st cluster \<noteq> None \<or> hs_Cluster st = cluster \<and> hs_LastActiveEpoch st > 0"

definition HighWater :: "string \<Rightarrow> HaState \<Rightarrow> SnapshotMark" where
  "HighWater cluster st = (case hs_Clusters st cluster of None \<Rightarrow> zero_mark | Some m \<Rightarrow> m)"

definition state_Observe :: "string \<Rightarrow> SnapshotMark \<Rightarrow> bool \<Rightarrow> HaState \<Rightarrow> HaState" where
  "state_Observe cluster mark reset st =
     (let mark' = (if \<not> reset then LaterMark (HighWater cluster st) mark else mark) in
      st\<lparr>hs_Clusters := (hs_Clusters st)(cluster \<mapsto> mark')\<rparr>)"

definition SeenAuthenticatedLease :: "string \<Rightarrow> HaState \<Rightarrow> bool" where
  "SeenAuthenticatedLease cluster st = hs_AuthenticatedLease st cluster"

definition MarkAuthenticatedLease :: "string \<Rightarrow> HaState \<Rightarrow> HaState" where
  "MarkAuthenticatedLease cluster st = st\<lparr>hs_AuthenticatedLease := (hs_AuthenticatedLease st)(cluster := True)\<rparr>"

section \<open>Properties\<close>

lemma leaseMAC_MAC [simp]: "leaseMAC hm ft key (l\<lparr>ls_MAC := x\<rparr>) = leaseMAC hm ft key l"
  by (simp add: leaseMAC_def macInput_def)

lemma lease_sign_simps [simp]:
  "ls_Seq (lease_sign hm ft key l) = ls_Seq l" "ls_Epoch (lease_sign hm ft key l) = ls_Epoch l"
  "ls_Holder (lease_sign hm ft key l) = ls_Holder l" "ls_TTLSeconds (lease_sign hm ft key l) = ls_TTLSeconds l"
  "ls_KeyID (lease_sign hm ft key l) = ls_KeyID l"
  by (simp_all add: lease_sign_def)

lemma withSnapshotMark_simps [simp]:
  "ls_Seq (withSnapshotMark m l) = ls_Seq l" "ls_Epoch (withSnapshotMark m l) = ls_Epoch l"
  "ls_Holder (withSnapshotMark m l) = ls_Holder l" "ls_TTLSeconds (withSnapshotMark m l) = ls_TTLSeconds l"
  "ls_KeyID (withSnapshotMark m l) = ls_KeyID l"
  by (simp_all add: withSnapshotMark_def)

lemma DecodeLease_encode [simp]: "DecodeLease (lease_encode l) = Some l"
  by (simp add: DecodeLease_def lease_encode_def)

lemma dec_text_no_nul: "CHR 0x00 \<notin> set (dec_text n)"
  using dec_text_digits [of "CHR 0x00" n] by auto

lemma macInput_fields:
  assumes "CHR 0x00 \<notin> set (ls_Cluster l)" "CHR 0x00 \<notin> set (ls_Cluster l')"
    "CHR 0x00 \<notin> set (ls_Holder l)" "CHR 0x00 \<notin> set (ls_Holder l')"
    and ft: "inj ft" "\<And>t. ft t \<noteq> []" and eq: "macInput ft l = macInput ft l'"
  shows "ls_Cluster l = ls_Cluster l' \<and> ls_Epoch l = ls_Epoch l' \<and> ls_Holder l = ls_Holder l'
    \<and> lease_SnapshotMark l = lease_SnapshotMark l'"
proof -
  define at where "at l = (if ls_LastSnapshotAt l = zero_time then [] else ft (ls_LastSnapshotAt l))" for l :: Lease
  have "ls_Cluster l @ CHR 0x00 # dec_text (unat (ls_Epoch l)) @ CHR 0x00 # ls_Holder l @ CHR 0x00 #
          dec_text (unat (ls_LastSnapshotEpoch l)) @ CHR 0x00 # at l
      = ls_Cluster l' @ CHR 0x00 # dec_text (unat (ls_Epoch l')) @ CHR 0x00 # ls_Holder l' @ CHR 0x00 #
          dec_text (unat (ls_LastSnapshotEpoch l')) @ CHR 0x00 # at l'"
    using eq by (simp add: macInput_def Let_def at_def)
  note * = split_at_sep [OF assms(1,2) this]
  note ** = split_at_sep [OF dec_text_no_nul dec_text_no_nul conjunct2 [OF *]]
  note *** = split_at_sep [OF assms(3,4) conjunct2 [OF **]]
  note last = split_at_sep [OF dec_text_no_nul dec_text_no_nul conjunct2 [OF ***]]
  have "ls_LastSnapshotAt l = ls_LastSnapshotAt l'"
    using last ft ft(2) [symmetric] by (auto simp: at_def inj_eq split: if_splits)
  with * ** *** last show ?thesis
    by (simp add: dec_text_inj lease_SnapshotMark_def word_unat_eq_iff)
qed

text \<open>C30: the MAC of a lease binds the cluster, the epoch, the holder and the last snapshot. A signed lease is authentic
  under its key. A lease that carries the MAC of a signed lease is authentic when it names the same four, and when it
  names others and is accepted all the same, the two texts that were hashed are a collision of the keyed hash: the
  encoding of the fields adds no way to forge a lease of its own.\<close>

theorem lease_mac_binds:
  assumes "CHR 0x00 \<notin> set (ls_Cluster l @ ls_Holder l @ ls_Cluster l' @ ls_Holder l')"
    and "inj ft" "\<forall>t. ft t \<noteq> []" "hm key (macInput ft l) \<noteq> []"
    and "ls_MAC l' = ls_MAC (lease_sign hm ft key l)"
    and "same \<longleftrightarrow> ls_Cluster l' = ls_Cluster l \<and> ls_Epoch l' = ls_Epoch l \<and> ls_Holder l' = ls_Holder l
         \<and> lease_SnapshotMark l' = lease_SnapshotMark l"
  shows "Authentic hm ft key (lease_sign hm ft key l)
    \<and> (Authentic hm ft key l' \<longleftrightarrow>
         same \<or> macInput ft l' \<noteq> macInput ft l \<and> hm key (macInput ft l') = hm key (macInput ft l))"
proof -
  have signed: "Authentic hm ft key (lease_sign hm ft key l)"
    using assms(4) by (simp add: Authentic_def lease_sign_def) (simp add: leaseMAC_def)
  have "Authentic hm ft key l' \<longleftrightarrow> hm key (macInput ft l') = hm key (macInput ft l)"
    using assms(4,5) by (auto simp: Authentic_def lease_sign_def leaseMAC_def split: option.splits)
  moreover have "macInput ft l' = macInput ft l \<longleftrightarrow> same"
  proof
    assume "macInput ft l' = macInput ft l"
    from macInput_fields [OF _ _ _ _ _ _ this] assms(1-3,6) show same by auto
  qed (use assms(6) in \<open>simp add: macInput_def lease_SnapshotMark_def\<close>)
  ultimately show ?thesis using signed by auto
qed

definition sample_lease :: Lease where
  "sample_lease = zero_lease\<lparr>ls_Cluster := ''prod'', ls_Holder := ''a1'', ls_Epoch := 7, ls_Seq := 3, ls_TTLSeconds := 30\<rparr>"

definition sample_ft :: "go_time \<Rightarrow> string" where
  "sample_ft t = (if t < 0 then CHR ''-'' else CHR ''+'') # dec_text (nat \<bar>t\<bar>)"

lemma sample_ft_inj: "inj sample_ft"
  by (rule injI) (auto simp: sample_ft_def dec_text_inj split: if_splits)

theorem lease_mac_binds_witness:
  "let l = lease_sign (\<lambda>k m. k @ m) sample_ft ''k'' sample_lease in
     \<not> Authentic (\<lambda>k m. k @ m) sample_ft ''k'' (l\<lparr>ls_Epoch := 8\<rparr>)
     \<and> Authentic (\<lambda>k m. k @ m) sample_ft ''k'' (l\<lparr>ls_Seq := 9\<rparr>)"
proof -
  have ft: "\<forall>t. sample_ft t \<noteq> []" by (simp add: sample_ft_def)
  let ?l = "lease_sign (\<lambda>k m. k @ m) sample_ft ''k'' sample_lease"
  have s: "ls_Cluster ?l = ''prod''" "ls_Holder ?l = ''a1''" "ls_Epoch ?l = 7"
    "lease_SnapshotMark ?l = lease_SnapshotMark sample_lease"
    "ls_Cluster sample_lease = ''prod''" "ls_Holder sample_lease = ''a1''" "ls_Epoch sample_lease = 7"
    by (simp_all add: sample_lease_def zero_lease_def lease_sign_def lease_SnapshotMark_def)
  have m: "lease_SnapshotMark (l\<lparr>ls_Seq := x\<rparr>) = lease_SnapshotMark l" for l x
    by (simp add: lease_SnapshotMark_def)
  show ?thesis
    using lease_mac_binds [of sample_lease "?l\<lparr>ls_Epoch := 8\<rparr>" sample_ft "\<lambda>k m. k @ m" "''k''", OF _ _ _ _ _ refl]
      lease_mac_binds [of sample_lease "?l\<lparr>ls_Seq := 9\<rparr>" sample_ft "\<lambda>k m. k @ m" "''k''", OF _ _ _ _ _ refl] ft sample_ft_inj s m
    by (simp add: Let_def)
qed

text \<open>the high-water mark of a cluster never falls: recording a snapshot raises the mark to the newer of
  the two (only an explicit reset lowers it), leaves every other cluster alone, and the cluster
  counts as seen from then on.\<close>

theorem high_water_never_falls:
  "HighWater c (state_Observe cluster mark False st) \<ge> HighWater c st
   \<and> HighWater cluster (state_Observe cluster mark False st) = max (HighWater cluster st) mark
   \<and> HighWater cluster (state_Observe cluster mark True st) = mark
   \<and> Seen cluster (state_Observe cluster mark reset st)
   \<and> (c = cluster \<or> HighWater c (state_Observe cluster mark reset st) = HighWater c st)"
  by (auto simp: HighWater_def state_Observe_def Seen_def LaterMark_max Let_def max.commute split: option.splits)

end
