(* ===== verification/Storage_Lease.thy ===== *)
theory Storage_Lease
  imports Go_Text
begin

text \<open>
  Conditional writes of small objects: the \<open>LeaseStore\<close> capability of a storage driver
  (\<open>src/internal/storage/lease.go\<close>), its local-disk driver (\<open>src/internal/storage/lease_local.go\<close>)
  and the probe that decides whether a storage enforces its conditions.

  The state of a driver is what one key holds. The content type is a parameter: the drivers only
  hash, measure and compare contents. The operations of the local driver run under the file lock of the
  key, so each is one atomic function of the state; \<open>sha\<close> is the hash of a content and
  \<open>sz\<close> its size in bytes.
\<close>

section \<open>Errors and the local driver\<close>

datatype store_error = ErrPreconditionFailed | ErrConditionalWritesUnsupported | ErrObjectTooLarge
  | ErrObjectNotFound | ErrStorageIO

definition MaxLeaseObjectSize :: nat where
  "MaxLeaseObjectSize = 65536"

definition contentVersion :: "('c \<Rightarrow> string) \<Rightarrow> 'c \<Rightarrow> string" where
  "contentVersion sha data = hex_EncodeToString (sha data)"

definition readLeaseFile :: "('c \<Rightarrow> nat) \<Rightarrow> 'c option \<Rightarrow> store_error + 'c" where
  "readLeaseFile sz st = (case st of
     None \<Rightarrow> Err ErrObjectNotFound
   | Some data \<Rightarrow> if sz data > MaxLeaseObjectSize then Err ErrObjectTooLarge else Ok data)"

definition local_ReadVersioned ::
  "('c \<Rightarrow> nat) \<Rightarrow> ('c \<Rightarrow> string) \<Rightarrow> 'c option \<Rightarrow> store_error + ('c \<times> string)" where
  "local_ReadVersioned sz sha st = (case readLeaseFile sz st of
     Err e \<Rightarrow> Err e
   | Ok data \<Rightarrow> Ok (data, contentVersion sha data))"

definition local_CreateIfAbsent ::
  "('c \<Rightarrow> nat) \<Rightarrow> ('c \<Rightarrow> string) \<Rightarrow> 'c \<Rightarrow> 'c option \<Rightarrow> (store_error + string) \<times> 'c option" where
  "local_CreateIfAbsent sz sha data st =
     (if sz data > MaxLeaseObjectSize then (Err ErrObjectTooLarge, st)
      else (case st of
        Some _ \<Rightarrow> (Err ErrPreconditionFailed, st)
      | None \<Rightarrow> (Ok (contentVersion sha data), Some data)))"

definition local_ReplaceIfMatch ::
  "('c \<Rightarrow> nat) \<Rightarrow> ('c \<Rightarrow> string) \<Rightarrow> 'c \<Rightarrow> string \<Rightarrow> 'c option \<Rightarrow> (store_error + string) \<times> 'c option" where
  "local_ReplaceIfMatch sz sha data version st =
     (if sz data > MaxLeaseObjectSize then (Err ErrObjectTooLarge, st)
      else (case readLeaseFile sz st of
        Err e \<Rightarrow> (Err (if e = ErrObjectNotFound then ErrPreconditionFailed else e), st)
      | Ok current \<Rightarrow>
          if contentVersion sha current \<noteq> version then (Err ErrPreconditionFailed, st)
          else (Ok (contentVersion sha data), Some data)))"

section \<open>The probe\<close>








section \<open>The contract of a conditional store\<close>

text \<open>
  What the code relies on: the object of the key is \<open>obj\<close> of the driver's state, contents the driver
  accepts satisfy \<open>fits\<close>, and every version is a function of the content.
\<close>

locale lease_store =
  fixes rd :: "'s \<Rightarrow> store_error + ('c \<times> string)"
    and create :: "'c \<Rightarrow> 's \<Rightarrow> (store_error + string) \<times> 's"
    and replace :: "'c \<Rightarrow> string \<Rightarrow> 's \<Rightarrow> (store_error + string) \<times> 's"
    and obj :: "'s \<Rightarrow> 'c option"
    and ver :: "'c \<Rightarrow> string"
    and fits :: "'c \<Rightarrow> bool"
  assumes read_absent: "obj s = None \<Longrightarrow> rd s = Err ErrObjectNotFound"
    and read_present: "obj s = Some c \<Longrightarrow> fits c \<Longrightarrow> rd s = Ok (c, ver c)"
    and create_absent: "obj s = None \<Longrightarrow> fits d \<Longrightarrow> \<exists>s'. create d s = (Ok (ver d), s') \<and> obj s' = Some d"
    and create_present: "obj s = Some c \<Longrightarrow> fits d \<Longrightarrow> create d s = (Err ErrPreconditionFailed, s)"
    and replace_absent: "obj s = None \<Longrightarrow> fits d \<Longrightarrow> replace d v s = (Err ErrPreconditionFailed, s)"
    and replace_stale: "obj s = Some c \<Longrightarrow> fits c \<Longrightarrow> fits d \<Longrightarrow> v \<noteq> ver c
                          \<Longrightarrow> replace d v s = (Err ErrPreconditionFailed, s)"
    and replace_current: "obj s = Some c \<Longrightarrow> fits c \<Longrightarrow> fits d
                          \<Longrightarrow> \<exists>s'. replace d (ver c) s = (Ok (ver d), s') \<and> obj s' = Some d"
    and create_unfit: "\<not> fits d \<Longrightarrow> \<exists>e. create d s = (Err e, s)"
    and replace_unfit: "\<not> fits d \<Longrightarrow> \<exists>e. replace d v s = (Err e, s)"
begin

text \<open>Of two writers that read the same version only one gets through, unless the contents collide.\<close>

lemma second_writer_fails:
  assumes "obj s = Some c" "fits c" "fits d" "fits e" "ver d \<noteq> ver c"
  shows "\<exists>s'. replace d (ver c) s = (Ok (ver d), s') \<and> replace e (ver c) s' = (Err ErrPreconditionFailed, s')"
proof -
  obtain s' where s': "replace d (ver c) s = (Ok (ver d), s')" "obj s' = Some d"
    using replace_current [OF assms(1-3)] by blast
  have "replace e (ver c) s' = (Err ErrPreconditionFailed, s')"
    by (rule replace_stale [OF s'(2) assms(3,4)]) (use assms(5) in auto)
  with s'(1) show ?thesis by blast
qed

end


text \<open>The local driver keeps the contract, for every hash.\<close>

definition fits_lease :: "('c \<Rightarrow> nat) \<Rightarrow> 'c \<Rightarrow> bool" where
  "fits_lease sz d \<longleftrightarrow> sz d \<le> MaxLeaseObjectSize"

lemmas local_ops = local_ReadVersioned_def local_CreateIfAbsent_def local_ReplaceIfMatch_def readLeaseFile_def
  fits_lease_def

interpretation local_store: lease_store "local_ReadVersioned sz sha" "local_CreateIfAbsent sz sha"
  "local_ReplaceIfMatch sz sha" "\<lambda>st. st" "contentVersion sha" "fits_lease sz" for sz sha
  by unfold_locales (auto simp: local_ops)










end
