(* ===== verification/Ha_Manager.thy ===== *)
theory Ha_Manager
  imports Ha_Lease Storage_Lease "HOL-Library.Signed_Division"
begin

text \<open>
  The lease manager of one instance, \<open>src/internal/ha/manager.go\<close>. Its state is the record
  \<open>Manager\<close>; the error text and the logger of the source are left out, the notification channel is the
  flag \<open>mg_changes\<close> (it holds at most one value), and \<open>mg_authenticSeen\<close> records that
  \<open>Config.OnAuthenticLease\<close> was called.

  An operation that talks to the storage is cut at the call: a \<open>start\<close> function runs up to the call
  and gives the request, a \<open>finish\<close> function takes the reply and the clock readings after it. The
  operation of the source is their composition; the two halves are what another instance can
  come between. Clock readings are arguments: \<open>now\<close> is the monotonic clock \<open>Config.Now\<close>,
  \<open>wall\<close> the wall clock of \<open>wallNow\<close> and \<open>utc\<close> the one written into the lease.
\<close>

section \<open>Configuration and state\<close>

datatype Role = RoleStandby | RoleActive

datatype ha_error = ErrNotActive | ErrKeyMismatch | ErrInvalidConfig | ErrLeaseStore store_error | ErrDecodeLease

definition MinTTL :: duration where "MinTTL = 5 * go_Second"
definition MaxTTL :: duration where "MaxTTL = 10 * go_Minute"
definition MinRenew :: duration where "MinRenew = go_Second"

definition ValidateTiming :: "duration \<Rightarrow> duration \<Rightarrow> ha_error option" where
  "ValidateTiming ttl renew =
     (if ttl < MinTTL \<or> ttl > MaxTTL then Some ErrInvalidConfig
      else if renew < MinRenew then Some ErrInvalidConfig
      else if wrap64 (2 * renew) \<ge> ttl then Some ErrInvalidConfig
      else None)"

record HaConfig =
  cf_Cluster :: string
  cf_InstanceID :: string
  cf_InstanceName :: string
  cf_KeyID :: string
  cf_MACKey :: "string option"
  cf_TTL :: duration
  cf_Renew :: duration
  cf_hmac :: "string \<Rightarrow> string \<Rightarrow> string"
  cf_timefmt :: "go_time \<Rightarrow> string"

datatype LeaseTrust = LeaseAbsent | LeaseAuthentic | LeaseUntrusted

record Predecessor =
  pd_Trust :: LeaseTrust
  pd_Lease :: Lease
  pd_Legacy :: bool
  pd_Mark :: SnapshotMark

record Manager =
  mg_role :: Role
  mg_lease :: Lease
  mg_version :: string
  mg_sentAt :: go_time
  mg_sentWall :: go_time
  mg_seen :: Lease
  mg_seenVersion :: string
  mg_seenAt :: go_time
  mg_seenEpoch :: "64 word"
  mg_cooldownUntil :: go_time
  mg_healthy :: bool
  mg_keyMismatch :: bool
  mg_leaseErrors :: "64 word"
  mg_takeovers :: "64 word"
  mg_fresh :: bool
  mg_retrying :: bool
  mg_signed :: bool
  mg_pred :: Predecessor
  mg_seenMark :: SnapshotMark
  mg_changes :: bool
  mg_authenticSeen :: bool

definition zero_pred :: Predecessor where
  "zero_pred = \<lparr>pd_Trust = LeaseAbsent, pd_Lease = zero_lease, pd_Legacy = False, pd_Mark = zero_mark\<rparr>"

definition new_manager :: Manager where
  "new_manager = \<lparr>mg_role = RoleStandby, mg_lease = zero_lease, mg_version = [], mg_sentAt = zero_time,
     mg_sentWall = zero_time, mg_seen = zero_lease, mg_seenVersion = [], mg_seenAt = zero_time, mg_seenEpoch = 0,
     mg_cooldownUntil = zero_time, mg_healthy = False, mg_keyMismatch = False, mg_leaseErrors = 0, mg_takeovers = 0,
     mg_fresh = False, mg_retrying = False, mg_signed = False, mg_pred = zero_pred, mg_seenMark = zero_mark,
     mg_changes = False, mg_authenticSeen = False\<rparr>"

definition ha_New :: "HaConfig \<Rightarrow> ha_error + Manager" where
  "ha_New cfg =
     (if cf_InstanceID cfg = [] then Err ErrInvalidConfig
      else if \<not> ValidateCluster (cf_Cluster cfg) then Err ErrInvalidConfig
      else case ValidateTiming (cf_TTL cfg) (cf_Renew cfg) of Some e \<Rightarrow> Err e | None \<Rightarrow> Ok new_manager)"

record HaStatus =
  hst_Role :: Role
  hst_Epoch :: "64 word"
  hst_Holder :: string
  hst_LeaseHealthy :: bool
  hst_KeyMismatch :: bool

definition ha_Status :: "Manager \<Rightarrow> HaStatus" where
  "ha_Status m = \<lparr>hst_Role = mg_role m,
     hst_Epoch = (if mg_role m = RoleActive then ls_Epoch (mg_lease m) else mg_seenEpoch m),
     hst_Holder = ls_Holder (if mg_role m = RoleActive then mg_lease m else mg_seen m),
     hst_LeaseHealthy = mg_healthy m, hst_KeyMismatch = mg_keyMismatch m\<rparr>"

section \<open>Deadlines and the fencing check\<close>

definition deadlineLocked :: "HaConfig \<Rightarrow> Manager \<Rightarrow> go_time" where
  "deadlineLocked cfg m = mg_sentAt m + (cf_TTL cfg - cf_Renew cfg)"

definition expiredLocked :: "HaConfig \<Rightarrow> go_time \<Rightarrow> go_time \<Rightarrow> Manager \<Rightarrow> bool" where
  "expiredLocked cfg now wall m \<longleftrightarrow>
     \<not> now < deadlineLocked cfg m \<or> go_Sub wall (mg_sentWall m) \<ge> cf_TTL cfg - cf_Renew cfg"

definition Check :: "HaConfig \<Rightarrow> go_time \<Rightarrow> go_time \<Rightarrow> Manager \<Rightarrow> ha_error option" where
  "Check cfg now wall m =
     (if mg_role m \<noteq> RoleActive \<or> expiredLocked cfg now wall m then Some ErrNotActive else None)"

definition Epoch :: "Manager \<Rightarrow> 64 word" where
  "Epoch m = (if mg_role m \<noteq> RoleActive then 0 else ls_Epoch (mg_lease m))"

definition retryPause :: "HaConfig \<Rightarrow> duration" where
  "retryPause cfg = cf_Renew cfg sdiv 10"

definition untilNextStep :: "HaConfig \<Rightarrow> go_time \<Rightarrow> go_time \<Rightarrow> Manager \<Rightarrow> duration" where
  "untilNextStep cfg now wall m =
     (if mg_role m = RoleActive
      then let wait = (if mg_retrying m then retryPause cfg else cf_Renew cfg) in
           min (min wait (max (go_Sub (deadlineLocked cfg m) now) 0))
             (max (go_Sub (mg_sentWall m + (cf_TTL cfg - cf_Renew cfg)) wall) 0)
      else cf_Renew cfg)"

definition renewTimeout :: "HaConfig \<Rightarrow> duration \<Rightarrow> duration" where
  "renewTimeout cfg left = min (cf_Renew cfg) (max (left sdiv 2) (min left (cf_Renew cfg sdiv 2)))"

section \<open>Signatures\<close>

definition authentic :: "HaConfig \<Rightarrow> Lease \<Rightarrow> bool" where
  "authentic cfg l = (case cf_MACKey cfg of None \<Rightarrow> True | Some key \<Rightarrow> Authentic (cf_hmac cfg) (cf_timefmt cfg) key l)"

definition noteAuthentic :: "HaConfig \<Rightarrow> Lease \<Rightarrow> Manager \<Rightarrow> Manager" where
  "noteAuthentic cfg l m = (case cf_MACKey cfg of
     None \<Rightarrow> m
   | Some key \<Rightarrow> if Authentic (cf_hmac cfg) (cf_timefmt cfg) key l then m\<lparr>mg_authenticSeen := True\<rparr> else m)"

definition manager_encode :: "HaConfig \<Rightarrow> Lease \<Rightarrow> bool \<Rightarrow> lease_object" where
  "manager_encode cfg l sgd =
     (let l0 = l\<lparr>ls_MAC := []\<rparr> in
      lease_encode (case cf_MACKey cfg of
        Some key \<Rightarrow> if sgd then lease_sign (cf_hmac cfg) (cf_timefmt cfg) key l0 else l0
      | None \<Rightarrow> l0))"

definition assess :: "HaConfig \<Rightarrow> lease_object option \<Rightarrow> Manager \<Rightarrow> Predecessor" where
  "assess cfg prev m =
     (let pred = zero_pred\<lparr>pd_Mark := mg_seenMark m\<rparr> in
      case prev of
        None \<Rightarrow> pred
      | Some data \<Rightarrow>
         (case DecodeLease data of
            None \<Rightarrow> pred\<lparr>pd_Trust := LeaseUntrusted\<rparr>
          | Some l \<Rightarrow>
             if \<not> authentic cfg l \<and> ls_MAC l = [] then pred\<lparr>pd_Trust := LeaseUntrusted, pd_Lease := l, pd_Legacy := True\<rparr>
             else if \<not> authentic cfg l then pred\<lparr>pd_Trust := LeaseUntrusted, pd_Lease := l\<rparr>
             else pred\<lparr>pd_Trust := LeaseAuthentic, pd_Lease := l, pd_Mark := LaterMark (pd_Mark pred) (lease_SnapshotMark l)\<rparr>))"

section \<open>Stepping down\<close>

definition recordError :: "Manager \<Rightarrow> Manager" where
  "recordError m = m\<lparr>mg_leaseErrors := mg_leaseErrors m + 1, mg_healthy := False\<rparr>"

definition notify :: "Manager \<Rightarrow> Manager" where
  "notify m = m\<lparr>mg_changes := True\<rparr>"

definition stepDown :: "HaConfig \<Rightarrow> go_time \<Rightarrow> bool \<Rightarrow> Manager \<Rightarrow> Manager" where
  "stepDown cfg now cooldown m =
     (if mg_role m \<noteq> RoleActive then m
      else let m1 = m\<lparr>mg_role := RoleStandby, mg_seen := mg_lease m, mg_seenVersion := mg_version m,
                      mg_seenAt := mg_sentAt m\<rparr>;
               m2 = (if cooldown then m1\<lparr>mg_cooldownUntil := now + cf_TTL cfg\<rparr> else m1)
           in notify m2)"

section \<open>Renewal\<close>

datatype renew_start = RenewExpired Manager | RenewSend Lease lease_object string duration

definition renew_start :: "HaConfig \<Rightarrow> go_time \<Rightarrow> go_time \<Rightarrow> go_time \<Rightarrow> Manager \<Rightarrow> renew_start" where
  "renew_start cfg now wall utc m =
     (if expiredLocked cfg now wall m then RenewExpired (stepDown cfg now True m)
      else let next = (mg_lease m)\<lparr>ls_Seq := ls_Seq (mg_lease m) + 1, ls_RenewedAt := utc\<rparr>
           in RenewSend next (manager_encode cfg next (mg_signed m)) (mg_version m)
                (renewTimeout cfg (go_Sub (deadlineLocked cfg m) now)))"

definition renew_finish ::
  "HaConfig \<Rightarrow> Lease \<Rightarrow> go_time \<Rightarrow> go_time \<Rightarrow> store_error + string \<Rightarrow> go_time \<Rightarrow> go_time \<Rightarrow> Manager \<Rightarrow> Manager" where
  "renew_finish cfg next sent sentWall reply now wall m = (case reply of
     Ok newVersion \<Rightarrow> m\<lparr>mg_lease := next, mg_version := newVersion, mg_sentAt := sent, mg_sentWall := sentWall,
                       mg_healthy := True, mg_retrying := False\<rparr>
   | Err ErrPreconditionFailed \<Rightarrow> stepDown cfg now True (recordError m)
   | Err _ \<Rightarrow>
       let m1 = recordError m; expired = expiredLocked cfg now wall m1; m2 = m1\<lparr>mg_retrying := \<not> expired\<rparr>
       in if expired then stepDown cfg now True m2 else m2)"

definition renew ::
  "HaConfig \<Rightarrow> (lease_object \<Rightarrow> string \<Rightarrow> 's \<Rightarrow> (store_error + string) \<times> 's) \<Rightarrow> go_time \<Rightarrow> go_time \<Rightarrow> go_time
   \<Rightarrow> go_time \<Rightarrow> go_time \<Rightarrow> Manager \<Rightarrow> 's \<Rightarrow> Manager \<times> 's" where
  "renew cfg replace now wall utc now' wall' m s = (case renew_start cfg now wall utc m of
     RenewExpired m' \<Rightarrow> (m', s)
   | RenewSend next data version _ \<Rightarrow>
       (case replace data version s of (reply, s') \<Rightarrow> (renew_finish cfg next now wall reply now' wall' m, s')))"

section \<open>Observation and takeover\<close>

type_synonym acquire_args = "64 word \<times> 64 word \<times> lease_object option \<times> string"

definition observe_finish ::
  "HaConfig \<Rightarrow> store_error + (lease_object \<times> string) \<Rightarrow> go_time \<Rightarrow> Manager \<Rightarrow> Manager \<times> acquire_args option" where
  "observe_finish cfg reply now m = (case reply of
     Err ErrObjectNotFound \<Rightarrow>
       let m1 = m\<lparr>mg_healthy := True, mg_seen := zero_lease, mg_seenVersion := []\<rparr>
       in (m1, if now < mg_cooldownUntil m then None else Some (mg_seenEpoch m + 1, 1, None, []))
   | Err _ \<Rightarrow> (recordError m, None)
   | Ok (data, version) \<Rightarrow>
       let decoded = DecodeLease data;
           lease = (case decoded of Some l \<Rightarrow> l | None \<Rightarrow> zero_lease);
           m1 = (case decoded of Some l \<Rightarrow> noteAuthentic cfg l m | None \<Rightarrow> m)\<lparr>mg_healthy := True\<rparr>
       in if ls_KeyID lease \<noteq> [] \<and> cf_KeyID cfg \<noteq> [] \<and> ls_KeyID lease \<noteq> cf_KeyID cfg
          then (m1\<lparr>mg_keyMismatch := True\<rparr>, None)
          else
            let m2 = m1\<lparr>mg_keyMismatch := False\<rparr>;
                m3 = (if decoded \<noteq> None \<and> authentic cfg lease
                      then m2\<lparr>mg_seenMark := LaterMark (mg_seenMark m2) (lease_SnapshotMark lease)\<rparr> else m2);
                m4 = (if version \<noteq> mg_seenVersion m3
                      then m3\<lparr>mg_seen := lease, mg_seenVersion := version, mg_seenAt := now\<rparr> else m3);
                m5 = (if ls_Epoch lease > mg_seenEpoch m4 then m4\<lparr>mg_seenEpoch := ls_Epoch lease\<rparr> else m4);
                cooling = (now < mg_cooldownUntil m5);
                released = (decoded \<noteq> None \<and> Released lease);
                expired = (released \<or> go_Sub now (mg_seenAt m5) \<ge> max (cf_TTL cfg) (lease_ttl lease))
            in (m5, if cooling \<or> \<not> expired then None
                    else Some (mg_seenEpoch m5 + 1, ls_Seq lease + 1, Some data, version)))"

text \<open>\<open>Config.EpochFloor\<close> is the argument \<open>flr\<close>: \<open>None\<close> when it is not configured, else its result.\<close>

datatype acquire_start = AcquireDeferred Manager | AcquireSend Lease lease_object bool Predecessor

definition acquire_start ::
  "HaConfig \<Rightarrow> (unit + 64 word) option \<Rightarrow> go_time \<Rightarrow> acquire_args \<Rightarrow> Manager \<Rightarrow> acquire_start" where
  "acquire_start cfg flr utc args m = (case args of (epoch, seq, prev, version) \<Rightarrow>
     (let go = (\<lambda>epoch.
        let pred = assess cfg prev m;
            next = withSnapshotMark (pd_Mark pred)
              \<lparr>ls_Cluster = cf_Cluster cfg, ls_Holder = cf_InstanceID cfg, ls_HolderName = cf_InstanceName cfg,
               ls_Epoch = epoch, ls_Seq = seq, ls_RenewedAt = utc, ls_TTLSeconds = cf_TTL cfg sdiv go_Second,
               ls_KeyID = cf_KeyID cfg, ls_LastSnapshotEpoch = 0, ls_LastSnapshotAt = zero_time, ls_MAC = []\<rparr>;
            sgd = (pd_Trust pred = LeaseAuthentic)
        in AcquireSend next (manager_encode cfg next sgd) sgd pred)
      in case flr of
           None \<Rightarrow> go epoch
         | Some (Err _) \<Rightarrow> AcquireDeferred (recordError m)
         | Some (Ok f) \<Rightarrow> go (max epoch (f + 1))))"

definition acquire_finish ::
  "HaConfig \<Rightarrow> Lease \<Rightarrow> bool \<Rightarrow> Predecessor \<Rightarrow> bool \<Rightarrow> go_time \<Rightarrow> go_time \<Rightarrow> store_error + string \<Rightarrow> Manager \<Rightarrow> Manager" where
  "acquire_finish cfg next sgd pred fresh sent sentWall reply m = (case reply of
     Err ErrPreconditionFailed \<Rightarrow> m
   | Err _ \<Rightarrow> recordError m
   | Ok newVersion \<Rightarrow>
       let m1 = m\<lparr>mg_role := RoleActive, mg_lease := next, mg_version := newVersion, mg_sentAt := sent,
                  mg_sentWall := sentWall, mg_seen := next, mg_seenVersion := newVersion, mg_seenAt := sent,
                  mg_seenEpoch := ls_Epoch next, mg_healthy := True, mg_fresh := fresh, mg_retrying := False,
                  mg_signed := sgd, mg_pred := pred, mg_takeovers := mg_takeovers m + 1\<rparr>;
           m2 = (if sgd
                 then (case cf_MACKey cfg of
                         Some key \<Rightarrow> noteAuthentic cfg (lease_sign (cf_hmac cfg) (cf_timefmt cfg) key next) m1
                       | None \<Rightarrow> m1)
                 else m1)
       in notify m2)"

definition acquire ::
  "HaConfig \<Rightarrow> (lease_object \<Rightarrow> 's \<Rightarrow> (store_error + string) \<times> 's)
   \<Rightarrow> (lease_object \<Rightarrow> string \<Rightarrow> 's \<Rightarrow> (store_error + string) \<times> 's) \<Rightarrow> (unit + 64 word) option
   \<Rightarrow> go_time \<Rightarrow> go_time \<Rightarrow> go_time \<Rightarrow> acquire_args \<Rightarrow> Manager \<Rightarrow> 's \<Rightarrow> Manager \<times> 's" where
  "acquire cfg create replace flr utc sent sentWall args m s = (case args of (_, _, prev, version) \<Rightarrow>
     (case acquire_start cfg flr utc args m of
        AcquireDeferred m' \<Rightarrow> (m', s)
      | AcquireSend next data sgd pred \<Rightarrow>
          (case (if prev = None then create data s else replace data version s) of (reply, s') \<Rightarrow>
             (acquire_finish cfg next sgd pred (prev = None) sent sentWall reply m, s'))))"

definition observe ::
  "HaConfig \<Rightarrow> ('s \<Rightarrow> store_error + (lease_object \<times> string)) \<Rightarrow> (lease_object \<Rightarrow> 's \<Rightarrow> (store_error + string) \<times> 's)
   \<Rightarrow> (lease_object \<Rightarrow> string \<Rightarrow> 's \<Rightarrow> (store_error + string) \<times> 's) \<Rightarrow> (unit + 64 word) option
   \<Rightarrow> go_time \<Rightarrow> go_time \<Rightarrow> go_time \<Rightarrow> go_time \<Rightarrow> Manager \<Rightarrow> 's \<Rightarrow> Manager \<times> 's" where
  "observe cfg rd create replace flr now utc sent sentWall m s =
     (case observe_finish cfg (rd s) now m of
        (m', None) \<Rightarrow> (m', s)
      | (m', Some args) \<Rightarrow> acquire cfg create replace flr utc sent sentWall args m' s)"

definition AcquiredFresh :: "Manager \<Rightarrow> bool" where
  "AcquiredFresh m \<longleftrightarrow> mg_role m = RoleActive \<and> mg_fresh m"

section \<open>Confirmation, snapshots and release\<close>

text \<open>Confirm and RecordSnapshot change the held lease, then renew it at once.\<close>

definition Confirm_start :: "SnapshotMark \<Rightarrow> Manager \<Rightarrow> ha_error + Manager" where
  "Confirm_start mark m =
     (if mg_role m \<noteq> RoleActive then Err ErrNotActive
      else Ok (m\<lparr>mg_signed := True,
                mg_lease := withSnapshotMark (LaterMark (lease_SnapshotMark (mg_lease m)) mark) (mg_lease m)\<rparr>))"

definition Confirm_finish :: "HaConfig \<Rightarrow> go_time \<Rightarrow> go_time \<Rightarrow> Lease \<Rightarrow> Manager \<Rightarrow> ha_error option \<times> Manager" where
  "Confirm_finish cfg now wall held m = (case Check cfg now wall m of
     Some e \<Rightarrow> (Some e, m)
   | None \<Rightarrow> (None, case cf_MACKey cfg of
                     Some key \<Rightarrow> noteAuthentic cfg (lease_sign (cf_hmac cfg) (cf_timefmt cfg) key held) m
                   | None \<Rightarrow> m))"

definition RecordSnapshot_start :: "SnapshotMark \<Rightarrow> Manager \<Rightarrow> Manager option" where
  "RecordSnapshot_start mark m =
     (if mg_role m \<noteq> RoleActive \<or> \<not> mark_Before (lease_SnapshotMark (mg_lease m)) mark then None
      else Some (m\<lparr>mg_lease := withSnapshotMark mark (mg_lease m)\<rparr>))"

definition release_start :: "HaConfig \<Rightarrow> go_time \<Rightarrow> Manager \<Rightarrow> (Lease \<times> lease_object \<times> string) option" where
  "release_start cfg utc m =
     (if mg_role m \<noteq> RoleActive then None
      else let next = (mg_lease m)\<lparr>ls_Holder := [], ls_HolderName := [], ls_Seq := ls_Seq (mg_lease m) + 1,
                                   ls_RenewedAt := utc\<rparr>
           in Some (next, manager_encode cfg next (mg_signed m), mg_version m))"

definition release_finish :: "Lease \<Rightarrow> store_error + string \<Rightarrow> go_time \<Rightarrow> go_time \<Rightarrow> Manager \<Rightarrow> Manager" where
  "release_finish next reply now wall m = (case reply of
     Err _ \<Rightarrow> recordError m
   | Ok newVersion \<Rightarrow> m\<lparr>mg_lease := next, mg_version := newVersion, mg_sentAt := now, mg_sentWall := wall\<rparr>)"

definition Release ::
  "HaConfig \<Rightarrow> (lease_object \<Rightarrow> string \<Rightarrow> 's \<Rightarrow> (store_error + string) \<times> 's) \<Rightarrow> go_time \<Rightarrow> go_time \<Rightarrow> go_time
   \<Rightarrow> Manager \<Rightarrow> 's \<Rightarrow> Manager \<times> 's" where
  "Release cfg replace utc now wall m s = (case release_start cfg utc m of
     None \<Rightarrow> (stepDown cfg now True m, s)
   | Some (next, data, version) \<Rightarrow>
       (case replace data version s of (reply, s') \<Rightarrow>
          (stepDown cfg now True (release_finish next reply now wall m), s')))"

definition StepDown ::
  "HaConfig \<Rightarrow> (lease_object \<Rightarrow> string \<Rightarrow> 's \<Rightarrow> (store_error + string) \<times> 's) \<Rightarrow> go_time \<Rightarrow> go_time \<Rightarrow> go_time
   \<Rightarrow> bool \<Rightarrow> Manager \<Rightarrow> 's \<Rightarrow> Manager \<times> 's" where
  "StepDown cfg replace utc now wall release m s =
     (if release then Release cfg replace utc now wall m s else (stepDown cfg now True m, s))"

definition manager_Observe :: "HaConfig \<Rightarrow> store_error + (lease_object \<times> string) \<Rightarrow> ha_error option \<times> Lease" where
  "manager_Observe cfg reply = (case reply of
     Err e \<Rightarrow> (Some (ErrLeaseStore e), zero_lease)
   | Ok (data, _) \<Rightarrow>
      (case DecodeLease data of
         None \<Rightarrow> (Some ErrDecodeLease, zero_lease)
       | Some lease \<Rightarrow>
           (if ls_KeyID lease \<noteq> [] \<and> cf_KeyID cfg \<noteq> [] \<and> ls_KeyID lease \<noteq> cf_KeyID cfg
            then Some ErrKeyMismatch else None, lease)))"

end
