(* ===== verification/Ha_Cluster.thy ===== *)
theory Ha_Cluster
  imports Ha_Manager
begin

text \<open>
  A cluster of instances that share one lease store. Every instance runs the operations of
  \<open>Ha_Manager\<close>, one at a time (the mutex \<open>opMu\<close>), and a write is a request that travels to the store:
  it is applied at any later moment or never, and the instance may give up waiting (a timeout) while the
  request is still on its way. Instances may crash and start again at any moment. Every instance has its own
  monotonic clock, of the same rate as the others and with its own origin (\<open>cl_off\<close>); wall clocks are arbitrary.

  The history \<open>cl_hist\<close> of the writes the store accepted, with the instance, the time of sending and the time
  of the write, is a ghost: no operation reads it.
\<close>

section \<open>The step relation\<close>

record request =
  rq_id :: nat
  rq_by :: nat
  rq_cond :: "string option"
  rq_data :: lease_object
  rq_sent :: int

record store_write =
  wr_by :: nat
  wr_data :: lease_object
  wr_sent :: int
  wr_at :: int

type_synonym reply = "store_error + string"

datatype op = Idle
  | ReadDone "store_error + (lease_object \<times> string)"
  | AcquireWanted acquire_args
  | AcquireWait Lease bool Predecessor bool go_time go_time request "reply option"
  | RenewWait Lease go_time go_time request "reply option"
  | ReleaseWait Lease request "reply option"

record 's cluster =
  cl_time :: int
  cl_store :: 's
  cl_hist :: "store_write list"
  cl_mgr :: "nat \<Rightarrow> Manager"
  cl_op :: "nat \<Rightarrow> op"
  cl_net :: "request set"
  cl_off :: "nat \<Rightarrow> int"
  cl_next :: nat

definition clock :: "'s cluster \<Rightarrow> nat \<Rightarrow> go_time" where
  "clock S i = cl_time S + cl_off S i"

definition set_inst :: "nat \<Rightarrow> Manager \<Rightarrow> op \<Rightarrow> 's cluster \<Rightarrow> 's cluster" where
  "set_inst i m o' S = S\<lparr>cl_mgr := (cl_mgr S)(i := m), cl_op := (cl_op S)(i := o')\<rparr>"

definition send :: "request \<Rightarrow> 's cluster \<Rightarrow> 's cluster" where
  "send q S = S\<lparr>cl_net := insert q (cl_net S), cl_next := cl_next S + 1\<rparr>"

definition new_request :: "'s cluster \<Rightarrow> nat \<Rightarrow> string option \<Rightarrow> lease_object \<Rightarrow> request" where
  "new_request S i c d = \<lparr>rq_id = cl_next S, rq_by = i, rq_cond = c, rq_data = d, rq_sent = cl_time S\<rparr>"

text \<open>A delivered request is applied to the store; the instance gets the reply if it still waits for it.\<close>

definition put_reply :: "request \<Rightarrow> reply \<Rightarrow> op \<Rightarrow> op" where
  "put_reply q r o' = (case o' of
     AcquireWait n s p f t w q' _ \<Rightarrow> if q' = q then AcquireWait n s p f t w q' (Some r) else o'
   | RenewWait n t w q' _ \<Rightarrow> if q' = q then RenewWait n t w q' (Some r) else o'
   | ReleaseWait n q' _ \<Rightarrow> if q' = q then ReleaseWait n q' (Some r) else o'
   | _ \<Rightarrow> o')"

definition apply_request ::
  "(lease_object \<Rightarrow> 's \<Rightarrow> reply \<times> 's) \<Rightarrow> (lease_object \<Rightarrow> string \<Rightarrow> 's \<Rightarrow> reply \<times> 's) \<Rightarrow> request \<Rightarrow> 's \<Rightarrow> reply \<times> 's" where
  "apply_request create replace q s = (case rq_cond q of
     None \<Rightarrow> create (rq_data q) s | Some v \<Rightarrow> replace (rq_data q) v s)"

definition deliver ::
  "(lease_object \<Rightarrow> 's \<Rightarrow> reply \<times> 's) \<Rightarrow> (lease_object \<Rightarrow> string \<Rightarrow> 's \<Rightarrow> reply \<times> 's) \<Rightarrow> request \<Rightarrow> 's cluster \<Rightarrow> 's cluster" where
  "deliver create replace q S = (case apply_request create replace q (cl_store S) of (r, s') \<Rightarrow>
     S\<lparr>cl_store := s', cl_net := cl_net S - {q},
       cl_hist := (case r of
         Ok _ \<Rightarrow> cl_hist S @ [\<lparr>wr_by = rq_by q, wr_data = rq_data q, wr_sent = rq_sent q, wr_at = cl_time S\<rparr>]
       | Err _ \<Rightarrow> cl_hist S),
       cl_op := (cl_op S)(rq_by q := put_reply q r (cl_op S (rq_by q)))\<rparr>)"

text \<open>The reply an instance gets: the store's, or an error of its own (a timeout, a lost connection).\<close>

definition may_reply :: "reply option \<Rightarrow> reply \<Rightarrow> bool" where
  "may_reply r reply \<longleftrightarrow> r = Some reply \<or> (\<exists>e. reply = Err e \<and> e \<noteq> ErrPreconditionFailed)"

definition floor_below :: "nat \<Rightarrow> (unit + 64 word) option \<Rightarrow> bool" where
  "floor_below F flr \<longleftrightarrow> (case flr of Some (Ok f) \<Rightarrow> unat f \<le> F | _ \<Rightarrow> True)"

inductive cluster_step ::
  "(nat \<Rightarrow> HaConfig) \<Rightarrow> nat \<Rightarrow> ('s \<Rightarrow> store_error + (lease_object \<times> string)) \<Rightarrow> (lease_object \<Rightarrow> 's \<Rightarrow> reply \<times> 's)
   \<Rightarrow> (lease_object \<Rightarrow> string \<Rightarrow> 's \<Rightarrow> reply \<times> 's) \<Rightarrow> 's cluster \<Rightarrow> 's cluster \<Rightarrow> bool"
  for cfgs F rd create replace where
  Tick: "0 \<le> d \<Longrightarrow> cluster_step cfgs F rd create replace S (S\<lparr>cl_time := cl_time S + d\<rparr>)"
| Deliver: "q \<in> cl_net S \<Longrightarrow> cluster_step cfgs F rd create replace S (deliver create replace q S)"
| RenewLate: "cl_op S i = Idle \<Longrightarrow> mg_role (cl_mgr S i) = RoleActive
    \<Longrightarrow> renew_start (cfgs i) (clock S i) wall utc (cl_mgr S i) = RenewExpired m
    \<Longrightarrow> cluster_step cfgs F rd create replace S (set_inst i m Idle S)"
| RenewStart: "cl_op S i = Idle \<Longrightarrow> mg_role (cl_mgr S i) = RoleActive
    \<Longrightarrow> renew_start (cfgs i) (clock S i) wall utc (cl_mgr S i) = RenewSend next data version timeout
    \<Longrightarrow> q = new_request S i (Some version) data
    \<Longrightarrow> cluster_step cfgs F rd create replace S
          (send q (set_inst i (cl_mgr S i) (RenewWait next (clock S i) wall q None) S))"
| RenewFinish: "cl_op S i = RenewWait next sent sentWall q r \<Longrightarrow> may_reply r reply
    \<Longrightarrow> cluster_step cfgs F rd create replace S
          (set_inst i (renew_finish (cfgs i) next sent sentWall reply (clock S i) wall (cl_mgr S i)) Idle S)"
| ConfirmStart: "cl_op S i = Idle \<Longrightarrow> Confirm_start mark (cl_mgr S i) = Ok m
    \<Longrightarrow> cluster_step cfgs F rd create replace S (set_inst i m Idle S)"
| SnapshotStart: "cl_op S i = Idle \<Longrightarrow> RecordSnapshot_start mark (cl_mgr S i) = Some m
    \<Longrightarrow> cluster_step cfgs F rd create replace S (set_inst i m Idle S)"
| Read: "cl_op S i = Idle \<Longrightarrow> mg_role (cl_mgr S i) = RoleStandby
    \<Longrightarrow> reply = rd (cl_store S) \<or> (\<exists>e. reply = Err e \<and> e \<noteq> ErrObjectNotFound)
    \<Longrightarrow> cluster_step cfgs F rd create replace S (set_inst i (cl_mgr S i) (ReadDone reply) S)"
| ObserveStop: "cl_op S i = ReadDone rr
    \<Longrightarrow> observe_finish (cfgs i) rr (clock S i) (cl_mgr S i) = (m, None)
    \<Longrightarrow> cluster_step cfgs F rd create replace S (set_inst i m Idle S)"
| ObserveAcquire: "cl_op S i = ReadDone rr
    \<Longrightarrow> observe_finish (cfgs i) rr (clock S i) (cl_mgr S i) = (m, Some args)
    \<Longrightarrow> cluster_step cfgs F rd create replace S (set_inst i m (AcquireWanted args) S)"
| AcquireDefer: "cl_op S i = AcquireWanted args
    \<Longrightarrow> acquire_start (cfgs i) flr utc args (cl_mgr S i) = AcquireDeferred m
    \<Longrightarrow> cluster_step cfgs F rd create replace S (set_inst i m Idle S)"
| AcquireStart: "cl_op S i = AcquireWanted (epoch, seq, prev, version) \<Longrightarrow> floor_below F flr
    \<Longrightarrow> acquire_start (cfgs i) flr utc (epoch, seq, prev, version) (cl_mgr S i) = AcquireSend next data sgd pred
    \<Longrightarrow> q = new_request S i (if prev = None then None else Some version) data
    \<Longrightarrow> cluster_step cfgs F rd create replace S
          (send q (set_inst i (cl_mgr S i) (AcquireWait next sgd pred (prev = None) (clock S i) wall q None) S))"
| AcquireFinish: "cl_op S i = AcquireWait next sgd pred fresh sent sentWall q r \<Longrightarrow> may_reply r reply
    \<Longrightarrow> cluster_step cfgs F rd create replace S
          (set_inst i (acquire_finish (cfgs i) next sgd pred fresh sent sentWall reply (cl_mgr S i)) Idle S)"
| ReleaseStart: "cl_op S i = Idle
    \<Longrightarrow> release_start (cfgs i) utc (cl_mgr S i) = Some (next, data, version)
    \<Longrightarrow> q = new_request S i (Some version) data
    \<Longrightarrow> cluster_step cfgs F rd create replace S
          (send q (set_inst i (cl_mgr S i) (ReleaseWait next q None) S))"
| ReleaseFinish: "cl_op S i = ReleaseWait next q r \<Longrightarrow> may_reply r reply
    \<Longrightarrow> cluster_step cfgs F rd create replace S
          (set_inst i (stepDown (cfgs i) (clock S i) True (release_finish next reply (clock S i) wall (cl_mgr S i))) Idle S)"
| GiveUp: "cl_op S i = Idle
    \<Longrightarrow> cluster_step cfgs F rd create replace S (set_inst i (stepDown (cfgs i) (clock S i) True (cl_mgr S i)) Idle S)"
| Restart: "cluster_step cfgs F rd create replace S
     ((set_inst i new_manager Idle S)\<lparr>cl_off := (cl_off S)(i := off')\<rparr>)"

text \<open>A cluster starts with an empty lease key and standby instances.\<close>

definition cluster_init :: "('s \<Rightarrow> lease_object option) \<Rightarrow> 's cluster \<Rightarrow> bool" where
  "cluster_init obj S \<longleftrightarrow> obj (cl_store S) = None \<and> cl_hist S = [] \<and> cl_mgr S = (\<lambda>_. new_manager)
     \<and> cl_op S = (\<lambda>_. Idle) \<and> cl_net S = {}"

inductive cluster_reach ::
  "(nat \<Rightarrow> HaConfig) \<Rightarrow> nat \<Rightarrow> ('s \<Rightarrow> store_error + (lease_object \<times> string)) \<Rightarrow> (lease_object \<Rightarrow> 's \<Rightarrow> reply \<times> 's)
   \<Rightarrow> (lease_object \<Rightarrow> string \<Rightarrow> 's \<Rightarrow> reply \<times> 's) \<Rightarrow> ('s \<Rightarrow> lease_object option) \<Rightarrow> 's cluster \<Rightarrow> bool"
  for cfgs F rd create replace obj where
  reach_init: "cluster_init obj S \<Longrightarrow> cluster_reach cfgs F rd create replace obj S"
| reach_step: "cluster_reach cfgs F rd create replace obj S \<Longrightarrow> cluster_step cfgs F rd create replace S S'
    \<Longrightarrow> cluster_reach cfgs F rd create replace obj S'"

section \<open>The invariant\<close>

definition releasing :: "op \<Rightarrow> bool" where
  "releasing o' \<longleftrightarrow> (case o' of ReleaseWait _ _ _ \<Rightarrow> True | _ \<Rightarrow> False)"

definition lease_of :: "lease_object \<Rightarrow> Lease" where
  "lease_of d = (case d of LeaseObject l \<Rightarrow> l | UnreadableObject _ \<Rightarrow> zero_lease)"

text \<open>The condition of a request holds when the history has \<open>p\<close> entries: none yet, or the named version last.\<close>

definition cpos :: "(lease_object \<Rightarrow> string) \<Rightarrow> store_write list \<Rightarrow> string option \<Rightarrow> nat \<Rightarrow> bool" where
  "cpos ver h c p = (case c of
     None \<Rightarrow> p = 0
   | Some v \<Rightarrow> 0 < p \<and> p \<le> length h \<and> ver (wr_data (h ! (p - 1))) = v)"

text \<open>What every write of instance \<open>i\<close> at position \<open>p\<close> satisfies.\<close>

definition follows :: "(nat \<Rightarrow> HaConfig) \<Rightarrow> nat \<Rightarrow> store_write list \<Rightarrow> nat \<Rightarrow> nat \<Rightarrow> Lease \<Rightarrow> int \<Rightarrow> bool" where
  "follows cfgs F h i p l t \<longleftrightarrow>
     ls_Seq l = of_nat (p + 1) \<and> ls_TTLSeconds l = cf_TTL (cfgs i) sdiv go_Second \<and> unat (ls_Epoch l) \<le> F + p + 1
     \<and> (0 < p \<longrightarrow> (let w = h ! (p - 1); l' = lease_of (wr_data w) in
          ls_Epoch l' \<le> ls_Epoch l
          \<and> (wr_by w \<noteq> i \<longrightarrow> ls_Epoch l' < ls_Epoch l \<and> (Released l' \<or> wr_at w + ls_TTLSeconds l' * go_Second \<le> t))))"

definition hist_ok :: "(nat \<Rightarrow> HaConfig) \<Rightarrow> nat \<Rightarrow> int \<Rightarrow> store_write list \<Rightarrow> bool" where
  "hist_ok cfgs F t h \<longleftrightarrow> (\<forall>k < length h. let w = h ! k in
     wr_data w = LeaseObject (lease_of (wr_data w)) \<and> follows cfgs F h (wr_by w) k (lease_of (wr_data w)) (wr_sent w)
     \<and> wr_sent w \<le> wr_at w \<and> wr_at w \<le> t \<and> (0 < k \<longrightarrow> wr_at (h ! (k - 1)) \<le> wr_at w))"

definition req_ok :: "(lease_object \<Rightarrow> string) \<Rightarrow> (nat \<Rightarrow> HaConfig) \<Rightarrow> nat \<Rightarrow> int \<Rightarrow> store_write list \<Rightarrow> request \<Rightarrow> bool" where
  "req_ok ver cfgs F t h q \<longleftrightarrow> rq_data q = LeaseObject (lease_of (rq_data q)) \<and> rq_sent q \<le> t
     \<and> (\<exists>p. cpos ver h (rq_cond q) p \<and> follows cfgs F h (rq_by q) p (lease_of (rq_data q)) (rq_sent q))"

text \<open>Everything instance \<open>i\<close> wrote or has under way was based on the first \<open>p\<close> entries.\<close>

definition upto_pos :: "(lease_object \<Rightarrow> string) \<Rightarrow> store_write list \<Rightarrow> request set \<Rightarrow> nat \<Rightarrow> nat \<Rightarrow> bool" where
  "upto_pos ver h net i p \<longleftrightarrow>
     (\<forall>q \<in> net. rq_by q = i \<longrightarrow> (\<exists>r \<le> p. cpos ver h (rq_cond q) r))
     \<and> (\<forall>k. p < k \<and> k < length h \<longrightarrow> wr_by (h ! k) \<noteq> i)"

definition active_ok ::
  "(lease_object \<Rightarrow> string) \<Rightarrow> (nat \<Rightarrow> HaConfig) \<Rightarrow> store_write list \<Rightarrow> request set \<Rightarrow> int \<Rightarrow> nat \<Rightarrow> Manager \<Rightarrow> bool \<Rightarrow> bool" where
  "active_ok ver cfgs h net off i m rel \<longleftrightarrow> (\<exists>p. cpos ver h (Some (mg_version m)) p \<and> upto_pos ver h net i p \<and>
     (let w = h ! (p - 1); l = lease_of (wr_data w) in
      wr_by w = i \<and> mg_sentAt m = wr_sent w + off \<and> \<not> Released l \<and> \<not> Released (mg_lease m)
      \<and> ls_Seq (mg_lease m) = of_nat p \<and> ls_Epoch (mg_lease m) = ls_Epoch l
      \<and> ls_TTLSeconds (mg_lease m) = cf_TTL (cfgs i) sdiv go_Second)
     \<and> (\<not> rel \<longrightarrow> (p < length h \<and> wr_by (h ! p) = i \<longrightarrow> \<not> Released (lease_of (wr_data (h ! p))))
         \<and> (\<forall>q \<in> net. rq_by q = i \<and> rq_cond q = Some (mg_version m) \<longrightarrow> \<not> Released (lease_of (rq_data q)))))"

definition seen_ok :: "(lease_object \<Rightarrow> string) \<Rightarrow> nat \<Rightarrow> store_write list \<Rightarrow> int \<Rightarrow> nat \<Rightarrow> Manager \<Rightarrow> bool" where
  "seen_ok ver F h off i m \<longleftrightarrow> unat (mg_seenEpoch m) \<le> F + length h \<and>
     (mg_seenVersion m = [] \<or> (\<exists>p. cpos ver h (Some (mg_seenVersion m)) p
        \<and> (wr_by (h ! (p - 1)) \<noteq> i \<longrightarrow> wr_at (h ! (p - 1)) + off \<le> mg_seenAt m)))"

text \<open>The reply \<open>r\<close> of request \<open>q\<close> with its condition at position \<open>p\<close>: a success means the write is entry \<open>p\<close>.\<close>

definition reply_ok :: "(lease_object \<Rightarrow> string) \<Rightarrow> store_write list \<Rightarrow> nat \<Rightarrow> request \<Rightarrow> reply option \<Rightarrow> nat \<Rightarrow> bool" where
  "reply_ok ver h i q r p \<longleftrightarrow> (\<forall>v. r = Some (Ok v) \<longrightarrow>
     p < length h \<and> wr_by (h ! p) = i \<and> wr_data (h ! p) = rq_data q \<and> wr_sent (h ! p) = rq_sent q \<and> v = ver (rq_data q))"

definition same_lease :: "Lease \<Rightarrow> lease_object \<Rightarrow> bool" where
  "same_lease l d \<longleftrightarrow> (\<exists>l'. d = LeaseObject l' \<and> ls_Seq l' = ls_Seq l \<and> ls_Epoch l' = ls_Epoch l
     \<and> ls_Holder l' = ls_Holder l \<and> ls_TTLSeconds l' = ls_TTLSeconds l)"

definition op_ok ::
  "(lease_object \<Rightarrow> string) \<Rightarrow> (nat \<Rightarrow> HaConfig) \<Rightarrow> nat \<Rightarrow> int \<Rightarrow> store_write list \<Rightarrow> request set \<Rightarrow> int \<Rightarrow> nat \<Rightarrow> Manager \<Rightarrow> op \<Rightarrow> bool" where
  "op_ok ver cfgs F t h net off i m o' = (case o' of
     Idle \<Rightarrow> True
   | ReadDone (Ok (data, v)) \<Rightarrow> mg_role m = RoleStandby \<and> (\<exists>p. cpos ver h (Some v) p \<and> data = wr_data (h ! (p - 1))
       \<and> upto_pos ver h net i p \<and> unat (mg_seenEpoch m) \<le> F + p)
   | ReadDone (Err e) \<Rightarrow> mg_role m = RoleStandby
       \<and> (e = ErrObjectNotFound \<longrightarrow> upto_pos ver h net i 0 \<and> unat (mg_seenEpoch m) \<le> F)
   | AcquireWanted (e, s, prev, v) \<Rightarrow> mg_role m = RoleStandby
       \<and> (\<exists>p. cpos ver h (if prev = None then None else Some v) p \<and> upto_pos ver h net i p
           \<and> s = of_nat (p + 1) \<and> unat e \<le> F + p + 1
           \<and> (0 < p \<longrightarrow> (let w = h ! (p - 1); l' = lease_of (wr_data w) in ls_Epoch l' < e
                \<and> (wr_by w \<noteq> i \<longrightarrow> Released l' \<or> wr_at w + ls_TTLSeconds l' * go_Second \<le> t))))
   | AcquireWait next sgd pred fresh sent sentWall q r \<Rightarrow> mg_role m = RoleStandby \<and> rq_by q = i
       \<and> sent = rq_sent q + off \<and> same_lease next (rq_data q) \<and> \<not> Released next
       \<and> (\<exists>p. cpos ver h (rq_cond q) p \<and> upto_pos ver h net i p \<and> follows cfgs F h i p next (rq_sent q)
           \<and> reply_ok ver h i q r p)
   | RenewWait next sent sentWall q r \<Rightarrow> mg_role m = RoleActive \<and> rq_by q = i \<and> rq_cond q = Some (mg_version m)
       \<and> sent = rq_sent q + off \<and> same_lease next (rq_data q) \<and> \<not> Released next
       \<and> ls_Seq next = ls_Seq (mg_lease m) + 1 \<and> ls_TTLSeconds next = ls_TTLSeconds (mg_lease m)
       \<and> (\<exists>p. cpos ver h (rq_cond q) p \<and> reply_ok ver h i q r p)
   | ReleaseWait next q r \<Rightarrow> mg_role m = RoleActive \<and> rq_by q = i \<and> rq_cond q = Some (mg_version m)
       \<and> (\<exists>p. cpos ver h (rq_cond q) p \<and> reply_ok ver h i q r p))"

definition inst_ok ::
  "(lease_object \<Rightarrow> string) \<Rightarrow> (nat \<Rightarrow> HaConfig) \<Rightarrow> nat \<Rightarrow> int \<Rightarrow> store_write list \<Rightarrow> request set \<Rightarrow> int \<Rightarrow> nat \<Rightarrow> Manager \<Rightarrow> op \<Rightarrow> bool" where
  "inst_ok ver cfgs F t h net off i m o' \<longleftrightarrow> seen_ok ver F h off i m \<and> op_ok ver cfgs F t h net off i m o'
     \<and> (mg_role m = RoleActive \<longrightarrow> active_ok ver cfgs h net off i m (releasing o'))"

definition last_object :: "store_write list \<Rightarrow> lease_object option" where
  "last_object h = (if h = [] then None else Some (wr_data (last h)))"

definition cluster_inv ::
  "(lease_object \<Rightarrow> string) \<Rightarrow> ('s \<Rightarrow> lease_object option) \<Rightarrow> (lease_object \<Rightarrow> bool) \<Rightarrow> (nat \<Rightarrow> HaConfig) \<Rightarrow> nat
   \<Rightarrow> 's cluster \<Rightarrow> bool" where
  "cluster_inv ver obj fits cfgs F S \<longleftrightarrow>
     obj (cl_store S) = last_object (cl_hist S)
     \<and> (\<forall>w \<in> set (cl_hist S). fits (wr_data w))
     \<and> hist_ok cfgs F (cl_time S) (cl_hist S)
     \<and> (\<forall>q \<in> cl_net S. req_ok ver cfgs F (cl_time S) (cl_hist S) q)
     \<and> (\<forall>i. inst_ok ver cfgs F (cl_time S) (cl_hist S) (cl_net S) (cl_off S i) i (cl_mgr S i) (cl_op S i))"

text \<open>What the proofs rely on: distinct sequence numbers give distinct, non-empty versions, and every
  configuration was accepted by \<open>New\<close>.\<close>

definition distinct_versions :: "(lease_object \<Rightarrow> string) \<Rightarrow> bool" where
  "distinct_versions ver \<longleftrightarrow> (\<forall>a b. ls_Seq a \<noteq> ls_Seq b \<longrightarrow> ver (LeaseObject a) \<noteq> ver (LeaseObject b))
     \<and> (\<forall>d. ver d \<noteq> [])"

definition valid_configs :: "(nat \<Rightarrow> HaConfig) \<Rightarrow> bool" where
  "valid_configs cfgs \<longleftrightarrow> (\<forall>i. ha_New (cfgs i) = Ok new_manager)"

end
