(* ===== verification/Ha_Cluster_Inv.thy ===== *)
theory Ha_Cluster_Inv
  imports Ha_Cluster
begin

text \<open>
  The invariant of the cluster is preserved by every step. The first part shows how each conjunct
  survives a longer history, a new request and the passing of time; the second part treats the steps of an instance.
\<close>

section \<open>Positions\<close>

lemma cpos_le: "cpos ver h c p \<Longrightarrow> p \<le> length h"
  by (auto simp: cpos_def split: option.splits)

lemma cpos_append: "cpos ver h c p \<Longrightarrow> cpos ver (h @ h') c p"
  by (auto simp: cpos_def nth_append split: option.splits)

lemma cpos_last: "h \<noteq> [] \<Longrightarrow> cpos ver h (Some (ver (wr_data (last h)))) (length h)"
  by (simp add: cpos_def last_conv_nth)

lemma cpos_same: "cpos ver h (Some v) p \<Longrightarrow> cpos ver h c p \<Longrightarrow> c = Some v"
  by (auto simp: cpos_def split: option.splits)

lemma unat_of_nat64: "a < 2 ^ 64 \<Longrightarrow> unat (of_nat a :: 64 word) = a"
  unfolding unat_of_nat by (rule mod_less) simp

lemma of_nat_word64_inj: "a < 2 ^ 64 \<Longrightarrow> b < 2 ^ 64 \<Longrightarrow> (of_nat a :: 64 word) = of_nat b \<Longrightarrow> a = b"
  by (drule arg_cong [where f = unat]) (simp only: unat_of_nat64)

lemma hist_ok_nth:
  assumes "hist_ok cfgs F t h" "k < length h"
  shows "wr_data (h ! k) = LeaseObject (lease_of (wr_data (h ! k)))"
    "follows cfgs F h (wr_by (h ! k)) k (lease_of (wr_data (h ! k))) (wr_sent (h ! k))"
    "wr_sent (h ! k) \<le> wr_at (h ! k)" "wr_at (h ! k) \<le> t"
    "0 < k \<Longrightarrow> wr_at (h ! (k - 1)) \<le> wr_at (h ! k)"
  using assms by (auto simp: hist_ok_def Let_def)

lemma hist_ok_seq: "hist_ok cfgs F t h \<Longrightarrow> k < length h \<Longrightarrow> ls_Seq (lease_of (wr_data (h ! k))) = of_nat (k + 1)"
  using hist_ok_nth(2) by (auto simp: follows_def)

lemma cpos_unique:
  assumes "hist_ok cfgs F t h" "length h < 2 ^ 64" "distinct_versions ver" "cpos ver h c p" "cpos ver h c r"
  shows "p = r"
proof (cases c)
  case None
  then show ?thesis using assms by (simp add: cpos_def)
next
  case (Some v)
  let ?l = "\<lambda>k. lease_of (wr_data (h ! (k - 1)))"
  have b: "0 < p" "p \<le> length h" "0 < r" "r \<le> length h"
    and v: "ver (wr_data (h ! (p - 1))) = ver (wr_data (h ! (r - 1)))"
    using assms(4,5) Some by (auto simp: cpos_def)
  have d: "wr_data (h ! (p - 1)) = LeaseObject (?l p)" "wr_data (h ! (r - 1)) = LeaseObject (?l r)"
    using hist_ok_nth(1) [OF assms(1)] b by simp_all
  have "ls_Seq (?l p) = ls_Seq (?l r)"
  proof (rule ccontr)
    assume "ls_Seq (?l p) \<noteq> ls_Seq (?l r)"
    with assms(3) have "ver (LeaseObject (?l p)) \<noteq> ver (LeaseObject (?l r))"
      by (simp add: distinct_versions_def)
    with v d show False by simp
  qed
  then have "(of_nat p :: 64 word) = of_nat r"
    using hist_ok_seq [OF assms(1), of "p - 1"] hist_ok_seq [OF assms(1), of "r - 1"] b by simp
  with b assms(2) show ?thesis by (intro of_nat_word64_inj) auto
qed

section \<open>A longer history\<close>

lemma follows_append: "p \<le> length h \<Longrightarrow> follows cfgs F (h @ h') i p l t = follows cfgs F h i p l t"
  by (auto simp: follows_def nth_append)

lemma hist_ok_snoc:
  assumes "hist_ok cfgs F t h" "follows cfgs F h (wr_by w) (length h) (lease_of (wr_data w)) (wr_sent w)"
    "wr_data w = LeaseObject (lease_of (wr_data w))" "wr_sent w \<le> t" "wr_at w = t"
  shows "hist_ok cfgs F t (h @ [w])"
  unfolding hist_ok_def Let_def
proof (intro allI impI)
  fix k assume k: "k < length (h @ [w])"
  show "wr_data ((h @ [w]) ! k) = LeaseObject (lease_of (wr_data ((h @ [w]) ! k)))
    \<and> follows cfgs F (h @ [w]) (wr_by ((h @ [w]) ! k)) k (lease_of (wr_data ((h @ [w]) ! k))) (wr_sent ((h @ [w]) ! k))
    \<and> wr_sent ((h @ [w]) ! k) \<le> wr_at ((h @ [w]) ! k) \<and> wr_at ((h @ [w]) ! k) \<le> t
    \<and> (0 < k \<longrightarrow> wr_at ((h @ [w]) ! (k - 1)) \<le> wr_at ((h @ [w]) ! k))"
  proof (cases "k < length h")
    case True
    then have "(h @ [w]) ! k = h ! k" "(h @ [w]) ! (k - 1) = h ! (k - 1)" by (simp_all add: nth_append)
    with hist_ok_nth [OF assms(1) True] True show ?thesis by (simp add: follows_append)
  next
    case False
    with k have "k = length h" by simp
    moreover have "0 < k \<Longrightarrow> wr_at (h ! (k - 1)) \<le> t" if "k = length h"
      using hist_ok_nth(4) [OF assms(1), of "k - 1"] that by simp
    ultimately show ?thesis using assms(2-5) by (simp add: follows_append) (simp add: nth_append)
  qed
qed

lemma hist_ok_later: "hist_ok cfgs F t h \<Longrightarrow> t \<le> t' \<Longrightarrow> hist_ok cfgs F t' h"
  unfolding hist_ok_def Let_def by (intro allI impI) (drule spec, drule (1) mp, auto)

lemma req_ok_append: "req_ok ver cfgs F t h q \<Longrightarrow> req_ok ver cfgs F t (h @ h') q"
  unfolding req_ok_def by (elim conjE exE, intro conjI exI, assumption+, erule cpos_append) (simp add: cpos_le follows_append)

lemma req_ok_later: "req_ok ver cfgs F t h q \<Longrightarrow> t \<le> t' \<Longrightarrow> req_ok ver cfgs F t' h q"
  by (auto simp: req_ok_def)

lemma reply_ok_append: "reply_ok ver h i q r p \<Longrightarrow> reply_ok ver (h @ h') i q r p"
  unfolding reply_ok_def by (intro allI impI, drule spec, drule (1) mp) (simp add: nth_append)

lemma seen_ok_append:
  assumes "seen_ok ver F h off i m"
  shows "seen_ok ver F (h @ h') off i m"
proof -
  have "\<exists>p. cpos ver (h @ h') (Some (mg_seenVersion m)) p
        \<and> (wr_by ((h @ h') ! (p - 1)) \<noteq> i \<longrightarrow> wr_at ((h @ h') ! (p - 1)) + off \<le> mg_seenAt m)"
    if "cpos ver h (Some (mg_seenVersion m)) p" "wr_by (h ! (p - 1)) \<noteq> i \<longrightarrow> wr_at (h ! (p - 1)) + off \<le> mg_seenAt m" for p
  proof -
    have "p - 1 < length h" using that(1) by (auto simp: cpos_def)
    then have "(h @ h') ! (p - 1) = h ! (p - 1)" by (simp add: nth_append)
    then show ?thesis using that cpos_append [OF that(1)] by metis
  qed
  then show ?thesis using assms unfolding seen_ok_def by auto
qed

section \<open>Deliveries\<close>

lemma upto_deliver:
  assumes "upto_pos ver h net i p" "q \<in> net" "cpos ver h (rq_cond q) (length h)" "wr_by w = rq_by q"
    and unique: "\<And>c p r. cpos ver h c p \<Longrightarrow> cpos ver h c r \<Longrightarrow> p = r"
  shows "upto_pos ver (h @ [w]) (net - {q}) i p"
  unfolding upto_pos_def
proof (intro conjI ballI allI impI)
  fix q' assume "q' \<in> net - {q}" "rq_by q' = i"
  then obtain r where "r \<le> p" "cpos ver h (rq_cond q') r" using assms(1) by (auto simp: upto_pos_def)
  then show "\<exists>r\<le>p. cpos ver (h @ [w]) (rq_cond q') r" using cpos_append by blast
next
  fix k assume k: "p < k \<and> k < length (h @ [w])"
  show "wr_by ((h @ [w]) ! k) \<noteq> i"
  proof (cases "k < length h")
    case True
    then show ?thesis using assms(1) k by (simp add: upto_pos_def nth_append)
  next
    case False
    with k have k: "k = length h" "p < length h" by auto
    have "rq_by q \<noteq> i"
    proof
      assume "rq_by q = i"
      then obtain r where "r \<le> p" "cpos ver h (rq_cond q) r" using assms(1,2) by (auto simp: upto_pos_def)
      with unique [OF assms(3)] k(2) show False by auto
    qed
    then show ?thesis using k assms(4) by (simp add: nth_append)
  qed
qed

lemma active_ok_deliver:
  assumes a: "active_ok ver cfgs h net off i m rel" and q: "q \<in> net" "cpos ver h (rq_cond q) (length h)"
    and w: "wr_by w = rq_by q" "wr_data w = rq_data q"
    and unique: "\<And>c p r. cpos ver h c p \<Longrightarrow> cpos ver h c r \<Longrightarrow> p = r"
  shows "active_ok ver cfgs (h @ [w]) (net - {q}) off i m rel"
proof -
  obtain p where p: "cpos ver h (Some (mg_version m)) p" "upto_pos ver h net i p"
     "let v = h ! (p - 1); l = lease_of (wr_data v) in
      wr_by v = i \<and> mg_sentAt m = wr_sent v + off \<and> \<not> Released l \<and> \<not> Released (mg_lease m)
      \<and> ls_Seq (mg_lease m) = of_nat p \<and> ls_Epoch (mg_lease m) = ls_Epoch l
      \<and> ls_TTLSeconds (mg_lease m) = cf_TTL (cfgs i) sdiv go_Second"
     "\<not> rel \<longrightarrow> (p < length h \<and> wr_by (h ! p) = i \<longrightarrow> \<not> Released (lease_of (wr_data (h ! p))))
         \<and> (\<forall>q \<in> net. rq_by q = i \<and> rq_cond q = Some (mg_version m) \<longrightarrow> \<not> Released (lease_of (rq_data q)))"
    using a unfolding active_ok_def by blast
  have len: "p - 1 < length h" "p \<le> length h" using p(1) by (auto simp: cpos_def)
  have nth: "(h @ [w]) ! (p - 1) = h ! (p - 1)" using len by (simp add: nth_append)
  have "\<not> Released (lease_of (wr_data ((h @ [w]) ! p)))" if "\<not> rel" "wr_by ((h @ [w]) ! p) = i"
  proof (cases "p < length h")
    case True
    then show ?thesis using p(4) that by (simp add: nth_append)
  next
    case False
    then have "p = length h" using len by simp
    with that w have "rq_by q = i" "rq_cond q = Some (mg_version m)"
      using cpos_same [OF p(1)] q(2) by (auto simp: nth_append)
    with p(4) that(1) q(1) w \<open>p = length h\<close> show ?thesis by (simp add: nth_append)
  qed
  with p(4) show ?thesis
    unfolding active_ok_def
    by (intro exI [of _ p] conjI upto_deliver [OF p(2) q w(1) unique] cpos_append [OF p(1)])
      (use p(3) nth in auto)
qed

lemma reply_ok_put:
  assumes "cpos ver h (rq_cond q) p" "cpos ver h (rq_cond q) (length h)" "w = \<lparr>wr_by = rq_by q, wr_data = rq_data q, wr_sent = rq_sent q, wr_at = t\<rparr>"
    and unique: "\<And>c p r. cpos ver h c p \<Longrightarrow> cpos ver h c r \<Longrightarrow> p = r"
  shows "reply_ok ver (h @ [w]) (rq_by q) q (Some (Ok (ver (rq_data q)))) p"
  using unique [OF assms(1,2)] assms(3) by (auto simp: reply_ok_def)

lemma releasing_put [simp]: "releasing (put_reply q r o') = releasing o'"
  by (auto simp: releasing_def put_reply_def split: op.splits)

lemma nth_before: "0 < p \<Longrightarrow> cpos ver h c p \<Longrightarrow> (h @ h') ! (p - 1) = h ! (p - 1)"
  using cpos_le [of ver h c p] by (simp add: nth_append)

lemma op_ok_deliver:
  assumes o: "op_ok ver cfgs F t h net off i m o'" and q: "q \<in> net" "cpos ver h (rq_cond q) (length h)"
    and w: "w = \<lparr>wr_by = rq_by q, wr_data = rq_data q, wr_sent = rq_sent q, wr_at = t\<rparr>"
    and unique: "\<And>c p r. cpos ver h c p \<Longrightarrow> cpos ver h c r \<Longrightarrow> p = r"
  shows "op_ok ver cfgs F t (h @ [w]) (net - {q}) off i m (put_reply q (Ok (ver (rq_data q))) o')"
proof -
  have up: "upto_pos ver (h @ [w]) (net - {q}) i p" if "upto_pos ver h net i p" for p
    using that by (rule upto_deliver [OF _ q _ unique]) (use w in auto)
  have put: "reply_ok ver (h @ [w]) i q' (if q' = q then Some (Ok (ver (rq_data q))) else r) p"
    if "cpos ver h (rq_cond q') p" "reply_ok ver h i q' r p" "rq_by q' = i" for q' r p
    using reply_ok_put [OF _ q(2) w unique, of p] reply_ok_append [OF that(2)] that(1,3) by auto
  show ?thesis
  proof (cases o')
    case Idle
    then show ?thesis by (simp add: op_ok_def put_reply_def)
  next
    case (ReadDone rr)
    show ?thesis
    proof (cases rr)
      case (Inl e)
      then show ?thesis using o ReadDone up by (auto simp: op_ok_def put_reply_def)
    next
      case (Inr dv)
      then obtain data v where rr: "rr = Ok (data, v)" by (cases dv) auto
      with o ReadDone obtain p where p: "mg_role m = RoleStandby" "cpos ver h (Some v) p" "data = wr_data (h ! (p - 1))"
        "upto_pos ver h net i p" "unat (mg_seenEpoch m) \<le> F + p" by (auto simp: op_ok_def)
      have "0 < p" using p(2) by (simp add: cpos_def)
      then have "data = wr_data ((h @ [w]) ! (p - 1))" using nth_before [OF _ p(2), of "[w]"] p(3) by simp
      then show ?thesis using ReadDone rr p up [OF p(4)] cpos_append [OF p(2), of "[w]"]
        by (auto simp: op_ok_def put_reply_def)
    qed
  next
    case (AcquireWanted args)
    obtain e s prev v where args: "args = (e, s, prev, v)" by (cases args) auto
    let ?c = "if prev = None then None else Some v"
    from o AcquireWanted args obtain p where p: "mg_role m = RoleStandby" "cpos ver h ?c p" "upto_pos ver h net i p"
        "s = of_nat (p + 1)" "unat e \<le> F + p + 1"
        "0 < p \<longrightarrow> (let w = h ! (p - 1); l' = lease_of (wr_data w) in ls_Epoch l' < e
                \<and> (wr_by w \<noteq> i \<longrightarrow> Released l' \<or> wr_at w + ls_TTLSeconds l' * go_Second \<le> t))"
      by (auto simp: op_ok_def)
    have "0 < p \<longrightarrow> (let w = (h @ [w]) ! (p - 1); l' = lease_of (wr_data w) in ls_Epoch l' < e
                \<and> (wr_by w \<noteq> i \<longrightarrow> Released l' \<or> wr_at w + ls_TTLSeconds l' * go_Second \<le> t))"
      using p(6) nth_before [OF _ p(2)] by simp
    then show ?thesis using AcquireWanted args p(1,4,5) up [OF p(3)] cpos_append [OF p(2), of "[w]"]
      unfolding op_ok_def put_reply_def by (simp only: op.case prod.case) blast
  next
    case (AcquireWait nx sgd pred fresh sent sentWall q' r)
    from o this obtain p where p: "cpos ver h (rq_cond q') p" "upto_pos ver h net i p"
      "follows cfgs F h i p nx (rq_sent q')" "reply_ok ver h i q' r p" "rq_by q' = i"
      by (auto simp: op_ok_def)
    have "follows cfgs F (h @ [w]) i p nx (rq_sent q')" using p(3) cpos_le [OF p(1)] by (simp add: follows_append)
    with put [OF p(1,4,5)] up [OF p(2)] cpos_append [OF p(1), of "[w]"] o AcquireWait
    show ?thesis by (cases "q' = q") (auto simp: op_ok_def put_reply_def)
  next
    case (RenewWait nx sent sentWall q' r)
    from o this obtain p where p: "cpos ver h (rq_cond q') p" "reply_ok ver h i q' r p" "rq_by q' = i"
      by (auto simp: op_ok_def)
    with put [OF p] cpos_append [OF p(1), of "[w]"] o RenewWait
    show ?thesis by (cases "q' = q") (auto simp: op_ok_def put_reply_def)
  next
    case (ReleaseWait nx q' r)
    from o this obtain p where p: "cpos ver h (rq_cond q') p" "reply_ok ver h i q' r p" "rq_by q' = i"
      by (auto simp: op_ok_def)
    with put [OF p] cpos_append [OF p(1), of "[w]"] o ReleaseWait
    show ?thesis by (cases "q' = q") (auto simp: op_ok_def put_reply_def)
  qed
qed

section \<open>Requests and time\<close>

lemma upto_net: "upto_pos ver h net i p \<Longrightarrow> (\<And>q. q \<in> net' \<Longrightarrow> rq_by q = i \<Longrightarrow> q \<in> net) \<Longrightarrow> upto_pos ver h net' i p"
  unfolding upto_pos_def by blast

lemma active_ok_net:
  "active_ok ver cfgs h net off i m rel \<Longrightarrow> (\<And>q. q \<in> net' \<Longrightarrow> rq_by q = i \<Longrightarrow> q \<in> net)
   \<Longrightarrow> active_ok ver cfgs h net' off i m rel"
  unfolding active_ok_def
  by (elim exE conjE, intro exI conjI, assumption, erule upto_net) (assumption | blast)+

lemma op_ok_net:
  assumes o: "op_ok ver cfgs F t h net off i m o'" and net: "\<And>q. q \<in> net' \<Longrightarrow> rq_by q = i \<Longrightarrow> q \<in> net"
  shows "op_ok ver cfgs F t h net' off i m o'"
proof -
  have up: "upto_pos ver h net' i p" if "upto_pos ver h net i p" for p
    using that net by (rule upto_net)
  show ?thesis
  proof (cases o')
    case (ReadDone rr)
    with o show ?thesis by (auto simp: op_ok_def split: sum.splits intro: up)
  next
    case (AcquireWanted args)
    obtain e s prev v where args: "args = (e, s, prev, v)" by (cases args) auto
    show ?thesis using o unfolding AcquireWanted args op_ok_def
      by (simp only: op.case prod.case) (blast intro: up)
  qed (use o up in \<open>auto simp: op_ok_def\<close>)
qed

lemma op_ok_refuse:
  assumes "op_ok ver cfgs F t h net off i m o'"
  shows "op_ok ver cfgs F t h net off i m (put_reply q (Err e) o')"
  using assms by (cases o') (auto simp: op_ok_def put_reply_def reply_ok_def)

lemma put_reply_other: "op_ok ver cfgs F t h net off i m o' \<Longrightarrow> rq_by q \<noteq> i \<Longrightarrow> put_reply q r o' = o'"
  by (cases o') (auto simp: op_ok_def put_reply_def)

lemma op_ok_later:
  assumes "op_ok ver cfgs F t h net off i m o'" "t \<le> t'"
  shows "op_ok ver cfgs F t' h net off i m o'"
proof (cases o')
  case (AcquireWanted args)
  obtain e s prev v where args: "args = (e, s, prev, v)" by (cases args) auto
  let ?c = "if prev = None then None else Some v"
  let ?free = "\<lambda>p t. 0 < p \<longrightarrow> (let w = h ! (p - 1); l' = lease_of (wr_data w) in ls_Epoch l' < e
                \<and> (wr_by w \<noteq> i \<longrightarrow> Released l' \<or> wr_at w + ls_TTLSeconds l' * go_Second \<le> t))"
  have eq: "op_ok ver cfgs F u h net off i m o' \<longleftrightarrow> mg_role m = RoleStandby
    \<and> (\<exists>p. cpos ver h ?c p \<and> upto_pos ver h net i p \<and> s = of_nat (p + 1) \<and> unat e \<le> F + p + 1 \<and> ?free p u)" for u
    unfolding AcquireWanted args op_ok_def by (simp only: op.case prod.case)
  have "?free p t'" if "?free p t" for p using that assms(2) by (auto simp: Let_def)
  with assms(1) show ?thesis unfolding eq by blast
qed (use assms in \<open>auto simp: op_ok_def split: sum.splits prod.splits\<close>)

end
