(* ===== verification/Ha_Cluster_Steps.thy ===== *)
theory Ha_Cluster_Steps
  imports Ha_Cluster_Inv
begin

text \<open>
  Every step of the cluster keeps the invariant, as long as the number of accepted writes and the epochs stay
  below the uint64 range.
\<close>

section \<open>Steps of one instance\<close>

lemma inv_set_inst:
  assumes "cluster_inv ver obj fits cfgs F S"
    "inst_ok ver cfgs F (cl_time S) (cl_hist S) (cl_net S) (cl_off S i) i m o'"
  shows "cluster_inv ver obj fits cfgs F (set_inst i m o' S)"
  using assms by (simp add: cluster_inv_def set_inst_def)

lemma inv_inst:
  "cluster_inv ver obj fits cfgs F S \<Longrightarrow>
   inst_ok ver cfgs F (cl_time S) (cl_hist S) (cl_net S) (cl_off S i) i (cl_mgr S i) (cl_op S i)"
  by (simp add: cluster_inv_def)

lemma inst_ok_net:
  assumes "inst_ok ver cfgs F t h net off i m o'" "\<And>q. q \<in> net' \<Longrightarrow> rq_by q = i \<Longrightarrow> q \<in> net"
  shows "inst_ok ver cfgs F t h net' off i m o'"
  using assms(1) op_ok_net [OF _ assms(2)] active_ok_net [OF _ assms(2)] by (auto simp: inst_ok_def)

lemma inv_send:
  assumes "cluster_inv ver obj fits cfgs F S" "rq_by q = i" "req_ok ver cfgs F (cl_time S) (cl_hist S) q"
    and i: "inst_ok ver cfgs F (cl_time S) (cl_hist S) (insert q (cl_net S)) (cl_off S i) i m o'"
  shows "cluster_inv ver obj fits cfgs F (send q (set_inst i m o' S))"
proof -
  have "inst_ok ver cfgs F (cl_time S) (cl_hist S) (insert q (cl_net S)) (cl_off S j) j (cl_mgr S j) (cl_op S j)"
    if "j \<noteq> i" for j
    by (rule inst_ok_net [OF inv_inst [OF assms(1)]]) (use that assms(2) in auto)
  with assms show ?thesis by (simp add: cluster_inv_def send_def set_inst_def)
qed

subsection \<open>Stepping down\<close>

lemma recordError_simps [simp]:
  "mg_role (recordError m) = mg_role m" "mg_lease (recordError m) = mg_lease m" "mg_version (recordError m) = mg_version m"
  "mg_sentAt (recordError m) = mg_sentAt m" "mg_seenVersion (recordError m) = mg_seenVersion m"
  "mg_seenAt (recordError m) = mg_seenAt m" "mg_seenEpoch (recordError m) = mg_seenEpoch m"
  by (simp_all add: recordError_def)

lemma seen_ok_cong:
  "mg_seenVersion m' = mg_seenVersion m \<Longrightarrow> mg_seenAt m' = mg_seenAt m \<Longrightarrow> mg_seenEpoch m' = mg_seenEpoch m
   \<Longrightarrow> seen_ok ver F h off i m' = seen_ok ver F h off i m"
  by (simp add: seen_ok_def)

lemma active_ok_cong:
  "mg_version m' = mg_version m \<Longrightarrow> mg_sentAt m' = mg_sentAt m \<Longrightarrow> ls_Seq (mg_lease m') = ls_Seq (mg_lease m)
   \<Longrightarrow> ls_Epoch (mg_lease m') = ls_Epoch (mg_lease m) \<Longrightarrow> ls_Holder (mg_lease m') = ls_Holder (mg_lease m)
   \<Longrightarrow> ls_TTLSeconds (mg_lease m') = ls_TTLSeconds (mg_lease m)
   \<Longrightarrow> active_ok ver cfgs h net off i m' rel = active_ok ver cfgs h net off i m rel"
  by (simp add: active_ok_def Released_def)

lemma stepDown_simps [simp]:
  "mg_role (stepDown cfg now c m) = RoleStandby"
  "mg_seenEpoch (stepDown cfg now c m) = mg_seenEpoch m"
  by (cases "mg_role m"; simp add: stepDown_def notify_def Let_def)+

lemma seen_ok_own:
  assumes "seen_ok ver F h off i m" "cpos ver h (Some v) p" "wr_by (h ! (p - 1)) = i"
    "mg_seenVersion m' = v" "mg_seenEpoch m' = mg_seenEpoch m"
  shows "seen_ok ver F h off i m'"
  using assms unfolding seen_ok_def by auto

lemma inst_ok_stepDown:
  assumes "seen_ok ver F h off i m"
    and own: "mg_role m = RoleActive \<Longrightarrow> \<exists>p. cpos ver h (Some (mg_version m)) p \<and> wr_by (h ! (p - 1)) = i"
  shows "inst_ok ver cfgs F t h net off i (stepDown cfg now c m) Idle"
proof -
  have "seen_ok ver F h off i (stepDown cfg now c m)"
  proof (cases "mg_role m = RoleActive")
    case True
    from own [OF this] obtain p where p: "cpos ver h (Some (mg_version m)) p" "wr_by (h ! (p - 1)) = i" by blast
    show ?thesis
      by (rule seen_ok_own [OF assms(1) p]) (use True in \<open>simp_all add: stepDown_def notify_def Let_def\<close>)
  next
    case False
    then show ?thesis using assms(1) by (simp add: stepDown_def)
  qed
  then show ?thesis by (simp add: inst_ok_def op_ok_def)
qed

lemma active_own: "active_ok ver cfgs h net off i m rel
  \<Longrightarrow> \<exists>p. cpos ver h (Some (mg_version m)) p \<and> wr_by (h ! (p - 1)) = i"
  by (auto simp: active_ok_def Let_def)

lemma inst_ok_stepDown':
  assumes "inst_ok ver cfgs F t h net off i m o'" "mg_version m' = mg_version m" "mg_role m' = mg_role m"
    "mg_seenVersion m' = mg_seenVersion m" "mg_seenAt m' = mg_seenAt m" "mg_seenEpoch m' = mg_seenEpoch m"
  shows "inst_ok ver cfgs F t h net off i (stepDown cfg now c m') Idle"
proof (rule inst_ok_stepDown)
  show "seen_ok ver F h off i m'" using assms by (simp add: inst_ok_def seen_ok_cong [of m' m])
  show "\<exists>p. cpos ver h (Some (mg_version m')) p \<and> wr_by (h ! (p - 1)) = i" if "mg_role m' = RoleActive"
    using assms that active_own [of ver cfgs h net off i m "releasing o'"] by (simp add: inst_ok_def)
qed

subsection \<open>Encoded leases\<close>

lemma manager_encode_same: "same_lease l (manager_encode cfg l b)"
  by (auto simp: same_lease_def manager_encode_def lease_encode_def Let_def split: option.splits)

lemma same_lease_of:
  assumes "same_lease l d"
  shows "d = LeaseObject (lease_of d)" "ls_Seq (lease_of d) = ls_Seq l" "ls_Epoch (lease_of d) = ls_Epoch l"
    "ls_Holder (lease_of d) = ls_Holder l" "ls_TTLSeconds (lease_of d) = ls_TTLSeconds l"
    "Released (lease_of d) = Released l"
  using assms by (auto simp: same_lease_def lease_of_def Released_def)

lemma follows_same: "same_lease l d \<Longrightarrow> follows cfgs F h i p (lease_of d) t = follows cfgs F h i p l t"
  by (simp add: follows_def same_lease_of)

subsection \<open>Renewal and release\<close>

lemma upto_insert:
  assumes "upto_pos ver h net i p" "cpos ver h (rq_cond q) r" "r \<le> p"
  shows "upto_pos ver h (insert q net) i p"
  using assms unfolding upto_pos_def by (intro conjI ballI impI; elim conjE) (erule insertE; blast)

lemma upto_mono:
  assumes "upto_pos ver h net i p" "p \<le> p'"
  shows "upto_pos ver h net i p'"
  unfolding upto_pos_def
proof (intro conjI ballI impI allI)
  fix q assume "q \<in> net" "rq_by q = i"
  then obtain r where "r \<le> p" "cpos ver h (rq_cond q) r" using assms(1) by (auto simp: upto_pos_def)
  then show "\<exists>r\<le>p'. cpos ver h (rq_cond q) r" using assms(2) le_trans by blast
next
  fix k assume "p' < k \<and> k < length h"
  then show "wr_by (h ! k) \<noteq> i" using assms by (simp add: upto_pos_def)
qed

lemma active_follows:
  assumes "hist_ok cfgs F t h" "cpos ver h (Some v) p" "wr_by (h ! (p - 1)) = i"
    "ls_Seq l = of_nat p + 1" "ls_Epoch l = ls_Epoch (lease_of (wr_data (h ! (p - 1))))"
    "ls_TTLSeconds l = cf_TTL (cfgs i) sdiv go_Second"
  shows "follows cfgs F h i p l t'"
proof -
  have p: "0 < p" "p - 1 < length h" using assms(2) by (auto simp: cpos_def)
  have "unat (ls_Epoch l) \<le> F + p"
    using hist_ok_nth(2) [OF assms(1) p(2)] p assms(5) by (simp add: follows_def)
  with assms p show ?thesis by (simp add: follows_def Let_def)
qed

text \<open>A request of an active instance that continues the held lease.\<close>

lemma inst_ok_write:
  assumes inv: "hist_ok cfgs F t h" and i: "inst_ok ver cfgs F t h net off i m Idle" and role: "mg_role m = RoleActive"
    and q: "rq_by q = i" "rq_cond q = Some (mg_version m)" "rq_sent q = t" "same_lease l (rq_data q)"
    and l: "ls_Seq l = ls_Seq (mg_lease m) + 1" "ls_Epoch l = ls_Epoch (mg_lease m)"
      "ls_TTLSeconds l = ls_TTLSeconds (mg_lease m)"
    and rel: "\<not> rel \<Longrightarrow> \<not> Released l"
  shows "req_ok ver cfgs F t h q" "active_ok ver cfgs h (insert q net) off i m rel" "\<exists>p. cpos ver h (rq_cond q) p"
proof -
  obtain p where p: "cpos ver h (Some (mg_version m)) p" "upto_pos ver h net i p" and
     w: "let w = h ! (p - 1); l = lease_of (wr_data w) in
      wr_by w = i \<and> mg_sentAt m = wr_sent w + off \<and> \<not> Released l \<and> \<not> Released (mg_lease m)
      \<and> ls_Seq (mg_lease m) = of_nat p \<and> ls_Epoch (mg_lease m) = ls_Epoch l
      \<and> ls_TTLSeconds (mg_lease m) = cf_TTL (cfgs i) sdiv go_Second" and
     nr: "(p < length h \<and> wr_by (h ! p) = i \<longrightarrow> \<not> Released (lease_of (wr_data (h ! p))))
         \<and> (\<forall>q \<in> net. rq_by q = i \<and> rq_cond q = Some (mg_version m) \<longrightarrow> \<not> Released (lease_of (rq_data q)))"
    using i role unfolding inst_ok_def active_ok_def releasing_def by (simp only: op.case simp_thms) blast
  have f: "follows cfgs F h i p l t" by (rule active_follows [OF inv p(1)]) (use w l in \<open>simp_all add: Let_def\<close>)
  show "req_ok ver cfgs F t h q"
    unfolding req_ok_def using same_lease_of(1) [OF q(4)] p(1) q f by (auto simp: follows_same)
  show "active_ok ver cfgs h (insert q net) off i m rel"
    unfolding active_ok_def
    by (intro exI [of _ p] conjI p(1) w upto_insert [OF p(2)] impI) (use p nr q rel same_lease_of(6) [OF q(4)] in auto)
  show "\<exists>p. cpos ver h (rq_cond q) p" using p(1) q(2) by auto
qed

text \<open>An acknowledged write of instance \<open>i\<close> at position \<open>p\<close> becomes the lease it holds.\<close>

lemma active_ok_acked:
  assumes inv: "hist_ok cfgs F t h" "length h < 2 ^ 64" "distinct_versions ver"
    and p: "upto_pos ver h net i p" "reply_ok ver h i q (Some (Ok v)) p"
    and l: "same_lease nx (rq_data q)" "\<not> Released nx" "ls_Seq nx = of_nat (p + 1)"
      "ls_TTLSeconds nx = cf_TTL (cfgs i) sdiv go_Second"
    and m: "mg_version m = v" "mg_lease m = nx" "mg_sentAt m = rq_sent q + off"
  shows "active_ok ver cfgs h net off i m rel"
proof -
  have e: "p < length h" "wr_by (h ! p) = i" "wr_data (h ! p) = rq_data q" "wr_sent (h ! p) = rq_sent q"
    "v = ver (rq_data q)" using p(2) by (auto simp: reply_ok_def)
  have c: "cpos ver h (Some v) (p + 1)" using e by (simp add: cpos_def)
  have none: "\<not> (rq_by q' = i \<and> rq_cond q' = Some v)" if q': "q' \<in> net" for q'
  proof
    assume "rq_by q' = i \<and> rq_cond q' = Some v"
    with p(1) q' obtain r where "r \<le> p" "cpos ver h (Some v) r" by (auto simp: upto_pos_def)
    with cpos_unique [OF inv c] show False by fastforce
  qed
  have later: "\<not> (p + 1 < length h \<and> wr_by (h ! (p + 1)) = i)" using p(1) by (simp add: upto_pos_def)
  show ?thesis
    unfolding active_ok_def Let_def
    by (intro exI [of _ "p + 1"] conjI impI ballI) (use c e l m none later same_lease_of [OF l(1)] upto_mono [OF p(1)] in auto)
qed

lemma inst_ok_renew_finish:
  assumes inv: "hist_ok cfgs F t h" "length h < 2 ^ 64" "distinct_versions ver"
    and i: "inst_ok ver cfgs F t h net off i m (RenewWait nx sent sentWall q r)" and r: "may_reply r reply"
  shows "inst_ok ver cfgs F t h net off i (renew_finish cfg nx sent sentWall reply now wall m) Idle"
proof -
  have o: "mg_role m = RoleActive" "rq_cond q = Some (mg_version m)" "sent = rq_sent q + off"
      "same_lease nx (rq_data q)" "\<not> Released nx" "ls_Seq nx = ls_Seq (mg_lease m) + 1"
      "ls_TTLSeconds nx = ls_TTLSeconds (mg_lease m)"
    using i by (auto simp: inst_ok_def op_ok_def)
  obtain p where p: "cpos ver h (rq_cond q) p" "reply_ok ver h i q r p" using i by (auto simp: inst_ok_def op_ok_def)
  have a: "active_ok ver cfgs h net off i m False" using i o(1) by (simp add: inst_ok_def releasing_def)
  then obtain p' where p': "cpos ver h (Some (mg_version m)) p'" "upto_pos ver h net i p'"
      "ls_Seq (mg_lease m) = of_nat p'" "ls_TTLSeconds (mg_lease m) = cf_TTL (cfgs i) sdiv go_Second"
    by (auto simp: active_ok_def Let_def)
  have "p' = p" using cpos_unique [OF inv] p(1) p'(1) o(2) by simp
  show ?thesis
  proof (cases reply)
    case (Inr v)
    then have "r = Some (Ok v)" using r by (simp add: may_reply_def)
    with p(2) have "active_ok ver cfgs h net off i (renew_finish cfg nx sent sentWall reply now wall m) False"
      using Inr o p' \<open>p' = p\<close> by (intro active_ok_acked [OF inv, of net i p q v nx]) (simp_all add: renew_finish_def)
    then show ?thesis using Inr i o(1)
      by (simp add: inst_ok_def op_ok_def releasing_def renew_finish_def seen_ok_def)
  next
    case (Inl e)
    let ?m1 = "\<lambda>b. (recordError m)\<lparr>mg_retrying := b\<rparr>"
    have down: "inst_ok ver cfgs F t h net off i (stepDown cfg now True (recordError m)) Idle"
      "inst_ok ver cfgs F t h net off i (stepDown cfg now True (?m1 b)) Idle" for b
      by (rule inst_ok_stepDown' [OF i]; simp)+
    have "inst_ok ver cfgs F t h net off i (?m1 b) Idle" for b
      using i o(1) a seen_ok_cong [of "?m1 b" m] active_ok_cong [of "?m1 b" m]
      by (simp add: inst_ok_def op_ok_def releasing_def)
    with down Inl show ?thesis by (cases e) (simp_all add: renew_finish_def Let_def)
  qed
qed

lemma inst_ok_release_finish:
  assumes inv: "hist_ok cfgs F t h" "length h < 2 ^ 64" "distinct_versions ver"
    and i: "inst_ok ver cfgs F t h net off i m (ReleaseWait nx q r)" and r: "may_reply r reply"
  shows "inst_ok ver cfgs F t h net off i (stepDown cfg now True (release_finish nx reply now' wall m)) Idle"
proof (cases reply)
  case (Inl e)
  then show ?thesis using inst_ok_stepDown' [OF i, of "recordError m"] by (simp add: release_finish_def)
next
  case (Inr v)
  then have "r = Some (Ok v)" using r by (simp add: may_reply_def)
  with i obtain p where p: "reply_ok ver h i q (Some (Ok v)) p" by (auto simp: inst_ok_def op_ok_def)
  then have "p < length h" "wr_by (h ! p) = i" "ver (wr_data (h ! p)) = v" by (auto simp: reply_ok_def)
  then have "cpos ver h (Some v) (p + 1) \<and> wr_by (h ! (p + 1 - 1)) = i" by (simp add: cpos_def)
  moreover have "seen_ok ver F h off i m" using i by (simp add: inst_ok_def)
  ultimately show ?thesis
    by (intro inst_ok_stepDown) (use Inr in \<open>auto simp: release_finish_def seen_ok_def\<close>)
qed

subsection \<open>Takeover\<close>

lemma noteAuthentic_simps [simp]:
  "mg_role (noteAuthentic cfg l m) = mg_role m" "mg_seenVersion (noteAuthentic cfg l m) = mg_seenVersion m"
  "mg_seenAt (noteAuthentic cfg l m) = mg_seenAt m" "mg_seenEpoch (noteAuthentic cfg l m) = mg_seenEpoch m"
  "mg_cooldownUntil (noteAuthentic cfg l m) = mg_cooldownUntil m" "mg_version (noteAuthentic cfg l m) = mg_version m"
  "mg_lease (noteAuthentic cfg l m) = mg_lease m" "mg_sentAt (noteAuthentic cfg l m) = mg_sentAt m"
  "mg_sentWall (noteAuthentic cfg l m) = mg_sentWall m"
  by (simp_all add: noteAuthentic_def split: option.split)

text \<open>What an observation of the stored lease \<open>l\<close> does: another key is only noted; otherwise the version
  and its first sighting are remembered, and a takeover is wanted when it is free or expired.\<close>

lemma observe_same_key:
  assumes "observe_finish cfg (Ok (LeaseObject l, v)) now m = (m', a)"
    and key: "\<not> (ls_KeyID l \<noteq> [] \<and> cf_KeyID cfg \<noteq> [] \<and> ls_KeyID l \<noteq> cf_KeyID cfg)"
  shows "mg_role m' = mg_role m \<and> mg_seenVersion m' = v \<and> mg_seenAt m' = (if v \<noteq> mg_seenVersion m then now else mg_seenAt m)
       \<and> mg_seenEpoch m' = max (mg_seenEpoch m) (ls_Epoch l)
       \<and> a = (if now < mg_cooldownUntil m \<or> \<not> (Released l \<or> go_Sub now (mg_seenAt m') \<ge> max (cf_TTL cfg) (lease_ttl l))
              then None else Some (mg_seenEpoch m' + 1, ls_Seq l + 1, Some (LeaseObject l), v))"
proof -
  define m3 where "m3 = (let m2 = (noteAuthentic cfg l m)\<lparr>mg_healthy := True, mg_keyMismatch := False\<rparr> in
    if authentic cfg l then m2\<lparr>mg_seenMark := LaterMark (mg_seenMark m2) (lease_SnapshotMark l)\<rparr> else m2)"
  have m3: "mg_role m3 = mg_role m" "mg_seenVersion m3 = mg_seenVersion m" "mg_seenAt m3 = mg_seenAt m"
    "mg_seenEpoch m3 = mg_seenEpoch m" "mg_cooldownUntil m3 = mg_cooldownUntil m"
    by (simp_all add: m3_def Let_def)
  define m4 where "m4 = (if v \<noteq> mg_seenVersion m3 then m3\<lparr>mg_seen := l, mg_seenVersion := v, mg_seenAt := now\<rparr> else m3)"
  have m4: "mg_role m4 = mg_role m" "mg_seenVersion m4 = v" "mg_seenAt m4 = (if v \<noteq> mg_seenVersion m then now else mg_seenAt m)"
    "mg_seenEpoch m4 = mg_seenEpoch m" "mg_cooldownUntil m4 = mg_cooldownUntil m"
    by (simp_all add: m4_def m3)
  define m5 where "m5 = (if ls_Epoch l > mg_seenEpoch m4 then m4\<lparr>mg_seenEpoch := ls_Epoch l\<rparr> else m4)"
  have m5: "mg_role m5 = mg_role m" "mg_seenVersion m5 = v" "mg_seenAt m5 = (if v \<noteq> mg_seenVersion m then now else mg_seenAt m)"
    "mg_seenEpoch m5 = max (mg_seenEpoch m) (ls_Epoch l)" "mg_cooldownUntil m5 = mg_cooldownUntil m"
    by (auto simp add: m5_def m4 max_def)
  have *: "observe_finish cfg (Ok (LeaseObject l, v)) now m = (m5,
     if now < mg_cooldownUntil m5 \<or> \<not> (Released l \<or> go_Sub now (mg_seenAt m5) \<ge> max (cf_TTL cfg) (lease_ttl l))
     then None else Some (mg_seenEpoch m5 + 1, ls_Seq l + 1, Some (LeaseObject l), v))"
    unfolding observe_finish_def m5_def m4_def m3_def DecodeLease_def Let_def using key
    by (simp only: sum.case prod.case option.case lease_object.case if_False simp_thms option.distinct)
  from assms(1) m5 show ?thesis unfolding * by (auto simp only: prod.inject)
qed

lemma observe_lease:
  assumes "observe_finish cfg (Ok (LeaseObject l, v)) now m = (m', a)"
  shows "mg_role m' = mg_role m \<and>
    (a = None \<and> mg_seenVersion m' = mg_seenVersion m \<and> mg_seenAt m' = mg_seenAt m \<and> mg_seenEpoch m' = mg_seenEpoch m
     \<or> mg_seenVersion m' = v \<and> mg_seenAt m' = (if v \<noteq> mg_seenVersion m then now else mg_seenAt m)
       \<and> mg_seenEpoch m' = max (mg_seenEpoch m) (ls_Epoch l)
       \<and> a = (if now < mg_cooldownUntil m \<or> \<not> (Released l \<or> go_Sub now (mg_seenAt m') \<ge> max (cf_TTL cfg) (lease_ttl l))
              then None else Some (mg_seenEpoch m' + 1, ls_Seq l + 1, Some (LeaseObject l), v)))"
proof (cases "ls_KeyID l \<noteq> [] \<and> cf_KeyID cfg \<noteq> [] \<and> ls_KeyID l \<noteq> cf_KeyID cfg")
  case True
  with assms show ?thesis by (auto simp: observe_finish_def DecodeLease_def Let_def)
next
  case False
  from observe_same_key [OF assms False] show ?thesis by blast
qed

lemma ttl_of_history:
  assumes "hist_ok cfgs F t h" "k < length h" "valid_configs cfgs"
  shows "lease_ttl (lease_of (wr_data (h ! k))) = ls_TTLSeconds (lease_of (wr_data (h ! k))) * go_Second"
    "0 \<le> ls_TTLSeconds (lease_of (wr_data (h ! k))) * go_Second" 
    "ls_TTLSeconds (lease_of (wr_data (h ! k))) * go_Second < 2 ^ 62"
proof -
  let ?ttl = "cf_TTL (cfgs (wr_by (h ! k)))"
  have s: "ls_TTLSeconds (lease_of (wr_data (h ! k))) = ?ttl sdiv go_Second"
    using hist_ok_nth(2) [OF assms(1,2)] by (simp add: follows_def)
  have "ha_New (cfgs (wr_by (h ! k))) = Ok new_manager" using assms(3) by (simp add: valid_configs_def)
  then have "MinTTL \<le> ?ttl" "?ttl \<le> MaxTTL"
    by (auto simp: ha_New_def ValidateTiming_def split: if_splits option.splits)
  then have b: "0 \<le> ?ttl sdiv go_Second" "?ttl sdiv go_Second \<le> 600"
    by (auto simp: MinTTL_def MaxTTL_def go_units signed_divide_int_def sgn_if)
  then show "0 \<le> ls_TTLSeconds (lease_of (wr_data (h ! k))) * go_Second"
    "ls_TTLSeconds (lease_of (wr_data (h ! k))) * go_Second < 2 ^ 62" using s by (auto simp: go_units)
  show "lease_ttl (lease_of (wr_data (h ! k))) = ls_TTLSeconds (lease_of (wr_data (h ! k))) * go_Second"
    unfolding lease_ttl_def s by (rule wrap64_id) (use b in \<open>auto simp: go_units\<close>)
qed

lemma unat_plus1: "unat e + 1 < 2 ^ 64 \<Longrightarrow> unat (e + 1 :: 64 word) = unat e + 1"
  by (simp add: unat_word_ariths)

lemma epoch_next:
  assumes "unat (e :: 64 word) \<le> n" "n + 1 < 2 ^ 64" "l \<le> e"
  shows "unat (e + 1) \<le> n + 1" "l < e + 1"
proof -
  have *: "unat (e + 1) = unat e + 1" by (rule unat_plus1) (use assms in simp)
  then show "unat (e + 1) \<le> n + 1" using assms(1) by simp
  show "l < e + 1" using assms(3) * by (simp add: word_less_nat_alt word_le_nat_alt)
qed

lemma observe_failed:
  assumes "observe_finish cfg (Err e) now m = (m', a)"
  shows "mg_role m' = mg_role m" "mg_seenEpoch m' = mg_seenEpoch m"
    "mg_seenVersion m' = (if e = ErrObjectNotFound then [] else mg_seenVersion m)" "mg_seenAt m' = mg_seenAt m"
    "a = None \<or> e = ErrObjectNotFound \<and> a = Some (mg_seenEpoch m + 1, 1, None, [])"
  using assms by (cases e; auto simp: observe_finish_def Let_def split: if_splits)+

lemma inst_ok_observe:
  assumes inv: "hist_ok cfgs F t h" "F + length h + 2 < 2 ^ 64" "distinct_versions ver" "valid_configs cfgs"
    and i: "inst_ok ver cfgs F t h net off i m (ReadDone rr)"
    and o: "observe_finish (cfgs i) rr (t + off) m = (m', a)"
  shows "inst_ok ver cfgs F t h net off i m' (case a of None \<Rightarrow> Idle | Some args \<Rightarrow> AcquireWanted args)"
proof -
  have role: "mg_role m = RoleStandby" and seen: "seen_ok ver F h off i m"
    using i by (auto simp: inst_ok_def op_ok_def split: sum.splits)
  show ?thesis
  proof (cases rr)
    case (Inl e)
    note f = observe_failed [OF o [unfolded Inl]]
    have s: "seen_ok ver F h off i m'" using seen f(2-4) by (auto simp: seen_ok_def)
    have "op_ok ver cfgs F t h net off i m' (AcquireWanted (mg_seenEpoch m + 1, 1, None, []))" if "e = ErrObjectNotFound"
    proof -
      have "upto_pos ver h net i 0" "unat (mg_seenEpoch m) \<le> F" using i Inl that by (auto simp: inst_ok_def op_ok_def)
      then show ?thesis using role f(1) epoch_next(1) [of "mg_seenEpoch m" F 0] inv(2)
        by (simp add: op_ok_def cpos_def)
    qed
    with f role s show ?thesis by (auto simp: inst_ok_def op_ok_def releasing_def)
  next
    case (Inr dv)
    then obtain data v where rr: "rr = Ok (data, v)" by (cases dv) auto
    with i obtain p where p: "cpos ver h (Some v) p" "data = wr_data (h ! (p - 1))" "upto_pos ver h net i p"
      "unat (mg_seenEpoch m) \<le> F + p" by (auto simp: inst_ok_def op_ok_def)
    define w where "w = h ! (p - 1)"
    define l where "l = lease_of (wr_data w)"
    have pl: "0 < p" "p - 1 < length h" using p(1) by (auto simp: cpos_def)
    note hw = hist_ok_nth [OF inv(1) pl(2), folded w_def, folded l_def]
    have data: "data = LeaseObject l" using p(2) hw(1) by (simp add: w_def)
    have le: "unat (ls_Epoch l) \<le> F + p" "ls_Seq l = of_nat p" using hw(2) pl by (simp_all add: follows_def)
    note obs = observe_lease [OF o [unfolded rr data]]
    show ?thesis
    proof (cases "a = None \<and> mg_seenVersion m' = mg_seenVersion m \<and> mg_seenAt m' = mg_seenAt m \<and> mg_seenEpoch m' = mg_seenEpoch m")
      case True
      with seen role obs show ?thesis by (auto simp: inst_ok_def op_ok_def seen_ok_def)
    next
      case False
      with obs have m': "mg_role m' = RoleStandby" "mg_seenVersion m' = v"
        "mg_seenAt m' = (if v \<noteq> mg_seenVersion m then t + off else mg_seenAt m)"
        "mg_seenEpoch m' = max (mg_seenEpoch m) (ls_Epoch l)"
        and a: "a = (if t + off < mg_cooldownUntil m
              \<or> \<not> (Released l \<or> go_Sub (t + off) (mg_seenAt m') \<ge> max (cf_TTL (cfgs i)) (lease_ttl l))
              then None else Some (mg_seenEpoch m' + 1, ls_Seq l + 1, Some data, v))"
        using role data by auto
      have ep: "unat (mg_seenEpoch m') \<le> F + p" "ls_Epoch l \<le> mg_seenEpoch m'"
        using m'(4) p(4) le(1) by (auto simp: max_def)
      have since: "wr_at w + off \<le> mg_seenAt m'" if "wr_by w \<noteq> i"
      proof (cases "v = mg_seenVersion m")
        case True
        with seen p(1) pl inv(3) obtain r where r: "cpos ver h (Some v) r"
          "wr_by (h ! (r - 1)) \<noteq> i \<longrightarrow> wr_at (h ! (r - 1)) + off \<le> mg_seenAt m"
          by (auto simp: seen_ok_def distinct_versions_def cpos_def)
        have "r = p" by (rule cpos_unique [OF inv(1) _ inv(3) r(1) p(1)]) (use inv(2) in simp)
        with r(2) that True m'(3) show ?thesis by (simp add: w_def)
      next
        case False
        with m'(3) hw(4) show ?thesis by simp
      qed
      have s: "seen_ok ver F h off i m'"
        using m'(2) since p(1) ep(1) pl by (auto simp: seen_ok_def w_def)
      have "op_ok ver cfgs F t h net off i m' (AcquireWanted (mg_seenEpoch m' + 1, ls_Seq l + 1, Some data, v))"
        if "Released l \<or> go_Sub (t + off) (mg_seenAt m') \<ge> max (cf_TTL (cfgs i)) (lease_ttl l)"
      proof -
        have free: "Released l \<or> wr_at w + ls_TTLSeconds l * go_Second \<le> t" if "wr_by w \<noteq> i"
        proof (cases "Released l")
          case False
          note ttl = ttl_of_history [OF inv(1) pl(2) inv(4), folded w_def, folded l_def]
          have "go_Sub (t + off) (mg_seenAt m') \<ge> ls_TTLSeconds l * go_Second"
            using \<open>Released l \<or> _\<close> False ttl(1) by simp
          then have "t + off \<ge> mg_seenAt m' + ls_TTLSeconds l * go_Second"
            using go_Sub_ge_iff [of "ls_TTLSeconds l * go_Second"] ttl by simp
          with since [OF that] show ?thesis by simp
        qed simp
        have e: "unat (mg_seenEpoch m' + 1) \<le> F + p + 1" "ls_Epoch l < mg_seenEpoch m' + 1"
          using epoch_next [OF ep(1) _ ep(2)] inv(2) pl by auto
        show ?thesis unfolding op_ok_def using m'(1) p(1,3) le(2) e free pl
          by (simp, intro exI [of _ p]) (simp add: w_def l_def Let_def)
      qed
      with a s m'(1) show ?thesis by (auto simp: inst_ok_def op_ok_def)
    qed
  qed
qed

lemma acquire_send:
  assumes "acquire_start cfg flr utc (e, s, prev, v) m = AcquireSend nx data sgd pred"
  shows "data = manager_encode cfg nx sgd" "ls_Seq nx = s" "ls_TTLSeconds nx = cf_TTL cfg sdiv go_Second"
    "ls_Holder nx = cf_InstanceID cfg"
    "ls_Epoch nx = (case flr of Some (Ok f) \<Rightarrow> max e (f + 1) | _ \<Rightarrow> e)"
  using assms by (auto simp: acquire_start_def Let_def split: option.splits sum.splits)

lemma inst_ok_acquire_start:
  assumes inv: "F + length h + 2 < 2 ^ 64" "valid_configs cfgs"
    and i: "inst_ok ver cfgs F t h net off i m (AcquireWanted (e, s, prev, v))" and f: "floor_below F flr"
    and a: "acquire_start (cfgs i) flr utc (e, s, prev, v) m = AcquireSend nx data sgd pred"
    and q: "rq_by q = i" "rq_cond q = (if prev = None then None else Some v)" "rq_data q = data" "rq_sent q = t"
  shows "req_ok ver cfgs F t h q"
    "inst_ok ver cfgs F t h (insert q net) off i m (AcquireWait nx sgd pred fresh (t + off) wall q None)"
proof -
  note nx = acquire_send [OF a]
  have i': "op_ok ver cfgs F t h net off i m (AcquireWanted (e, s, prev, v))" using i by (simp add: inst_ok_def)
  obtain p where p: "mg_role m = RoleStandby" "cpos ver h (rq_cond q) p" "upto_pos ver h net i p"
      "s = of_nat (p + 1)" "unat e \<le> F + p + 1"
      "0 < p \<longrightarrow> (let w = h ! (p - 1); l' = lease_of (wr_data w) in ls_Epoch l' < e
                \<and> (wr_by w \<noteq> i \<longrightarrow> Released l' \<or> wr_at w + ls_TTLSeconds l' * go_Second \<le> t))"
    using i' unfolding op_ok_def q(2) by (simp only: op.case prod.case) blast
  have same: "same_lease nx (rq_data q)" using nx(1) q(3) manager_encode_same by simp
  have "ha_New (cfgs i) = Ok new_manager" using inv(2) by (simp add: valid_configs_def)
  then have id: "cf_InstanceID (cfgs i) \<noteq> []" by (auto simp: ha_New_def split: if_splits)
  have e: "e \<le> ls_Epoch nx" "unat (ls_Epoch nx) \<le> F + p + 1"
  proof -
    have "unat (ff + 1) \<le> F + p + 1" if "flr = Some (Ok ff)" for ff
      using f that inv(1) epoch_next(1) [of ff F 0] by (simp add: floor_below_def)
    then show "e \<le> ls_Epoch nx" "unat (ls_Epoch nx) \<le> F + p + 1"
      using nx(5) p(5) by (auto simp: max_def split: option.splits sum.splits)
  qed
  have fol: "follows cfgs F h i p nx t"
    unfolding follows_def using nx(2,3) p(4,6) e by (auto simp: Let_def)
  show "req_ok ver cfgs F t h q"
    unfolding req_ok_def using same_lease_of(1) [OF same] q(1,4) p(2) fol by (auto simp: follows_same [OF same])
  show "inst_ok ver cfgs F t h (insert q net) off i m (AcquireWait nx sgd pred fresh (t + off) wall q None)"
    using i p(1,2) upto_insert [OF p(3,2)] q(1,4) same fol id nx(4)
    by (auto simp: inst_ok_def op_ok_def Released_def reply_ok_def)
qed

lemma inst_ok_acquire_finish:
  assumes inv: "hist_ok cfgs F t h" "length h < 2 ^ 64" "distinct_versions ver"
    and i: "inst_ok ver cfgs F t h net off i m (AcquireWait nx sgd pred fresh sent sentWall q r)" and r: "may_reply r reply"
  shows "inst_ok ver cfgs F t h net off i (acquire_finish cfg nx sgd pred fresh sent sentWall reply m) Idle"
proof -
  let ?m = "acquire_finish cfg nx sgd pred fresh sent sentWall reply m"
  have o: "mg_role m = RoleStandby" "sent = rq_sent q + off" "same_lease nx (rq_data q)" "\<not> Released nx"
    using i by (auto simp: inst_ok_def op_ok_def)
  obtain p where p: "upto_pos ver h net i p" "follows cfgs F h i p nx (rq_sent q)" "reply_ok ver h i q r p"
    using i by (auto simp: inst_ok_def op_ok_def)
  show ?thesis
  proof (cases reply)
    case (Inl e)
    then have "?m = m \<or> ?m = recordError m" by (cases e) (simp_all add: acquire_finish_def)
    then show ?thesis using i o(1) by (auto simp: inst_ok_def op_ok_def seen_ok_def)
  next
    case (Inr v)
    then have rv: "reply_ok ver h i q (Some (Ok v)) p" using r p(3) by (simp add: may_reply_def)
    have m: "mg_role ?m = RoleActive" "mg_version ?m = v" "mg_lease ?m = nx" "mg_sentAt ?m = sent"
      "mg_seenVersion ?m = v" "mg_seenEpoch ?m = ls_Epoch nx"
      using Inr by (auto simp: acquire_finish_def notify_def Let_def split: option.splits)
    have "active_ok ver cfgs h net off i ?m False"
      by (rule active_ok_acked [OF inv p(1) rv o(3,4)]) (use p(2) m o(2) in \<open>auto simp: follows_def\<close>)
    moreover have "p < length h" "wr_by (h ! p) = i" "ver (wr_data (h ! p)) = v" using rv by (auto simp: reply_ok_def)
    then have "cpos ver h (Some v) (p + 1)" "wr_by (h ! (p + 1 - 1)) = i" by (simp_all add: cpos_def)
    then have "seen_ok ver F h off i ?m"
      using m(5,6) p(2) \<open>p < length h\<close> by (auto simp: seen_ok_def follows_def)
    ultimately show ?thesis using m(1) by (simp add: inst_ok_def op_ok_def releasing_def)
  qed
qed

end
