(* ===== verification/Ha_Safety.thy ===== *)
theory Ha_Safety
  imports Ha_Cluster_Steps
begin

text \<open>
  The safety of the cluster: at most one instance passes the fencing check at any moment, and
  epochs grow with every change of the holder. The proofs hold for every store that keeps the contract of
  \<open>lease_store\<close> and are interpreted on the local driver.
\<close>

section \<open>Clusters over a conditional store\<close>

locale ha_store = lease_store rd create replace obj ver fits
  for rd :: "'s \<Rightarrow> store_error + (lease_object \<times> string)" and create replace obj ver fits
begin

lemma apply_request_cases:
  assumes "apply_request create replace q s = (r, s')" and fit: "\<And>c. obj s = Some c \<Longrightarrow> fits c"
  obtains (Applied) "r = Ok (ver (rq_data q))" "fits (rq_data q)" "obj s' = Some (rq_data q)"
      "rq_cond q = None \<and> obj s = None \<or> (\<exists>c. obj s = Some c \<and> rq_cond q = Some (ver c))"
    | (Refused) e where "r = Err e" "s' = s"
proof (cases "fits (rq_data q)")
  case False
  have "\<exists>e. apply_request create replace q s = (Err e, s)"
    using create_unfit [OF False, of s] replace_unfit [OF False, of _ s]
    by (cases "rq_cond q") (simp_all add: apply_request_def)
  then show ?thesis using assms(1) Refused by auto
next
  case True
  show ?thesis
  proof (cases "obj s")
    case None
    show ?thesis
    proof (cases "rq_cond q")
      case c: None
      from create_absent [OF None True] assms(1) c
      have "r = Ok (ver (rq_data q))" "obj s' = Some (rq_data q)" by (auto simp: apply_request_def)
      with c None True show ?thesis by (intro Applied) auto
    next
      case (Some v)
      then have "apply_request create replace q s = (Err ErrPreconditionFailed, s)"
        using replace_absent [OF None True] by (simp add: apply_request_def)
      with assms(1) show ?thesis by (intro Refused) auto
    qed
  next
    case (Some c)
    have c: "fits c" by (rule fit [OF Some])
    show ?thesis
    proof (cases "rq_cond q = Some (ver c)")
      case eq: True
      from replace_current [OF Some c True] obtain s2 where "replace (rq_data q) (ver c) s = (Ok (ver (rq_data q)), s2)"
        "obj s2 = Some (rq_data q)" by blast
      with assms(1) eq have "r = Ok (ver (rq_data q))" "obj s' = Some (rq_data q)" by (simp_all add: apply_request_def)
      with eq Some True show ?thesis by (intro Applied) auto
    next
      case ne: False
      have "r = Err ErrPreconditionFailed \<and> s' = s"
      proof (cases "rq_cond q")
        case None
        then show ?thesis using assms(1) create_present [OF Some True] by (simp add: apply_request_def)
      next
        case (Some v)
        with ne have "replace (rq_data q) v s = (Err ErrPreconditionFailed, s)"
          by (intro replace_stale [OF \<open>obj s = Some c\<close> c True]) simp
        with Some assms(1) show ?thesis by (simp add: apply_request_def)
      qed
      then show ?thesis by (intro Refused) auto
    qed
  qed
qed

lemma inv_deliver:
  assumes inv: "cluster_inv ver obj fits cfgs F S" and len: "length (cl_hist S) < 2 ^ 64" "distinct_versions ver"
    and q: "q \<in> cl_net S"
  shows "cluster_inv ver obj fits cfgs F (deliver create replace q S)"
proof -
  let ?h = "cl_hist S" and ?t = "cl_time S"
  have h: "hist_ok cfgs F ?t ?h" and st: "obj (cl_store S) = last_object ?h"
    and fit: "\<forall>w \<in> set ?h. fits (wr_data w)" and net: "\<And>q. q \<in> cl_net S \<Longrightarrow> req_ok ver cfgs F ?t ?h q"
    and inst: "\<And>i. inst_ok ver cfgs F ?t ?h (cl_net S) (cl_off S i) i (cl_mgr S i) (cl_op S i)"
    using inv by (auto simp: cluster_inv_def)
  have op: "(cl_op S)(rq_by q := put_reply q r (cl_op S (rq_by q))) = (\<lambda>i. put_reply q r (cl_op S i))" for r
  proof
    fix i show "((cl_op S)(rq_by q := put_reply q r (cl_op S (rq_by q)))) i = put_reply q r (cl_op S i)"
    proof (cases "rq_by q = i")
      case False
      then have "put_reply q r (cl_op S i) = cl_op S i"
        using inst [of i] by (intro put_reply_other) (auto simp: inst_ok_def)
      with False show ?thesis by simp
    qed simp
  qed
  obtain r s' where r: "apply_request create replace q (cl_store S) = (r, s')" by fastforce
  have fit': "fits c" if "obj (cl_store S) = Some c" for c
    using st fit that by (auto simp: last_object_def split: if_splits)
  show ?thesis
  proof (rule apply_request_cases [OF r fit'])
    assume Applied: "r = Ok (ver (rq_data q))" "fits (rq_data q)" "obj s' = Some (rq_data q)"
      "rq_cond q = None \<and> obj (cl_store S) = None \<or> (\<exists>c. obj (cl_store S) = Some c \<and> rq_cond q = Some (ver c))"
    let ?w = "\<lparr>wr_by = rq_by q, wr_data = rq_data q, wr_sent = rq_sent q, wr_at = ?t\<rparr>"
    have unique: "p = p'" if "cpos ver ?h c p" "cpos ver ?h c p'" for c p p'
      by (rule cpos_unique [OF h len that])
    have pos: "cpos ver ?h (rq_cond q) (length ?h)"
      using Applied(4) st cpos_last [of ?h ver] by (auto simp: last_object_def cpos_def split: if_splits)
    obtain p where p: "cpos ver ?h (rq_cond q) p" "follows cfgs F ?h (rq_by q) p (lease_of (rq_data q)) (rq_sent q)"
      "rq_data q = LeaseObject (lease_of (rq_data q))" "rq_sent q \<le> ?t"
      using net [OF q] by (auto simp: req_ok_def)
    have hist: "hist_ok cfgs F ?t (?h @ [?w])"
      by (rule hist_ok_snoc [OF h]) (use p unique [OF p(1) pos] in auto)
    have i: "inst_ok ver cfgs F ?t (?h @ [?w]) (cl_net S - {q}) (cl_off S i) i (cl_mgr S i) (put_reply q r (cl_op S i))" for i
      using inst [of i] seen_ok_append op_ok_deliver [OF _ q pos refl unique] Applied(1)
        active_ok_deliver [OF _ q pos _ _ unique, of cfgs "cl_off S i" i "cl_mgr S i" _ ?w]
      by (auto simp: inst_ok_def)
    from hist i fit net Applied(2,3) show ?thesis unfolding cluster_inv_def deliver_def r prod.case op Applied(1)
      by (auto simp: last_object_def intro: req_ok_append)
  next
    fix e assume Refused: "r = Err e" "s' = cl_store S"
    have i: "inst_ok ver cfgs F ?t ?h (cl_net S - {q}) (cl_off S i) i (cl_mgr S i) (put_reply q r (cl_op S i))" for i
    proof -
      have "inst_ok ver cfgs F ?t ?h (cl_net S) (cl_off S i) i (cl_mgr S i) (put_reply q r (cl_op S i))"
        using inst [of i] op_ok_refuse Refused(1) by (auto simp: inst_ok_def)
      then show ?thesis by (rule inst_ok_net) simp
    qed
    from i h st fit net Refused show ?thesis unfolding cluster_inv_def deliver_def r prod.case op
      by auto
  qed
qed

lemma inv_init:
  assumes "cluster_init obj S"
  shows "cluster_inv ver obj fits cfgs F S"
  using assms by (simp add: cluster_init_def cluster_inv_def last_object_def hist_ok_def inst_ok_def seen_ok_def
      op_ok_def new_manager_def)

lemma inv_read:
  assumes inv: "cluster_inv ver obj fits cfgs F S" and role: "mg_role (cl_mgr S i) = RoleStandby"
    and reply: "reply = rd (cl_store S) \<or> (\<exists>e. reply = Err e \<and> e \<noteq> ErrObjectNotFound)"
  shows "cluster_inv ver obj fits cfgs F (set_inst i (cl_mgr S i) (ReadDone reply) S)"
proof (rule inv_set_inst [OF inv])
  let ?h = "cl_hist S"
  have st: "obj (cl_store S) = last_object ?h" and fit: "\<forall>w \<in> set ?h. fits (wr_data w)"
    and net: "\<And>q. q \<in> cl_net S \<Longrightarrow> req_ok ver cfgs F (cl_time S) ?h q" and
    i: "inst_ok ver cfgs F (cl_time S) ?h (cl_net S) (cl_off S i) i (cl_mgr S i) (cl_op S i)"
    using inv by (auto simp: cluster_inv_def)
  have up: "upto_pos ver ?h (cl_net S) i (length ?h)"
    unfolding upto_pos_def using net cpos_le by (fastforce simp: req_ok_def)
  have e: "unat (mg_seenEpoch (cl_mgr S i)) \<le> F + length ?h" using i by (simp add: inst_ok_def seen_ok_def)
  have "op_ok ver cfgs F (cl_time S) ?h (cl_net S) (cl_off S i) i (cl_mgr S i) (ReadDone reply)"
  proof (cases "reply = rd (cl_store S)")
    case False
    with reply role show ?thesis by (auto simp: op_ok_def)
  next
    case True
    show ?thesis
    proof (cases "?h = []")
      case True
      then have "reply = Err ErrObjectNotFound" using \<open>reply = _\<close> st read_absent by (simp add: last_object_def)
      with role up e True show ?thesis by (simp add: op_ok_def)
    next
      case False
      let ?d = "wr_data (last ?h)"
      have "reply = Ok (?d, ver ?d)"
        using \<open>reply = _\<close> st fit False read_present [of "cl_store S" ?d] by (simp add: last_object_def)
      moreover have "?d = wr_data (?h ! (length ?h - 1))" using False by (simp add: last_conv_nth)
      ultimately show ?thesis using role up e cpos_last [OF False, of ver] by (auto simp: op_ok_def)
    qed
  qed
  with i role show "inst_ok ver cfgs F (cl_time S) ?h (cl_net S) (cl_off S i) i (cl_mgr S i) (ReadDone reply)"
    by (simp add: inst_ok_def)
qed

lemma inv_step:
  assumes step: "cluster_step cfgs F rd create replace S S'" and inv: "cluster_inv ver obj fits cfgs F S"
    and len: "F + length (cl_hist S) + 2 < 2 ^ 64" and ver: "distinct_versions ver" and cfgs: "valid_configs cfgs"
  shows "cluster_inv ver obj fits cfgs F S'"
proof -
  have h: "hist_ok cfgs F (cl_time S) (cl_hist S)" using inv by (simp add: cluster_inv_def)
  have l: "length (cl_hist S) < 2 ^ 64" using len by simp
  note i = inv_inst [OF inv]
  show ?thesis
    using step
  proof cases
    case (Tick d)
    then show ?thesis using inv hist_ok_later req_ok_later op_ok_later [of _ _ _ "cl_time S" _ _ _ _ _ _ "cl_time S + d"]
      by (auto simp: cluster_inv_def inst_ok_def)
  next
    case (Deliver q)
    then show ?thesis using inv_deliver [OF inv l ver] by simp
  next
    case (RenewLate i wall utc m)
    then have "m = stepDown (cfgs i) (clock S i) True (cl_mgr S i)"
      by (auto simp: renew_start_def Let_def split: if_splits)
    then show ?thesis using RenewLate inst_ok_stepDown' [OF i, of "cl_mgr S i"] by (auto intro: inv_set_inst [OF inv])
  next
    case (RenewStart i wall utc nx data version timeout q)
    then have nx: "nx = (mg_lease (cl_mgr S i))\<lparr>ls_Seq := ls_Seq (mg_lease (cl_mgr S i)) + 1, ls_RenewedAt := utc\<rparr>"
      "data = manager_encode (cfgs i) nx (mg_signed (cl_mgr S i))" "version = mg_version (cl_mgr S i)"
      by (auto simp: renew_start_def Let_def split: if_splits)
    have idle: "inst_ok ver cfgs F (cl_time S) (cl_hist S) (cl_net S) (cl_off S i) i (cl_mgr S i) Idle"
      using i [of i] RenewStart(2) by simp
    have live: "\<not> Released nx" using idle RenewStart(3) nx(1)
      by (auto simp: inst_ok_def active_ok_def Let_def Released_def)
    have q: "rq_by q = i" "rq_cond q = Some (mg_version (cl_mgr S i))" "rq_sent q = cl_time S" "same_lease nx (rq_data q)"
      using RenewStart(5) nx manager_encode_same by (simp_all add: new_request_def)
    note w = inst_ok_write [OF h idle RenewStart(3) q, of False]
    have x: "inst_ok ver cfgs F (cl_time S) (cl_hist S) (insert q (cl_net S)) (cl_off S i) i (cl_mgr S i)
        (RenewWait nx (clock S i) wall q None)"
      using w(2,3) live nx(1) q idle RenewStart(3)
      by (simp add: inst_ok_def op_ok_def releasing_def reply_ok_def clock_def)
    show ?thesis unfolding RenewStart(1)
      by (rule inv_send [OF inv q(1) _ x]) (use w(1) nx(1) live in simp)
  next
    case (RenewFinish i nx sent sentWall q r reply wall)
    then show ?thesis using i [of i] by (auto intro: inv_set_inst [OF inv] inst_ok_renew_finish [OF h l ver])
  next
    case (ConfirmStart i mark m)
    then have m: "mg_role m = mg_role (cl_mgr S i)" "mg_version m = mg_version (cl_mgr S i)" "mg_sentAt m = mg_sentAt (cl_mgr S i)"
      "mg_seenVersion m = mg_seenVersion (cl_mgr S i)" "mg_seenAt m = mg_seenAt (cl_mgr S i)" "mg_seenEpoch m = mg_seenEpoch (cl_mgr S i)"
      "\<exists>mk. mg_lease m = withSnapshotMark mk (mg_lease (cl_mgr S i))"
      by (auto simp: Confirm_start_def split: if_splits)
    then show ?thesis unfolding ConfirmStart(1)
      using i [of i] ConfirmStart(2) active_ok_cong [of m "cl_mgr S i"] seen_ok_cong [of m "cl_mgr S i"]
      by (intro inv_set_inst [OF inv]) (auto simp: inst_ok_def op_ok_def)
  next
    case (SnapshotStart i mark m)
    then have m: "mg_role m = mg_role (cl_mgr S i)" "mg_version m = mg_version (cl_mgr S i)" "mg_sentAt m = mg_sentAt (cl_mgr S i)"
      "mg_seenVersion m = mg_seenVersion (cl_mgr S i)" "mg_seenAt m = mg_seenAt (cl_mgr S i)" "mg_seenEpoch m = mg_seenEpoch (cl_mgr S i)"
      "\<exists>mk. mg_lease m = withSnapshotMark mk (mg_lease (cl_mgr S i))"
      by (auto simp: RecordSnapshot_start_def split: if_splits)
    then show ?thesis unfolding SnapshotStart(1)
      using i [of i] SnapshotStart(2) active_ok_cong [of m "cl_mgr S i"] seen_ok_cong [of m "cl_mgr S i"]
      by (intro inv_set_inst [OF inv]) (auto simp: inst_ok_def op_ok_def)
  next
    case (Read i reply)
    then show ?thesis using inv_read [OF inv] by simp
  next
    case (ObserveStop i rr m)
    then show ?thesis using inst_ok_observe [OF h len ver cfgs, of "cl_net S" "cl_off S i" i "cl_mgr S i" rr m None] i [of i]
      by (auto simp: clock_def intro: inv_set_inst [OF inv])
  next
    case (ObserveAcquire i rr m args)
    then show ?thesis using inst_ok_observe [OF h len ver cfgs, of "cl_net S" "cl_off S i" i "cl_mgr S i" rr m "Some args"] i [of i]
      by (auto simp: clock_def intro: inv_set_inst [OF inv])
  next
    case (AcquireDefer i args flr utc m)
    then have "m = recordError (cl_mgr S i)"
      by (auto simp: acquire_start_def Let_def split: prod.splits option.splits sum.splits)
    moreover have "mg_role (cl_mgr S i) = RoleStandby"
      using i [of i] AcquireDefer(2) by (auto simp: inst_ok_def op_ok_def split: prod.splits)
    ultimately show ?thesis unfolding AcquireDefer(1) using i [of i] seen_ok_cong [of m "cl_mgr S i"]
      by (intro inv_set_inst [OF inv]) (auto simp: inst_ok_def op_ok_def)
  next
    case (AcquireStart i epoch seq prev version flr utc nx data sgd pred q wall)
    have wanted: "inst_ok ver cfgs F (cl_time S) (cl_hist S) (cl_net S) (cl_off S i) i (cl_mgr S i)
        (AcquireWanted (epoch, seq, prev, version))" using i [of i] AcquireStart(2) by simp
    note a = inst_ok_acquire_start [OF len cfgs wanted AcquireStart(3,4), of q]
    from AcquireStart(5) show ?thesis unfolding AcquireStart(1)
      by (intro inv_send [OF inv]) (use a in \<open>simp_all add: new_request_def clock_def\<close>)
  next
    case (AcquireFinish i nx sgd pred fresh sent sentWall q r reply)
    then show ?thesis using i [of i] by (auto intro: inv_set_inst [OF inv] inst_ok_acquire_finish [OF h l ver])
  next
    case (ReleaseStart i utc nx data version q)
    then have nx: "nx = (mg_lease (cl_mgr S i))\<lparr>ls_Holder := [], ls_HolderName := [], ls_Seq := ls_Seq (mg_lease (cl_mgr S i)) + 1,
        ls_RenewedAt := utc\<rparr>" "data = manager_encode (cfgs i) nx (mg_signed (cl_mgr S i))" "version = mg_version (cl_mgr S i)"
      and role: "mg_role (cl_mgr S i) = RoleActive"
      by (auto simp: release_start_def Let_def split: if_splits)
    have idle: "inst_ok ver cfgs F (cl_time S) (cl_hist S) (cl_net S) (cl_off S i) i (cl_mgr S i) Idle"
      using i [of i] ReleaseStart(2) by simp
    have q: "rq_by q = i" "rq_cond q = Some (mg_version (cl_mgr S i))" "rq_sent q = cl_time S" "same_lease nx (rq_data q)"
      using ReleaseStart(4) nx manager_encode_same by (simp_all add: new_request_def)
    note w = inst_ok_write [OF h idle role q, of True]
    have x: "inst_ok ver cfgs F (cl_time S) (cl_hist S) (insert q (cl_net S)) (cl_off S i) i (cl_mgr S i) (ReleaseWait nx q None)"
      using w(2,3) nx(1) q idle role by (simp add: inst_ok_def op_ok_def releasing_def reply_ok_def)
    show ?thesis unfolding ReleaseStart(1) by (rule inv_send [OF inv q(1) _ x]) (use w(1) nx(1) in simp)
  next
    case (ReleaseFinish i nx q r reply wall)
    then show ?thesis using i [of i] by (auto intro: inv_set_inst [OF inv] inst_ok_release_finish [OF h l ver])
  next
    case (GiveUp i)
    then show ?thesis using inst_ok_stepDown' [OF i, of "cl_mgr S i"] by (auto intro: inv_set_inst [OF inv])
  next
    case (Restart i off')
    have "inst_ok ver cfgs F (cl_time S) (cl_hist S) (cl_net S) off' i new_manager Idle"
      by (simp add: inst_ok_def seen_ok_def op_ok_def new_manager_def)
    with inv Restart show ?thesis by (simp add: cluster_inv_def set_inst_def)
  qed
qed

lemma step_history: "cluster_step cfgs F rd create replace S S' \<Longrightarrow> length (cl_hist S) \<le> length (cl_hist S')"
  by (erule cluster_step.cases) (auto simp: deliver_def set_inst_def send_def split: prod.splits sum.splits)

lemma reach_inv:
  assumes "cluster_reach cfgs F rd create replace obj S" "distinct_versions ver" "valid_configs cfgs"
  shows "F + length (cl_hist S) + 2 < 2 ^ 64 \<Longrightarrow> cluster_inv ver obj fits cfgs F S"
  using assms(1)
proof induction
  case (reach_init S)
  then show ?case using inv_init by blast
next
  case (reach_step S S')
  from step_history [OF reach_step(2)] reach_step(4) have "F + length (cl_hist S) + 2 < 2 ^ 64" by simp
  from inv_step [OF reach_step(2) reach_step(3) [OF this] this assms(2,3)] show ?case .
qed

end

section \<open>At most one active instance\<close>

lemma valid_timing:
  assumes "valid_configs cfgs"
  shows "MinTTL \<le> cf_TTL (cfgs i)" "cf_TTL (cfgs i) \<le> MaxTTL" "go_Second \<le> cf_Renew (cfgs i)" "cf_InstanceID (cfgs i) \<noteq> []"
proof -
  have "ha_New (cfgs i) = Ok new_manager" using assms by (simp add: valid_configs_def)
  then show "MinTTL \<le> cf_TTL (cfgs i)" "cf_TTL (cfgs i) \<le> MaxTTL" "go_Second \<le> cf_Renew (cfgs i)" "cf_InstanceID (cfgs i) \<noteq> []"
    by (auto simp: ha_New_def ValidateTiming_def MinRenew_def split: if_splits option.splits)
qed

lemma ttl_seconds_close:
  assumes "valid_configs cfgs"
  shows "(cf_TTL (cfgs i) sdiv go_Second) * go_Second > cf_TTL (cfgs i) - go_Second"
proof -
  have "0 < cf_TTL (cfgs i)" using valid_timing(1) [OF assms, of i] by (simp add: MinTTL_def go_units)
  then have "cf_TTL (cfgs i) sdiv go_Second = cf_TTL (cfgs i) div go_Second"
    by (simp add: signed_divide_int_def sgn_if go_units)
  then show ?thesis using pos_mod_bound [of go_Second "cf_TTL (cfgs i)"] div_mult_mod_eq [of "cf_TTL (cfgs i)" go_Second]
    by (simp add: go_units)
qed

text \<open>While an instance is before its deadline and has not started to release the lease, nobody else wrote
  the lease after it.\<close>

lemma holder_undisturbed:
  assumes inv: "cluster_inv ver obj fits cfgs F S" and cfgs: "valid_configs cfgs"
    and a: "active_ok ver cfgs (cl_hist S) net (cl_off S i) i (cl_mgr S i) False"
    and live: "clock S i < deadlineLocked (cfgs i) (cl_mgr S i)"
  obtains p where "0 < p" "p \<le> length (cl_hist S)" "wr_by (cl_hist S ! (p - 1)) = i"
    "ls_Epoch (mg_lease (cl_mgr S i)) = ls_Epoch (lease_of (wr_data (cl_hist S ! (p - 1))))"
    "\<forall>k. p \<le> k \<and> k < length (cl_hist S) \<longrightarrow> wr_by (cl_hist S ! k) = i"
proof -
  let ?h = "cl_hist S"
  have h: "hist_ok cfgs F (cl_time S) ?h" using inv by (simp add: cluster_inv_def)
  obtain p where p: "cpos ver ?h (Some (mg_version (cl_mgr S i))) p" "upto_pos ver ?h net i p"
    and w: "wr_by (?h ! (p - 1)) = i" "mg_sentAt (cl_mgr S i) = wr_sent (?h ! (p - 1)) + cl_off S i"
      "\<not> Released (lease_of (wr_data (?h ! (p - 1))))"
      "ls_Epoch (mg_lease (cl_mgr S i)) = ls_Epoch (lease_of (wr_data (?h ! (p - 1))))"
    and nr: "p < length ?h \<and> wr_by (?h ! p) = i \<longrightarrow> \<not> Released (lease_of (wr_data (?h ! p)))"
    using a unfolding active_ok_def Let_def by blast
  have len: "0 < p" "p \<le> length ?h" "p - 1 < length ?h" using p(1) by (auto simp: cpos_def)
  have "wr_by (?h ! k) = i" if k: "p \<le> k" "k < length ?h" for k
  proof (rule ccontr)
    assume other: "wr_by (?h ! k) \<noteq> i"
    define l where "l = (LEAST k. p \<le> k \<and> wr_by (?h ! k) \<noteq> i)"
    have l: "p \<le> l" "wr_by (?h ! l) \<noteq> i" and "l \<le> k"
      using LeastI [of "\<lambda>k. p \<le> k \<and> wr_by (?h ! k) \<noteq> i" k] Least_le [of "\<lambda>k. p \<le> k \<and> wr_by (?h ! k) \<noteq> i" k] k other
      by (auto simp: l_def)
    with k have ll: "l < length ?h" "0 < l" using len by auto
    have before: "wr_by (?h ! (l - 1)) = i"
    proof (cases "l = p")
      case False
      then have "p \<le> l - 1" using l(1) by simp
      then show ?thesis using not_less_Least [of "l - 1" "\<lambda>k. p \<le> k \<and> wr_by (?h ! k) \<noteq> i"] ll(2) by (auto simp: l_def)
    qed (use w(1) in simp)
    have "\<not> p < l - 1"
    proof
      assume "p < l - 1"
      moreover have "l - 1 < length ?h" using ll by simp
      ultimately have "wr_by (?h ! (l - 1)) \<noteq> i" using p(2) unfolding upto_pos_def by blast
      with before show False by simp
    qed
    then have "l - 1 = p - 1 \<or> l - 1 = p" using l(1) by arith
    then have unreleased: "\<not> Released (lease_of (wr_data (?h ! (l - 1))))"
      and at: "wr_at (?h ! (p - 1)) \<le> wr_at (?h ! (l - 1))"
      using w(3) nr before ll hist_ok_nth(5) [OF h, of p] len(1) by auto
    have secs: "ls_TTLSeconds (lease_of (wr_data (?h ! (l - 1)))) = cf_TTL (cfgs i) sdiv go_Second"
      using hist_ok_nth(2) [OF h, of "l - 1"] before ll by (simp add: follows_def)
    have "wr_at (?h ! (l - 1)) + ls_TTLSeconds (lease_of (wr_data (?h ! (l - 1)))) * go_Second \<le> wr_sent (?h ! l)"
      using hist_ok_nth(2) [OF h ll(1)] ll(2) before l(2) unreleased by (auto simp: follows_def Let_def)
    also have "\<dots> \<le> cl_time S" using hist_ok_nth(3,4) [OF h ll(1)] by simp
    finally have "wr_at (?h ! (p - 1)) + (cf_TTL (cfgs i) sdiv go_Second) * go_Second \<le> cl_time S"
      using at secs by simp
    moreover have "wr_sent (?h ! (p - 1)) \<le> wr_at (?h ! (p - 1))" by (rule hist_ok_nth(3) [OF h len(3)])
    moreover have "cl_time S < wr_sent (?h ! (p - 1)) + (cf_TTL (cfgs i) - cf_Renew (cfgs i))"
      using live w(2) by (simp add: clock_def deadlineLocked_def)
    ultimately show False using ttl_seconds_close [OF cfgs, of i] valid_timing(3) [OF cfgs, of i] by linarith
  qed
  with that len w show ?thesis by blast
qed

lemma check_passes:
  assumes "cluster_inv ver obj fits cfgs F S" "Check (cfgs i) (clock S i) wall (cl_mgr S i) = None" "\<not> releasing (cl_op S i)"
  shows "active_ok ver cfgs (cl_hist S) (cl_net S) (cl_off S i) i (cl_mgr S i) False"
    "clock S i < deadlineLocked (cfgs i) (cl_mgr S i)"
  using assms inv_inst [OF assms(1), of i] by (auto simp: Check_def expiredLocked_def inst_ok_def split: if_splits)

lemma exclusive_check:
  assumes inv: "cluster_inv ver obj fits cfgs F S" and cfgs: "valid_configs cfgs" and "i \<noteq> j"
    and i: "Check (cfgs i) (clock S i) wall (cl_mgr S i) = None" "\<not> releasing (cl_op S i)"
    and j: "\<not> releasing (cl_op S j)"
  shows "Check (cfgs j) (clock S j) wall' (cl_mgr S j) = Some ErrNotActive"
proof (rule ccontr)
  assume "\<not> ?thesis"
  then have cj: "Check (cfgs j) (clock S j) wall' (cl_mgr S j) = None" by (simp add: Check_def split: if_splits)
  obtain p where p: "0 < p" "p \<le> length (cl_hist S)" "wr_by (cl_hist S ! (p - 1)) = i"
    "ls_Epoch (mg_lease (cl_mgr S i)) = ls_Epoch (lease_of (wr_data (cl_hist S ! (p - 1))))"
    "\<forall>k. p \<le> k \<and> k < length (cl_hist S) \<longrightarrow> wr_by (cl_hist S ! k) = i"
    by (rule holder_undisturbed [OF inv cfgs check_passes [OF inv i]])
  obtain r where r: "0 < r" "r \<le> length (cl_hist S)" "wr_by (cl_hist S ! (r - 1)) = j"
    "ls_Epoch (mg_lease (cl_mgr S j)) = ls_Epoch (lease_of (wr_data (cl_hist S ! (r - 1))))"
    "\<forall>k. r \<le> k \<and> k < length (cl_hist S) \<longrightarrow> wr_by (cl_hist S ! k) = j"
    by (rule holder_undisturbed [OF inv cfgs check_passes [OF inv cj j]])
  have "r - 1 < p" using p(5) [THEN spec, of "r - 1"] r(1-3) \<open>i \<noteq> j\<close> by auto
  moreover have "p - 1 < r" using r(5) [THEN spec, of "p - 1"] p(1-3) \<open>i \<noteq> j\<close> by auto
  ultimately have "p = r" using p(1) r(1) by simp
  with p(3) r(3) \<open>i \<noteq> j\<close> show False by simp
qed

section \<open>Epochs\<close>

lemma epochs_sorted:
  assumes h: "hist_ok cfgs F t h" and l: "l < length h" and k: "k \<le> l"
  shows "ls_Epoch (lease_of (wr_data (h ! k))) \<le> ls_Epoch (lease_of (wr_data (h ! l)))
    \<and> (wr_by (h ! k) \<noteq> wr_by (h ! l) \<longrightarrow> ls_Epoch (lease_of (wr_data (h ! k))) < ls_Epoch (lease_of (wr_data (h ! l))))"
  using k l
proof (induction l rule: dec_induct)
  case (step l)
  have "ls_Epoch (lease_of (wr_data (h ! l))) \<le> ls_Epoch (lease_of (wr_data (h ! Suc l)))
     \<and> (wr_by (h ! l) \<noteq> wr_by (h ! Suc l) \<longrightarrow> ls_Epoch (lease_of (wr_data (h ! l))) < ls_Epoch (lease_of (wr_data (h ! Suc l))))"
    using hist_ok_nth(2) [OF h step(4)] by (simp add: follows_def Let_def)
  with step show ?case by (cases "wr_by (h ! l) = wr_by (h ! Suc l)") auto
qed simp

lemma active_epochs_differ:
  assumes inv: "cluster_inv ver obj fits cfgs F S" and "i \<noteq> j"
    and "mg_role (cl_mgr S i) = RoleActive" "mg_role (cl_mgr S j) = RoleActive"
  shows "Epoch (cl_mgr S i) \<noteq> Epoch (cl_mgr S j)"
proof -
  let ?h = "cl_hist S"
  have h: "hist_ok cfgs F (cl_time S) ?h" using inv by (simp add: cluster_inv_def)
  have held: "\<exists>k < length ?h. wr_by (?h ! k) = n \<and> Epoch (cl_mgr S n) = ls_Epoch (lease_of (wr_data (?h ! k)))"
    if act: "mg_role (cl_mgr S n) = RoleActive" for n
  proof -
    obtain p where "cpos ver ?h (Some (mg_version (cl_mgr S n))) p" "wr_by (?h ! (p - 1)) = n"
      "ls_Epoch (mg_lease (cl_mgr S n)) = ls_Epoch (lease_of (wr_data (?h ! (p - 1))))"
      using inv_inst [OF inv, of n] act by (auto simp: inst_ok_def active_ok_def Let_def)
    then show ?thesis using act by (intro exI [of _ "p - 1"]) (auto simp: cpos_def Epoch_def)
  qed
  obtain k l where k: "k < length ?h" "wr_by (?h ! k) = i" "Epoch (cl_mgr S i) = ls_Epoch (lease_of (wr_data (?h ! k)))"
    and l: "l < length ?h" "wr_by (?h ! l) = j" "Epoch (cl_mgr S j) = ls_Epoch (lease_of (wr_data (?h ! l)))"
    using held [OF assms(3)] held [OF assms(4)] by blast
  show ?thesis
    using epochs_sorted [OF h l(1), of k] epochs_sorted [OF h k(1), of l] k l \<open>i \<noteq> j\<close>
    by (cases "k \<le> l") auto
qed

interpretation local_ha: ha_store "local_ReadVersioned sz sha" "local_CreateIfAbsent sz sha"
  "local_ReplaceIfMatch sz sha" "\<lambda>st. st" "contentVersion sha" "fits_lease sz" for sz sha
  by unfold_locales

end
