(* ===== verification/Ha_Props.thy ===== *)
theory Ha_Props
  imports Ha_Safety
begin

text \<open>
  The properties of the lease manager and of a cluster of managers over the local lease store:
  mutual exclusion, fencing epochs, takeovers, the deadlines of renewals, and the trust in the lease that was replaced.
\<close>

section \<open>A first activation\<close>

abbreviation local_step :: "(nat \<Rightarrow> HaConfig) \<Rightarrow> nat \<Rightarrow> (lease_object \<Rightarrow> nat) \<Rightarrow> (lease_object \<Rightarrow> string)
   \<Rightarrow> lease_object option cluster \<Rightarrow> lease_object option cluster \<Rightarrow> bool" where
  "local_step cfgs F sz sha \<equiv> cluster_step cfgs F (local_ReadVersioned sz sha) (local_CreateIfAbsent sz sha) (local_ReplaceIfMatch sz sha)"

abbreviation local_reach :: "(nat \<Rightarrow> HaConfig) \<Rightarrow> nat \<Rightarrow> (lease_object \<Rightarrow> nat) \<Rightarrow> (lease_object \<Rightarrow> string)
   \<Rightarrow> lease_object option cluster \<Rightarrow> bool" where
  "local_reach cfgs F sz sha \<equiv> cluster_reach cfgs F (local_ReadVersioned sz sha) (local_CreateIfAbsent sz sha)
     (local_ReplaceIfMatch sz sha) (\<lambda>st. st)"

lemma first_activation:
  assumes reach: "local_reach cfgs F sz sha S" and init: "cluster_init (\<lambda>st. st) S"
    and "\<And>d. sz d \<le> MaxLeaseObjectSize" "zero_time \<le> clock S i" "cf_Renew (cfgs i) < cf_TTL (cfgs i)"
  shows "\<exists>S'. local_reach cfgs F sz sha S' \<and> length (cl_hist S') = 1 \<and> cl_op S' = (\<lambda>_. Idle) \<and> clock S' i = clock S i
     \<and> (\<forall>j. j \<noteq> i \<longrightarrow> cl_mgr S' j = new_manager)
     \<and> mg_role (cl_mgr S' i) = RoleActive \<and> Check (cfgs i) (clock S' i) wall (cl_mgr S' i) = None"
proof -
  have S: "cl_store S = None" "cl_hist S = []" "cl_mgr S = (\<lambda>_. new_manager)" "cl_op S = (\<lambda>_. Idle)" "cl_net S = {}"
    using init by (simp_all add: cluster_init_def)
  define now where "now = clock S i"
  define m1 where "m1 = new_manager\<lparr>mg_healthy := True, mg_seen := zero_lease, mg_seenVersion := []\<rparr>"
  let ?args = "(mg_seenEpoch new_manager + 1, 1, None, []) :: acquire_args"
  have obs: "observe_finish (cfgs i) (Err ErrObjectNotFound) now new_manager = (m1, Some ?args)"
    using assms(4) by (simp add: observe_finish_def m1_def now_def new_manager_def)
  obtain nx data sgd pred where acq: "acquire_start (cfgs i) None now ?args m1 = AcquireSend nx data sgd pred"
    by (simp add: acquire_start_def Let_def)
  define S1 where "S1 = set_inst i new_manager (ReadDone (Err ErrObjectNotFound)) S"
  define S2 where "S2 = set_inst i m1 (AcquireWanted ?args) S1"
  define q where "q = new_request S2 i None data"
  define S3 where "S3 = send q (set_inst i m1 (AcquireWait nx sgd pred True now wall q None) S2)"
  define S4 where "S4 = deliver (local_CreateIfAbsent sz sha) (local_ReplaceIfMatch sz sha) q S3"
  define S5 where "S5 = set_inst i (acquire_finish (cfgs i) nx sgd pred True now wall (Ok (contentVersion sha data)) m1) Idle S4"
  have s1: "local_step cfgs F sz sha S S1"
    unfolding S1_def by (rule Read [of S i "Err ErrObjectNotFound", unfolded S(3)])
      (use S in \<open>simp_all add: new_manager_def local_ReadVersioned_def readLeaseFile_def\<close>)
  have c1: "clock S1 i = now" "cl_op S1 i = ReadDone (Err ErrObjectNotFound)" "cl_mgr S1 i = new_manager"
    by (simp_all add: S1_def set_inst_def clock_def now_def)
  have s2: "local_step cfgs F sz sha S1 S2"
    unfolding S2_def by (rule ObserveAcquire [OF c1(2)]) (simp add: c1 obs)
  have c2: "clock S2 i = now" "cl_op S2 i = AcquireWanted ?args" "cl_mgr S2 i = m1" "cl_store S2 = None" "cl_hist S2 = []"
    using S by (simp_all add: S2_def S1_def set_inst_def clock_def now_def)
  have s3: "local_step cfgs F sz sha S2 S3"
    using AcquireStart [OF c2(2), of F None cfgs now nx data sgd pred q _ _ _ wall] acq c2
    by (simp add: S3_def q_def floor_below_def)
  have c3: "q \<in> cl_net S3" "cl_op S3 i = AcquireWait nx sgd pred True now wall q None" "cl_mgr S3 i = m1"
    "cl_store S3 = None" "cl_hist S3 = []" "rq_by q = i" "rq_cond q = None" "rq_data q = data"
    using c2 by (simp_all add: S3_def send_def set_inst_def q_def new_request_def)
  have s4: "local_step cfgs F sz sha S3 S4" unfolding S4_def by (rule Deliver [OF c3(1)])
  have "\<not> MaxLeaseObjectSize < sz data" using assms(3) [of data] by simp
  then have ap: "apply_request (local_CreateIfAbsent sz sha) (local_ReplaceIfMatch sz sha) q (cl_store S3)
      = (Ok (contentVersion sha data), Some data)"
    using c3 by (simp add: apply_request_def local_CreateIfAbsent_def)
  have c4: "cl_op S4 i = AcquireWait nx sgd pred True now wall q (Some (Ok (contentVersion sha data)))" "cl_mgr S4 i = m1"
    "length (cl_hist S4) = 1"
    unfolding S4_def deliver_def ap using c3 by (simp_all add: put_reply_def)
  have s5: "local_step cfgs F sz sha S4 S5"
    using AcquireFinish [OF c4(1), of "Ok (contentVersion sha data)" cfgs] c4 by (simp add: S5_def may_reply_def)
  have "local_reach cfgs F sz sha S5"
    by (rule reach_step [OF reach_step [OF reach_step [OF reach_step [OF reach_step [OF reach s1] s2] s3] s4] s5])
  moreover have "cl_op S5 = (\<lambda>_. Idle)" "length (cl_hist S5) = 1" "clock S5 i = now"
    using c4(3) S unfolding S5_def S4_def deliver_def ap
    by (auto simp: set_inst_def S3_def send_def S2_def S1_def clock_def now_def c3 fun_eq_iff)
  moreover have "cl_mgr S5 j = new_manager" if "j \<noteq> i" for j
    using that S unfolding S5_def S4_def deliver_def ap by (simp add: set_inst_def S3_def send_def S2_def S1_def)
  moreover have m5: "cl_mgr S5 i = acquire_finish (cfgs i) nx sgd pred True now wall (Ok (contentVersion sha data)) m1"
    by (simp add: S5_def set_inst_def)
  moreover have f: "mg_role (cl_mgr S5 i) = RoleActive" "mg_sentAt (cl_mgr S5 i) = now" "mg_sentWall (cl_mgr S5 i) = wall"
    unfolding m5 by (auto simp: acquire_finish_def Let_def notify_def split: option.split)
  moreover have "Check (cfgs i) now wall (cl_mgr S5 i) = None"
    using assms(5) f by (simp add: Check_def expiredLocked_def deadlineLocked_def go_Sub_def sat64_def)
  ultimately show ?thesis by (auto simp: now_def)
qed

text \<open>A cluster of two for the examples: versions are told apart by the sequence number.\<close>

definition sample_config :: HaConfig where
  "sample_config = \<lparr>cf_Cluster = ''prod'', cf_InstanceID = ''a1'', cf_InstanceName = ''host'', cf_KeyID = [], cf_MACKey = None,
     cf_TTL = 30 * go_Second, cf_Renew = 10 * go_Second, cf_hmac = (\<lambda>k m. k @ m), cf_timefmt = sample_ft\<rparr>"

definition sample_sha :: "lease_object \<Rightarrow> string" where
  "sample_sha d = replicate (Suc (unat (ls_Seq (lease_of d)))) CHR ''x''"

definition sample_cluster :: "lease_object option cluster" where
  "sample_cluster = \<lparr>cl_time = 0, cl_store = None, cl_hist = [], cl_mgr = (\<lambda>_. new_manager), cl_op = (\<lambda>_. Idle),
     cl_net = {}, cl_off = (\<lambda>_. 5), cl_next = 0\<rparr>"

lemma sample_valid: "valid_configs (\<lambda>_. sample_config)"
  by (simp add: valid_configs_def ha_New_def sample_config_def ValidateCluster_def lower_or_digit_def ValidateTiming_def
      MinTTL_def MaxTTL_def MinRenew_def go_units less_eq_char_def)

lemma sample_distinct: "distinct_versions (contentVersion sample_sha)"
  by (auto simp: distinct_versions_def contentVersion_def sample_sha_def hex_EncodeToString_inj lease_of_def
      replicate_eq_replicate word_unat_eq_iff simp del: replicate_Suc)

lemma sample_active:
  "\<exists>S'. local_reach (\<lambda>_. sample_config) 0 (\<lambda>_. 0) sample_sha S' \<and> length (cl_hist S') = 1 \<and> cl_op S' = (\<lambda>_. Idle)
     \<and> cl_mgr S' 1 = new_manager \<and> mg_role (cl_mgr S' 0) = RoleActive \<and> Check sample_config (clock S' 0) 0 (cl_mgr S' 0) = None"
proof -
  have init: "cluster_init (\<lambda>st. st) sample_cluster" by (simp add: cluster_init_def sample_cluster_def)
  have t: "zero_time \<le> clock sample_cluster 0" by (simp add: clock_def sample_cluster_def zero_time_def)
  have r: "cf_Renew sample_config < cf_TTL sample_config" by (simp add: sample_config_def go_units)
  from first_activation [OF reach_init [OF init] init, of "\<lambda>_. 0" 0 "\<lambda>_. sample_config"] t r
  show ?thesis by fastforce
qed

section \<open>Mutual exclusion and fencing\<close>

text \<open>C4: at most one instance of a cluster passes the fencing check at any moment. Whatever requests are delayed
  or lost, whoever crashes and restarts, whatever the wall clocks say and however far apart the origins of the
  monotonic clocks are: if instance \<open>i\<close> passes \<open>Check\<close>, no other instance does, except while one of
  the two is in the middle of giving its own lease up (the lease is released after the work it guards has stopped).\<close>

theorem one_active_instance:
  assumes "local_reach cfgs F sz sha S" "valid_configs cfgs" "distinct_versions (contentVersion sha)"
    and "F + length (cl_hist S) + 2 < 2 ^ 64"
    and "i \<noteq> j" "\<not> releasing (cl_op S i)" "\<not> releasing (cl_op S j)"
    and "Check (cfgs i) (clock S i) wall (cl_mgr S i) = None"
  shows "Check (cfgs j) (clock S j) wall' (cl_mgr S j) = Some ErrNotActive"
  using exclusive_check [OF local_ha.reach_inv [OF assms(1,3,2,4)] assms(2,5,8,6,7)] .

theorem one_active_instance_witness:
  "\<exists>S. local_reach (\<lambda>_. sample_config) 0 (\<lambda>_. 0) sample_sha S
     \<and> Check sample_config (clock S 0) 0 (cl_mgr S 0) = None
     \<and> Check sample_config (clock S 1) 7 (cl_mgr S 1) = Some ErrNotActive"
proof -
  obtain S where S: "local_reach (\<lambda>_. sample_config) 0 (\<lambda>_. 0) sample_sha S" "length (cl_hist S) = 1" "cl_op S = (\<lambda>_. Idle)"
    "Check sample_config (clock S 0) 0 (cl_mgr S 0) = None" using sample_active by blast
  have "Check sample_config (clock S 1) 7 (cl_mgr S 1) = Some ErrNotActive"
    by (rule one_active_instance [OF S(1) sample_valid sample_distinct, of 0 1]) (use S in \<open>simp_all add: releasing_def\<close>)
  with S show ?thesis by blast
qed

text \<open>C7: the epoch is a fencing token: in the order in which the store accepted them, writes of different instances
  carry strictly growing epochs, so two instances that both believe to be active never hold the same
  epoch, and whoever wrote the lease last holds the highest one.\<close>

theorem epochs_fence:
  assumes "local_reach cfgs F sz sha S" "valid_configs cfgs" "distinct_versions (contentVersion sha)"
    and "F + length (cl_hist S) + 2 < 2 ^ 64"
  shows "(\<forall>k l. k < l \<and> l < length (cl_hist S) \<and> wr_by (cl_hist S ! k) \<noteq> wr_by (cl_hist S ! l) \<longrightarrow>
        ls_Epoch (lease_of (wr_data (cl_hist S ! k))) < ls_Epoch (lease_of (wr_data (cl_hist S ! l))))
    \<and> (\<forall>i j. i \<noteq> j \<and> mg_role (cl_mgr S i) = RoleActive \<and> mg_role (cl_mgr S j) = RoleActive \<longrightarrow>
        Epoch (cl_mgr S i) \<noteq> Epoch (cl_mgr S j))"
proof -
  have inv: "cluster_inv (contentVersion sha) (\<lambda>st. st) (fits_lease sz) cfgs F S"
    by (rule local_ha.reach_inv [OF assms(1,3,2,4)])
  then have h: "hist_ok cfgs F (cl_time S) (cl_hist S)" by (simp add: cluster_inv_def)
  show ?thesis using epochs_sorted [OF h] active_epochs_differ [OF inv] by (auto dest: less_imp_le)
qed

theorem epochs_fence_witness:
  "\<exists>S. local_reach (\<lambda>_. sample_config) 0 (\<lambda>_. 0) sample_sha S \<and> mg_role (cl_mgr S 0) = RoleActive
     \<and> (\<forall>j. mg_role (cl_mgr S j) = RoleActive \<and> 0 \<noteq> j \<longrightarrow> Epoch (cl_mgr S 0) \<noteq> Epoch (cl_mgr S j))"
proof -
  obtain S where S: "local_reach (\<lambda>_. sample_config) 0 (\<lambda>_. 0) sample_sha S" "length (cl_hist S) = 1"
    "mg_role (cl_mgr S 0) = RoleActive" using sample_active by blast
  have "0 + length (cl_hist S) + 2 < 2 ^ 64" using S(2) by simp
  from epochs_fence [OF S(1) sample_valid sample_distinct this] S show ?thesis by blast
qed

section \<open>Deadlines\<close>

lemma sdiv_pos: "0 \<le> a \<Longrightarrow> 0 < b \<Longrightarrow> a sdiv b = a div (b :: int)"
  by (simp add: signed_divide_int_def sgn_if)

text \<open>C28: an active instance never sleeps or waits past its step-down deadline. While the fencing check passes,
  the wait before the next step is positive, at most a renew interval and ends by the deadline on both clocks; the
  request of a renewal started now times out by the deadline and after at least half of what is left or half a
  renew interval; and a step at the deadline steps down.\<close>

theorem renewal_before_deadline:
  assumes "ha_New cfg = Ok new_manager" "cf_Renew cfg < 2 ^ 63" "Check cfg now wall m = None"
  shows "0 < untilNextStep cfg now wall m \<and> untilNextStep cfg now wall m \<le> cf_Renew cfg
    \<and> now + untilNextStep cfg now wall m \<le> deadlineLocked cfg m
    \<and> wall + untilNextStep cfg now wall m \<le> mg_sentWall m + (cf_TTL cfg - cf_Renew cfg)
    \<and> (\<exists>nx data timeout. renew_start cfg now wall utc m = RenewSend nx data (mg_version m) timeout
        \<and> 0 < timeout \<and> timeout \<le> cf_Renew cfg \<and> now + timeout \<le> deadlineLocked cfg m
        \<and> min (deadlineLocked cfg m - now) (cf_Renew cfg) \<le> 2 * timeout + 1)
    \<and> (\<exists>m'. renew_start cfg (deadlineLocked cfg m) wall' utc m = RenewExpired m' \<and> mg_role m' = RoleStandby)"
proof -
  let ?R = "cf_Renew cfg" and ?D = "deadlineLocked cfg m - now" and ?W = "mg_sentWall m + (cf_TTL cfg - cf_Renew cfg) - wall"
  let ?left = "go_Sub (deadlineLocked cfg m) now"
  have cfg: "go_Second \<le> ?R" "cf_TTL cfg \<le> MaxTTL"
    using assms(1) by (auto simp: ha_New_def ValidateTiming_def MinRenew_def split: if_splits option.splits)
  have act: "mg_role m = RoleActive" "\<not> expiredLocked cfg now wall m" using assms(3) by (auto simp: Check_def split: if_splits)
  then have D: "0 < ?D" and sub: "go_Sub wall (mg_sentWall m) < cf_TTL cfg - ?R" by (auto simp: expiredLocked_def)
  have "0 < ?W" using sub cfg by (auto simp: go_Sub_def sat64_def MaxTTL_def go_units)
  have left: "0 < ?left" "?left \<le> ?D" "?left = ?D \<or> ?left = 2 ^ 63 - 1" using D by (auto simp: go_Sub_def sat64_def)
  have left': "0 < go_Sub (mg_sentWall m + (cf_TTL cfg - ?R)) wall" "go_Sub (mg_sentWall m + (cf_TTL cfg - ?R)) wall \<le> ?W"
    using \<open>0 < ?W\<close> by (auto simp: go_Sub_def sat64_def)
  have pause: "0 < retryPause cfg" "retryPause cfg \<le> ?R" using cfg(1) by (auto simp: retryPause_def sdiv_pos go_units)
  have u: "0 < untilNextStep cfg now wall m \<and> untilNextStep cfg now wall m \<le> ?R \<and> untilNextStep cfg now wall m \<le> ?D
    \<and> untilNextStep cfg now wall m \<le> ?W"
    using left left' pause cfg(1) act(1) by (auto simp: untilNextStep_def Let_def go_units)
  have R: "0 < ?R" using cfg(1) by (simp add: go_units)
  have t: "0 < renewTimeout cfg ?left" "renewTimeout cfg ?left \<le> ?R" "renewTimeout cfg ?left \<le> ?left"
      "min ?left ?R \<le> 2 * renewTimeout cfg ?left + 1"
    using left(1) R cfg(1) by (auto simp: renewTimeout_def sdiv_pos go_units min_def max_def)
  have "min ?D ?R \<le> 2 * renewTimeout cfg ?left + 1"
  proof (cases "?left = ?D")
    case False
    with left(3) have "?left = 2 ^ 63 - 1" by simp
    then show ?thesis using t(4) assms(2) left(2) by (auto simp: min_def split: if_splits)
  qed (use t(4) in simp)
  then show ?thesis using u t left(2) act
    by (auto simp: renew_start_def Let_def expiredLocked_def)
qed

definition sample_manager :: Manager where
  "sample_manager = new_manager\<lparr>mg_role := RoleActive, mg_sentAt := 0, mg_sentWall := 0, mg_version := ''v''\<rparr>"

theorem renewal_before_deadline_witness:
  "Check sample_config 4 4 sample_manager = None
   \<and> 4 + untilNextStep sample_config 4 4 sample_manager \<le> deadlineLocked sample_config sample_manager"
proof -
  have c: "Check sample_config 4 4 sample_manager = None"
    by (simp add: Check_def sample_manager_def expiredLocked_def deadlineLocked_def sample_config_def go_units go_Sub_def sat64_def)
  have n: "ha_New sample_config = Ok new_manager" using sample_valid by (simp add: valid_configs_def)
  have r: "cf_Renew sample_config < 2 ^ 63" by (simp add: sample_config_def go_units)
  from renewal_before_deadline [OF n r c] c show ?thesis by simp
qed

text \<open>the check of the lease timing overflows: a renew interval of $2^{62}$ nanoseconds (146 years) is accepted with a
  TTL of 30 seconds, because twice the interval wraps around to a negative number. An instance with such a
  configuration never passes the fencing check, not even at the moment it acquires the lease.\<close>

theorem validate_timing_overflow:
  "ValidateTiming (30 * go_Second) (2 ^ 62) = None
   \<and> Check (cfg\<lparr>cf_TTL := 30 * go_Second, cf_Renew := 2 ^ 62\<rparr>) now wall (m\<lparr>mg_sentAt := now\<rparr>) = Some ErrNotActive"
  by (simp add: ValidateTiming_def MinTTL_def MaxTTL_def MinRenew_def go_units wrap64_def Check_def expiredLocked_def
      deadlineLocked_def)

section \<open>Takeovers\<close>



section \<open>Trust\<close>

lemma authentic_encode:
  assumes "cf_MACKey cfg = Some key" "\<forall>x. cf_hmac cfg key x \<noteq> []"
  shows "\<exists>l'. manager_encode cfg l b = LeaseObject l' \<and> (authentic cfg l' \<longleftrightarrow> b) \<and> lease_SnapshotMark l' = lease_SnapshotMark l"
  using assms by (auto simp: manager_encode_def lease_encode_def authentic_def Authentic_def Let_def lease_sign_def
      lease_SnapshotMark_def leaseMAC_def macInput_def)

text \<open>C29: an acquired lease vouches only for what was authenticated. With a MAC key, the lease written by a takeover
  carries a valid MAC exactly when the lease it replaces did; the snapshot it names is never older than
  one an authentic lease named before; and a lease that is unreadable, unsigned or forged contributes nothing to it.\<close>

theorem takeover_vouches_only_for_authentic:
  assumes "cf_MACKey cfg = Some key" "\<forall>x. cf_hmac cfg key x \<noteq> []"
    and "acquire_start cfg flr utc (epoch, seq, prev, version) m = AcquireSend nx data sgd pred"
  shows "\<exists>l'. data = LeaseObject l'
    \<and> (authentic cfg l' \<longleftrightarrow> (\<exists>l. prev = Some (LeaseObject l) \<and> authentic cfg l))
    \<and> lease_SnapshotMark l' = (case prev of
        Some (LeaseObject l) \<Rightarrow> if authentic cfg l then max (mg_seenMark m) (lease_SnapshotMark l) else mg_seenMark m
      | _ \<Rightarrow> mg_seenMark m)"
proof -
  have p: "pred = assess cfg prev m" "sgd = (pd_Trust pred = LeaseAuthentic)" "data = manager_encode cfg nx sgd"
    "lease_SnapshotMark nx = pd_Mark pred"
    using assms(3) by (auto simp: acquire_start_def Let_def lease_SnapshotMark_def withSnapshotMark_def
        split: option.splits sum.splits)
  have "sgd \<longleftrightarrow> (\<exists>l. prev = Some (LeaseObject l) \<and> authentic cfg l)"
    "pd_Mark pred = (case prev of
        Some (LeaseObject l) \<Rightarrow> if authentic cfg l then max (mg_seenMark m) (lease_SnapshotMark l) else mg_seenMark m
      | _ \<Rightarrow> mg_seenMark m)"
    unfolding p(2) p(1)
    by (auto simp: assess_def zero_pred_def DecodeLease_def Let_def LaterMark_max max.commute
        split: option.splits lease_object.splits)
  with authentic_encode [OF assms(1,2), of nx sgd] p(3,4) show ?thesis by auto
qed

definition signed_config :: HaConfig where
  "signed_config = sample_config\<lparr>cf_MACKey := Some ''k''\<rparr>"

theorem takeover_vouches_only_for_authentic_witness:
  "\<exists>nx data sgd pred. acquire_start signed_config None 0 (8, 4, Some (LeaseObject sample_lease), ''v'') new_manager
      = AcquireSend nx data sgd pred \<and> (\<exists>l'. data = LeaseObject l' \<and> \<not> authentic signed_config l')"
proof -
  have k: "cf_MACKey signed_config = Some ''k''" "\<forall>x. cf_hmac signed_config ''k'' x \<noteq> []"
    by (simp_all add: signed_config_def sample_config_def)
  have u: "\<not> authentic signed_config sample_lease"
    by (simp add: authentic_def k Authentic_def sample_lease_def zero_lease_def)
  obtain nx data sgd pred where s: "acquire_start signed_config None 0 (8, 4, Some (LeaseObject sample_lease), ''v'') new_manager
      = AcquireSend nx data sgd pred" by (simp add: acquire_start_def Let_def)
  from takeover_vouches_only_for_authentic [OF k s] s u show ?thesis by auto
qed

text \<open>confirming a takeover signs the lease: the renewal that follows \<open>Confirm\<close> writes a lease with a valid MAC
  that names a snapshot at least as new as the confirmed one and as the one it named before, with the next
  sequence number and an unchanged epoch and holder; a standby cannot confirm.\<close>

theorem confirm_signs:
  assumes "cf_MACKey cfg = Some key" "\<forall>x. cf_hmac cfg key x \<noteq> []" "mg_role m = RoleActive"
    and "\<not> expiredLocked cfg now wall m"
  shows "\<exists>m' nx l' timeout. Confirm_start mark m = Ok m'
    \<and> renew_start cfg now wall utc m' = RenewSend nx (LeaseObject l') (mg_version m) timeout
    \<and> authentic cfg l' \<and> lease_SnapshotMark l' = max mark (lease_SnapshotMark (mg_lease m))
    \<and> ls_Seq l' = ls_Seq (mg_lease m) + 1 \<and> ls_Epoch l' = ls_Epoch (mg_lease m) \<and> ls_Holder l' = ls_Holder (mg_lease m)
    \<and> Confirm_start mark (m\<lparr>mg_role := RoleStandby\<rparr>) = Err ErrNotActive"
proof -
  let ?lm = "withSnapshotMark (LaterMark (lease_SnapshotMark (mg_lease m)) mark) (mg_lease m)"
  let ?m = "m\<lparr>mg_signed := True, mg_lease := ?lm\<rparr>"
  let ?nx = "?lm\<lparr>ls_Seq := ls_Seq ?lm + 1, ls_RenewedAt := utc\<rparr>"
  have c: "Confirm_start mark m = Ok ?m" using assms(3) by (simp add: Confirm_start_def)
  have "\<not> expiredLocked cfg now wall ?m" using assms(4) by (simp add: expiredLocked_def deadlineLocked_def)
  then have r: "renew_start cfg now wall utc ?m = RenewSend ?nx (manager_encode cfg ?nx True) (mg_version m)
      (renewTimeout cfg (go_Sub (deadlineLocked cfg ?m) now))" by (simp add: renew_start_def Let_def)
  obtain l' where l': "manager_encode cfg ?nx True = LeaseObject l'" "authentic cfg l'"
      "lease_SnapshotMark l' = lease_SnapshotMark ?nx" using authentic_encode [OF assms(1,2), of ?nx True] by auto
  have "ls_Seq l' = ls_Seq ?nx" "ls_Epoch l' = ls_Epoch ?nx" "ls_Holder l' = ls_Holder ?nx"
    using manager_encode_same [of ?nx cfg True] l'(1) by (auto simp: same_lease_def)
  moreover have "lease_SnapshotMark ?nx = max mark (lease_SnapshotMark (mg_lease m))"
    by (simp add: lease_SnapshotMark_def withSnapshotMark_def LaterMark_max)
  ultimately show ?thesis using c r l' by (auto simp: Confirm_start_def)
qed

theorem confirm_signs_witness:
  "\<exists>m'. Confirm_start \<lparr>sm_Epoch = 3, sm_At = 9\<rparr> sample_manager = Ok m' \<and> mg_signed m'"
proof -
  have k: "cf_MACKey signed_config = Some ''k''" "\<forall>x. cf_hmac signed_config ''k'' x \<noteq> []"
    by (simp_all add: signed_config_def sample_config_def)
  have r: "mg_role sample_manager = RoleActive" "\<not> expiredLocked signed_config 4 4 sample_manager"
    by (simp_all add: sample_manager_def expiredLocked_def deadlineLocked_def signed_config_def sample_config_def go_units
        go_Sub_def sat64_def)
  from confirm_signs [OF k r, of "\<lparr>sm_Epoch = 3, sm_At = 9\<rparr>" 0] obtain m' where
    "Confirm_start \<lparr>sm_Epoch = 3, sm_At = 9\<rparr> sample_manager = Ok m'" by blast
  then show ?thesis using r(1) by (auto simp: Confirm_start_def)
qed

end
