(* ===== verification/Ha_Snapshots.thy ===== *)
theory Ha_Snapshots
  imports Ha_Lease
begin

text \<open>
  The choice among the metadata snapshots of a cluster and their retention,
  \<open>src/internal/ha/snapshotheader.go\<close> and \<open>src/internal/ha/snapshot.go\<close>.

  Reading, decrypting and parsing one snapshot is the parameter \<open>check\<close> (a function of the listed object); what
  the decisions read of its error is which of the package's errors it wraps. \<open>ended i\<close> says that the context
  had ended after the check of the \<open>i\<close>-th snapshot.
\<close>

section \<open>Checks\<close>

record SnapshotInfo =
  si_Key :: string
  si_CreatedAt :: go_time
  si_Epoch :: "64 word"
  si_SizeBytes :: int
  si_ModTime :: go_time
  si_ETag :: string

record SnapshotHeader =
  sh_Format :: int
  sh_Cluster :: string
  sh_Epoch :: "64 word"
  sh_InstanceID :: string
  sh_CreatedAt :: go_time

datatype snapshot_error = ErrSnapshotRejected | ErrSnapshotLegacy | ErrSnapshotFormat | ErrSnapshotUnreadable | ErrSnapshotStorage

definition info_Mark :: "SnapshotInfo \<Rightarrow> SnapshotMark" where
  "info_Mark i = \<lparr>sm_Epoch = si_Epoch i, sm_At = si_CreatedAt i\<rparr>"

definition SnapshotsPrefix :: string where
  "SnapshotsPrefix = ''_mongorescue/metadata/ha/''"

definition SnapshotPrefix :: "string \<Rightarrow> string" where
  "SnapshotPrefix cluster = SnapshotsPrefix @ cluster @ ''/''"

text \<open>\<open>parsed\<close> is what \<open>parseSnapshotKey\<close> reads from the key: its time and epoch.\<close>

definition header_verify :: "string \<Rightarrow> string \<Rightarrow> (go_time \<times> 64 word) option \<Rightarrow> SnapshotHeader \<Rightarrow> snapshot_error option" where
  "header_verify cluster key parsed h =
     (if take (length (SnapshotPrefix cluster)) key \<noteq> SnapshotPrefix cluster then Some ErrSnapshotRejected
      else case parsed of
        None \<Rightarrow> Some ErrSnapshotRejected
      | Some (at, epoch) \<Rightarrow>
          if sh_Cluster h \<noteq> cluster then Some ErrSnapshotRejected
          else if sh_Epoch h \<noteq> epoch then Some ErrSnapshotRejected
          else if sh_CreatedAt h \<noteq> at then Some ErrSnapshotRejected
          else None)"

record SnapshotCheck =
  sc_Info :: SnapshotInfo
  sc_Header :: "SnapshotHeader option"
  sc_Err :: "snapshot_error option"
  sc_index :: nat

definition Verified :: "SnapshotCheck \<Rightarrow> bool" where
  "Verified c \<longleftrightarrow> sc_Err c = None \<and> sc_Header c \<noteq> None"

definition Legacy :: "SnapshotCheck \<Rightarrow> bool" where
  "Legacy c \<longleftrightarrow> sc_Err c = Some ErrSnapshotLegacy"

definition Refused :: "SnapshotCheck \<Rightarrow> bool" where
  "Refused c \<longleftrightarrow> sc_Err c = Some ErrSnapshotRejected \<or> sc_Err c = Some ErrSnapshotUnreadable"

definition determinate :: "SnapshotCheck \<Rightarrow> bool" where
  "determinate c \<longleftrightarrow> sc_Err c = None \<or> Legacy c \<or> Refused c \<or> sc_Err c = Some ErrSnapshotFormat"

text \<open>\<open>CheckSnapshot\<close>: \<open>opened\<close> is what opening the snapshot gave, its header (none for a legacy snapshot) and error.\<close>

definition CheckSnapshot :: "(SnapshotInfo \<Rightarrow> SnapshotHeader option \<times> snapshot_error option) \<Rightarrow> SnapshotInfo \<Rightarrow> SnapshotCheck" where
  "CheckSnapshot opened info = (case opened info of (h, err) \<Rightarrow>
     \<lparr>sc_Info = info, sc_Header = h, sc_Err = (if err = None \<and> h = None then Some ErrSnapshotLegacy else err), sc_index = 0\<rparr>)"

section \<open>Selection\<close>

record SnapshotSelection =
  ss_Verified :: "SnapshotCheck list"
  ss_Legacy :: "SnapshotCheck list"
  ss_Refused :: "SnapshotCheck list"
  ss_Failed :: "SnapshotCheck list"
  ss_Listed :: nat
  ss_Complete :: bool
  ss_headerSeen :: bool
  ss_failedAhead :: bool

definition classify :: "string \<Rightarrow> SnapshotCheck \<Rightarrow> SnapshotSelection \<Rightarrow> SnapshotSelection" where
  "classify cluster c sel =
     (let sel1 =
        (if Verified c then sel\<lparr>ss_Verified := ss_Verified sel @ [c]\<rparr>
         else if Legacy c then sel\<lparr>ss_Legacy := ss_Legacy sel @ [c]\<rparr>
         else if Refused c then sel\<lparr>ss_Refused := ss_Refused sel @ [c]\<rparr>
         else sel\<lparr>ss_Failed := ss_Failed sel @ [c], ss_failedAhead := ss_failedAhead sel \<or> ss_Verified sel = []\<rparr>);
          sel2 =
        (if (case sc_Header c of Some h \<Rightarrow> sh_Cluster h = cluster | None \<Rightarrow> False) \<or> sc_Err c = Some ErrSnapshotFormat
         then sel1\<lparr>ss_headerSeen := True\<rparr> else sel1)
      in if \<not> determinate c then sel2\<lparr>ss_Complete := False\<rparr> else sel2)"

fun selectLoop ::
  "string \<Rightarrow> int \<Rightarrow> (SnapshotInfo \<Rightarrow> SnapshotCheck) \<Rightarrow> (nat \<Rightarrow> bool) \<Rightarrow> nat \<Rightarrow> SnapshotInfo list \<Rightarrow> SnapshotSelection
   \<Rightarrow> SnapshotSelection option" where
  "selectLoop cluster want check ended i [] sel = Some sel"
| "selectLoop cluster want check ended i (info # rest) sel =
     (if want > 0 \<and> int (length (ss_Verified sel)) \<ge> want then Some (sel\<lparr>ss_Complete := False\<rparr>)
      else if ended i then None
      else selectLoop cluster want check ended (Suc i) rest (classify cluster ((check info)\<lparr>sc_index := i\<rparr>) sel))"

definition new_selection :: "nat \<Rightarrow> SnapshotSelection" where
  "new_selection n = \<lparr>ss_Verified = [], ss_Legacy = [], ss_Refused = [], ss_Failed = [], ss_Listed = n, ss_Complete = True,
     ss_headerSeen = False, ss_failedAhead = False\<rparr>"

definition selectSnapshots ::
  "string \<Rightarrow> SnapshotInfo list \<Rightarrow> int \<Rightarrow> (SnapshotInfo \<Rightarrow> SnapshotCheck) \<Rightarrow> (nat \<Rightarrow> bool) \<Rightarrow> SnapshotSelection option" where
  "selectSnapshots cluster infos want check ended = selectLoop cluster want check ended 0 infos (new_selection (length infos))"

definition Candidates :: "SnapshotSelection \<Rightarrow> SnapshotCheck list \<times> bool" where
  "Candidates s =
     (if ss_failedAhead s then ([], False)
      else if ss_Verified s \<noteq> [] then (ss_Verified s, False)
      else if ss_Complete s \<and> \<not> ss_headerSeen s \<and> ss_Legacy s \<noteq> [] then (ss_Legacy s, True)
      else ([], False))"

definition FailedAhead :: "SnapshotSelection \<Rightarrow> SnapshotCheck option" where
  "FailedAhead s = (if \<not> ss_failedAhead s \<or> ss_Failed s = [] then None else Some (hd (ss_Failed s)))"

definition max_epochs :: "64 word list \<Rightarrow> 64 word" where
  "max_epochs es = fold max es 0"

definition AuthenticEpoch :: "string \<Rightarrow> SnapshotSelection \<Rightarrow> 64 word \<times> bool" where
  "AuthenticEpoch cluster s =
     (let vs = map (\<lambda>c. sh_Epoch (the (sc_Header c))) (ss_Verified s);
          rs = map (\<lambda>c. sh_Epoch (the (sc_Header c)))
                 (filter (\<lambda>c. case sc_Header c of Some h \<Rightarrow> sh_Cluster h = cluster | None \<Rightarrow> False) (ss_Refused s));
          ls = (if snd (Candidates s) then map (\<lambda>c. si_Epoch (sc_Info c)) (fst (Candidates s)) else [])
      in (max_epochs (vs @ rs @ ls), \<not> ss_failedAhead s \<and> (ss_Verified s \<noteq> [] \<or> ss_Complete s)))"

section \<open>The order of the listing\<close>

text \<open>\<open>ListSnapshots\<close> sorts the parsed objects: the highest epoch first, then the newest. A key holds both, so
  the objects of a listing are never tied.\<close>

definition ListSnapshots :: "SnapshotInfo list \<Rightarrow> SnapshotInfo list" where
  "ListSnapshots infos = sort_key (\<lambda>i. (- uint (si_Epoch i), - si_CreatedAt i)) infos"

section \<open>The checker's cache\<close>

definition sameObject :: "SnapshotInfo \<Rightarrow> SnapshotInfo \<Rightarrow> bool" where
  "sameObject a b \<longleftrightarrow> si_Key a = si_Key b \<and> si_SizeBytes a = si_SizeBytes b \<and> si_ModTime a = si_ModTime b \<and> si_ETag a = si_ETag b"

type_synonym snapshot_cache = "string \<rightharpoonup> SnapshotCheck"

definition find_listed :: "SnapshotInfo list \<Rightarrow> string \<Rightarrow> SnapshotInfo option" where
  "find_listed infos key = find (\<lambda>i. si_Key i = key) (rev infos)"

definition evict :: "SnapshotInfo list \<Rightarrow> snapshot_cache \<Rightarrow> snapshot_cache" where
  "evict infos cache = (\<lambda>key. case cache key of
     None \<Rightarrow> None
   | Some old \<Rightarrow> (case find_listed infos key of
       None \<Rightarrow> None
     | Some info \<Rightarrow> if sameObject (sc_Info old) info then Some old else None))"

fun cachedLoop ::
  "string \<Rightarrow> int \<Rightarrow> (SnapshotInfo \<Rightarrow> SnapshotCheck) \<Rightarrow> (nat \<Rightarrow> bool) \<Rightarrow> nat \<Rightarrow> SnapshotInfo list \<Rightarrow> SnapshotSelection
   \<Rightarrow> snapshot_cache \<Rightarrow> SnapshotSelection option \<times> snapshot_cache" where
  "cachedLoop cluster want check ended i [] sel cache = (Some sel, cache)"
| "cachedLoop cluster want check ended i (info # rest) sel cache =
     (if want > 0 \<and> int (length (ss_Verified sel)) \<ge> want then (Some (sel\<lparr>ss_Complete := False\<rparr>), cache)
      else
        let c = (case cache (si_Key info) of Some old \<Rightarrow> old | None \<Rightarrow> check info);
            cache' = (if cache (si_Key info) = None \<and> determinate c then cache(si_Key info \<mapsto> c) else cache)
        in if ended i then (None, cache')
           else cachedLoop cluster want check ended (Suc i) rest (classify cluster (c\<lparr>sc_index := i\<rparr>) sel) cache')"

definition checker_Select ::
  "string \<Rightarrow> SnapshotInfo list \<Rightarrow> int \<Rightarrow> (SnapshotInfo \<Rightarrow> SnapshotCheck) \<Rightarrow> (nat \<Rightarrow> bool) \<Rightarrow> snapshot_cache
   \<Rightarrow> SnapshotSelection option \<times> snapshot_cache" where
  "checker_Select cluster infos want check ended cache =
     cachedLoop cluster want check ended 0 infos (new_selection (length infos)) (evict infos cache)"

section \<open>Retention\<close>

definition SnapshotsKept :: nat where "SnapshotsKept = 12"

fun keptLoop :: "64 word \<Rightarrow> nat \<Rightarrow> nat \<Rightarrow> nat \<Rightarrow> string set \<Rightarrow> SnapshotInfo option \<Rightarrow> SnapshotInfo list \<Rightarrow> string set" where
  "keptLoop current keep i inEpoch kept newest [] = (case newest of None \<Rightarrow> kept | Some sn \<Rightarrow> insert (si_Key sn) kept)"
| "keptLoop current keep i inEpoch kept newest (sn # rest) =
     (let kept1 = (if i < keep then insert (si_Key sn) kept else kept);
          this = (si_Epoch sn = current \<and> inEpoch < keep);
          kept2 = (if this then insert (si_Key sn) kept1 else kept1);
          newest' = (case newest of None \<Rightarrow> Some sn
                     | Some n \<Rightarrow> if si_Key n = [] \<or> si_CreatedAt sn > si_CreatedAt n then Some sn else newest)
      in keptLoop current keep (Suc i) (if this then Suc inEpoch else inEpoch) kept2 newest' rest)"

definition keptSnapshots :: "SnapshotInfo list \<Rightarrow> 64 word \<Rightarrow> nat \<Rightarrow> string set" where
  "keptSnapshots infos current keep = keptLoop current keep 0 0 {} None infos"

text \<open>\<open>prune\<close>: the snapshots it deletes, of a selection of the whole listing.\<close>

definition lastFailed :: "SnapshotSelection \<Rightarrow> int" where
  "lastFailed sel = fold (\<lambda>c m. max m (int (sc_index c))) (ss_Failed sel) (- 1)"

definition prune_drops :: "SnapshotSelection \<Rightarrow> 64 word \<Rightarrow> nat \<Rightarrow> SnapshotCheck list" where
  "prune_drops sel current keep =
     (let kept = keptSnapshots (map sc_Info (ss_Verified sel)) current (max keep 1);
          drops = filter (\<lambda>c. si_Key (sc_Info c) \<notin> kept) (ss_Verified sel)
                  @ (if ss_Verified sel \<noteq> [] then ss_Legacy sel else [])
      in filter (\<lambda>c. \<not> int (sc_index c) < lastFailed sel) drops)"

section \<open>What a selection contains\<close>

fun checks_of :: "(SnapshotInfo \<Rightarrow> SnapshotCheck) \<Rightarrow> nat \<Rightarrow> SnapshotInfo list \<Rightarrow> SnapshotCheck list" where
  "checks_of check i [] = []"
| "checks_of check i (info # rest) = (check info)\<lparr>sc_index := i\<rparr> # checks_of check (Suc i) rest"

lemma Verified_index [simp]: "Verified (c\<lparr>sc_index := i\<rparr>) = Verified c" "Legacy (c\<lparr>sc_index := i\<rparr>) = Legacy c"
  "Refused (c\<lparr>sc_index := i\<rparr>) = Refused c" "determinate (c\<lparr>sc_index := i\<rparr>) = determinate c"
  by (simp_all add: Verified_def Legacy_def Refused_def determinate_def)

definition Failing :: "SnapshotCheck \<Rightarrow> bool" where
  "Failing c \<longleftrightarrow> \<not> Verified c \<and> \<not> Legacy c \<and> \<not> Refused c"

lemma classify_fields [simp]:
  "ss_Verified (classify cluster c sel) = ss_Verified sel @ (if Verified c then [c] else [])"
  "ss_Legacy (classify cluster c sel) = ss_Legacy sel @ (if \<not> Verified c \<and> Legacy c then [c] else [])"
  "ss_Refused (classify cluster c sel) = ss_Refused sel @ (if \<not> Verified c \<and> \<not> Legacy c \<and> Refused c then [c] else [])"
  "ss_Failed (classify cluster c sel) = ss_Failed sel @ (if Failing c then [c] else [])"
  "ss_failedAhead (classify cluster c sel) = (ss_failedAhead sel \<or> Failing c \<and> ss_Verified sel = [])"
  by (simp_all add: classify_def Failing_def Let_def)

lemma classes_disjoint: "Verified c \<Longrightarrow> \<not> Legacy c" "Verified c \<Longrightarrow> \<not> Refused c" "Legacy c \<Longrightarrow> \<not> Refused c"
  by (auto simp: Verified_def Legacy_def Refused_def)

fun failed_first :: "SnapshotCheck list \<Rightarrow> bool" where
  "failed_first [] = False"
| "failed_first (c # cs) = (Failing c \<or> \<not> Verified c \<and> failed_first cs)"

text \<open>The selection is the listing, taken up to the wanted number of verified snapshots, sorted into its classes.\<close>

lemma selectLoop_classes:
  assumes "selectLoop cluster want check ended i infos sel = Some sel'"
  shows "\<exists>n \<le> length infos. let cs = checks_of check i (take n infos) in
     ss_Verified sel' = ss_Verified sel @ filter Verified cs \<and> ss_Legacy sel' = ss_Legacy sel @ filter Legacy cs
     \<and> ss_Refused sel' = ss_Refused sel @ filter Refused cs \<and> ss_Failed sel' = ss_Failed sel @ filter Failing cs
     \<and> (ss_failedAhead sel' \<longleftrightarrow> ss_failedAhead sel \<or> ss_Verified sel = [] \<and> failed_first cs)
     \<and> (want \<le> 0 \<longrightarrow> n = length infos)"
  using assms
proof (induction infos arbitrary: i sel)
  case Nil
  then show ?case by simp
next
  case (Cons info rest)
  let ?c = "(check info)\<lparr>sc_index := i\<rparr>"
  show ?case
  proof (cases "want > 0 \<and> int (length (ss_Verified sel)) \<ge> want")
    case True
    with Cons.prems show ?thesis by (intro exI [of _ 0]) auto
  next
    case False
    then have rest: "selectLoop cluster want check ended (Suc i) rest (classify cluster ?c sel) = Some sel'"
      using Cons.prems by (auto split: if_splits)
    from Cons.IH [OF rest] obtain n where n: "n \<le> length rest"
      "let cs = checks_of check (Suc i) (take n rest); sel1 = classify cluster ?c sel in
       ss_Verified sel' = ss_Verified sel1 @ filter Verified cs \<and> ss_Legacy sel' = ss_Legacy sel1 @ filter Legacy cs
       \<and> ss_Refused sel' = ss_Refused sel1 @ filter Refused cs \<and> ss_Failed sel' = ss_Failed sel1 @ filter Failing cs
       \<and> (ss_failedAhead sel' \<longleftrightarrow> ss_failedAhead sel1 \<or> ss_Verified sel1 = [] \<and> failed_first cs)
       \<and> (want \<le> 0 \<longrightarrow> n = length rest)" unfolding Let_def by blast
    consider "Verified ?c" "\<not> Legacy ?c" "\<not> Refused ?c" "\<not> Failing ?c" | "\<not> Verified ?c" "Legacy ?c" "\<not> Refused ?c" "\<not> Failing ?c"
      | "\<not> Verified ?c" "\<not> Legacy ?c" "Refused ?c" "\<not> Failing ?c" | "\<not> Verified ?c" "\<not> Legacy ?c" "\<not> Refused ?c" "Failing ?c"
      unfolding Failing_def using classes_disjoint [of ?c] by blast
    then show ?thesis
      using n by cases (intro exI [of _ "Suc n"]; simp add: Let_def; blast)+
  qed
qed

lemma selectSnapshots_classes:
  assumes "selectSnapshots cluster infos want check ended = Some sel"
  obtains n where "n \<le> length infos" "want \<le> 0 \<Longrightarrow> n = length infos"
    "ss_Verified sel = filter Verified (checks_of check 0 (take n infos))"
    "ss_Legacy sel = filter Legacy (checks_of check 0 (take n infos))"
    "ss_Refused sel = filter Refused (checks_of check 0 (take n infos))"
    "ss_Failed sel = filter Failing (checks_of check 0 (take n infos))"
    "ss_failedAhead sel = failed_first (checks_of check 0 (take n infos))"
  using selectLoop_classes [OF assms [unfolded selectSnapshots_def]] by (auto simp: Let_def new_selection_def)

section \<open>Retention keeps what a takeover needs\<close>

lemma keptLoop_mono: "kept \<subseteq> keptLoop current keep i n kept newest infos"
proof (induction infos arbitrary: i n kept newest)
  case Nil
  then show ?case by (auto split: option.splits)
next
  case (Cons x infos)
  show ?case unfolding keptLoop.simps Let_def by (rule order_trans [OF _ Cons.IH]) auto
qed

lemma keptLoop_first: "sn \<in> set (take (keep - i) infos) \<Longrightarrow> si_Key sn \<in> keptLoop current keep i n kept newest infos"
proof (induction infos arbitrary: i n kept newest)
  case (Cons x infos)
  have "i < keep" using Cons.prems by (cases "keep - i") auto
  then have "keep - i = Suc (keep - Suc i)" by simp
  with Cons.prems have "sn = x \<or> sn \<in> set (take (keep - Suc i) infos)" by simp
  then show ?case
  proof
    assume "sn = x"
    have "si_Key x \<in> (let kept1 = (if i < keep then insert (si_Key x) kept else kept) in
        if si_Epoch x = current \<and> n < keep then insert (si_Key x) kept1 else kept1)"
      using \<open>i < keep\<close> by (simp add: Let_def)
    then show ?thesis unfolding \<open>sn = x\<close> keptLoop.simps Let_def by (rule keptLoop_mono [THEN subsetD])
  qed (simp add: Cons.IH Let_def)
qed simp

lemma keptLoop_newest:
  assumes "\<And>m. m \<in> set_option newest \<union> set infos \<Longrightarrow> si_Key m \<noteq> []" "newest \<noteq> None \<or> infos \<noteq> []"
  shows "\<exists>m \<in> set_option newest \<union> set infos. si_Key m \<in> keptLoop current keep i n kept newest infos
    \<and> (\<forall>x \<in> set_option newest \<union> set infos. si_CreatedAt x \<le> si_CreatedAt m)"
  using assms
proof (induction infos arbitrary: i n kept newest)
  case Nil
  then show ?case by auto
next
  case (Cons x infos)
  define newest' where "newest' = (case newest of None \<Rightarrow> Some x
      | Some m \<Rightarrow> if si_Key m = [] \<or> si_CreatedAt x > si_CreatedAt m then Some x else newest)"
  have sub: "set_option newest' \<subseteq> set_option newest \<union> {x}" "newest' \<noteq> None"
    and dom: "\<And>y. y \<in> set_option newest \<union> {x} \<Longrightarrow> \<exists>z \<in> set_option newest'. si_CreatedAt y \<le> si_CreatedAt z"
    using Cons.prems(1) by (auto simp: newest'_def split: option.splits)
  obtain i' n' kept' where eq: "keptLoop current keep i n kept newest (x # infos) = keptLoop current keep i' n' kept' newest' infos"
    by (simp add: Let_def newest'_def)
  have "\<exists>m \<in> set_option newest' \<union> set infos. si_Key m \<in> keptLoop current keep i' n' kept' newest' infos
    \<and> (\<forall>x \<in> set_option newest' \<union> set infos. si_CreatedAt x \<le> si_CreatedAt m)"
    by (rule Cons.IH) (use Cons.prems(1) sub in auto)
  then obtain m where m: "m \<in> set_option newest' \<union> set infos" "si_Key m \<in> keptLoop current keep i' n' kept' newest' infos"
    "\<And>x. x \<in> set_option newest' \<union> set infos \<Longrightarrow> si_CreatedAt x \<le> si_CreatedAt m" by blast
  have "si_CreatedAt y \<le> si_CreatedAt m" if "y \<in> set_option newest \<union> set (x # infos)" for y
  proof (cases "y \<in> set infos")
    case False
    with that dom [of y] m(3) show ?thesis by fastforce
  qed (use m(3) in auto)
  with m(1,2) sub(1) eq show ?case by (intro bexI [of _ m]) auto
qed

lemma lastFailed_ge: "f \<in> set (ss_Failed sel) \<Longrightarrow> int (sc_index f) \<le> lastFailed sel"
proof -
  have *: "int (sc_index f) \<le> fold (\<lambda>c m. max m (int (sc_index c))) cs a"
    if "f \<in> set cs \<or> int (sc_index f) \<le> a" for cs a
    using that
  proof (induction cs arbitrary: a)
    case (Cons c cs)
    from Cons.prems have "f \<in> set cs \<or> int (sc_index f) \<le> max a (int (sc_index c))" by (auto simp: le_max_iff_disj)
    from Cons.IH [OF this] show ?case by simp
  qed simp
  show "f \<in> set (ss_Failed sel) \<Longrightarrow> int (sc_index f) \<le> lastFailed sel"
    unfolding lastFailed_def by (rule *) (rule disjI1)
qed

text \<open>C22: the retention of metadata snapshots never takes what a takeover needs. It deletes only verified snapshots
  and legacy ones, legacy ones only beside a verified one; never the first verified snapshots of the order
  (at least one, as many as are kept), so never a takeover's first choice; never the verified snapshot
  with the newest time; and nothing that sorts before a snapshot whose check failed.\<close>

theorem prune_keeps_restorable:
  assumes sel: "selectSnapshots cluster infos 0 check ended = Some sel"
    and info: "\<forall>i \<in> set infos. sc_Info (check i) = i \<and> si_Key i \<noteq> []"
  shows "(\<forall>c \<in> set (prune_drops sel current keep). (Verified c \<or> Legacy c) \<and> ss_Verified sel \<noteq> []
            \<and> (\<forall>f \<in> set (ss_Failed sel). sc_index f \<le> sc_index c))
    \<and> (\<forall>c \<in> set (take (max keep 1) (ss_Verified sel)). c \<notin> set (prune_drops sel current keep))
    \<and> (ss_Verified sel \<noteq> [] \<longrightarrow> (\<exists>c \<in> set (ss_Verified sel). c \<notin> set (prune_drops sel current keep)
          \<and> (\<forall>x \<in> set (ss_Verified sel). si_CreatedAt (sc_Info x) \<le> si_CreatedAt (sc_Info c))))
    \<and> (\<not> snd (Candidates sel) \<longrightarrow> set (take 1 (fst (Candidates sel))) \<inter> set (prune_drops sel current keep) = {})"
proof -
  let ?kept = "keptSnapshots (map sc_Info (ss_Verified sel)) current (max keep 1)"
  obtain n where cs: "ss_Verified sel = filter Verified (checks_of check 0 (take n infos))"
      "ss_Legacy sel = filter Legacy (checks_of check 0 (take n infos))" "n \<le> length infos"
    by (rule selectSnapshots_classes [OF sel]) blast
  have keys: "si_Key (sc_Info c) \<noteq> []" if "c \<in> set (checks_of check k xs)" "set xs \<subseteq> set infos" for c k xs
    using that info by (induction xs arbitrary: k) auto
  have drop: "c \<notin> set (prune_drops sel current keep)" if "Verified c" "si_Key (sc_Info c) \<in> ?kept" for c
    using that cs classes_disjoint by (auto simp: prune_drops_def Let_def split: if_splits)
  have first: "c \<notin> set (prune_drops sel current keep)" if "c \<in> set (take (max keep 1) (ss_Verified sel))" for c
  proof (rule drop)
    show "Verified c" using that cs(1) in_set_takeD by fastforce
    show "si_Key (sc_Info c) \<in> ?kept"
      unfolding keptSnapshots_def by (rule keptLoop_first) (use that in \<open>auto simp: take_map\<close>)
  qed
  have newest: "\<exists>c \<in> set (ss_Verified sel). c \<notin> set (prune_drops sel current keep)
          \<and> (\<forall>x \<in> set (ss_Verified sel). si_CreatedAt (sc_Info x) \<le> si_CreatedAt (sc_Info c))"
    if ne: "ss_Verified sel \<noteq> []"
  proof -
    have "\<exists>m \<in> set_option None \<union> set (map sc_Info (ss_Verified sel)).
        si_Key m \<in> keptLoop current (max keep 1) 0 0 {} None (map sc_Info (ss_Verified sel))
        \<and> (\<forall>x \<in> set_option None \<union> set (map sc_Info (ss_Verified sel)). si_CreatedAt x \<le> si_CreatedAt m)"
      by (rule keptLoop_newest) (use ne cs keys in \<open>auto dest: in_set_takeD\<close>)
    then obtain c where "c \<in> set (ss_Verified sel)" "si_Key (sc_Info c) \<in> ?kept"
      "\<forall>x \<in> set (ss_Verified sel). si_CreatedAt (sc_Info x) \<le> si_CreatedAt (sc_Info c)"
      by (auto simp: keptSnapshots_def)
    moreover have "Verified c" using calculation(1) cs(1) by simp
    ultimately show ?thesis using drop by blast
  qed
  have t: "set (take 1 (ss_Verified sel)) \<subseteq> set (take (max keep 1) (ss_Verified sel))"
    by (rule set_take_subset_set_take) simp
  have "fst (Candidates sel) = ss_Verified sel \<or> fst (Candidates sel) = []" if "\<not> snd (Candidates sel)"
    using that by (simp add: Candidates_def split: if_splits)
  with t have "set (take 1 (fst (Candidates sel))) \<subseteq> set (take (max keep 1) (ss_Verified sel))" if "\<not> snd (Candidates sel)"
    using that by fastforce
  moreover have "(Verified c \<or> Legacy c) \<and> ss_Verified sel \<noteq> [] \<and> (\<forall>f \<in> set (ss_Failed sel). sc_index f \<le> sc_index c)"
    if "c \<in> set (prune_drops sel current keep)" for c
  proof -
    from that have c: "\<not> int (sc_index c) < lastFailed sel"
      "c \<in> set (ss_Verified sel) \<or> ss_Verified sel \<noteq> [] \<and> c \<in> set (ss_Legacy sel)"
      by (auto simp: prune_drops_def Let_def split: if_splits)
    then have "sc_index f \<le> sc_index c" if "f \<in> set (ss_Failed sel)" for f
      using lastFailed_ge [OF that] by linarith
    moreover have "ss_Verified sel \<noteq> []" using c(2) by auto
    moreover have "Verified c \<or> Legacy c" using c(2) cs(1,2) by auto
    ultimately show ?thesis by blast
  qed
  ultimately show ?thesis using first newest by blast
qed

definition sample_info :: "string \<Rightarrow> 64 word \<Rightarrow> go_time \<Rightarrow> SnapshotInfo" where
  "sample_info k e t = \<lparr>si_Key = k, si_CreatedAt = t, si_Epoch = e, si_SizeBytes = 1, si_ModTime = t, si_ETag = k\<rparr>"

definition sample_check :: "SnapshotInfo \<Rightarrow> SnapshotCheck" where
  "sample_check i = CheckSnapshot (\<lambda>i. if si_SizeBytes i = 1
     then (Some \<lparr>sh_Format = 1, sh_Cluster = ''prod'', sh_Epoch = si_Epoch i, sh_InstanceID = ''a'', sh_CreatedAt = si_CreatedAt i\<rparr>, None)
     else (None, Some ErrSnapshotUnreadable)) i"

lemma sample_check_simps [simp]:
  "sc_Info (sample_check i) = i" "Verified (sample_check i) \<longleftrightarrow> si_SizeBytes i = 1" "Legacy (sample_check i) \<longleftrightarrow> False"
  "Refused (sample_check i) \<longleftrightarrow> si_SizeBytes i \<noteq> 1" "determinate (sample_check i)"
  by (auto simp: sample_check_def CheckSnapshot_def Verified_def Legacy_def Refused_def determinate_def)

theorem prune_keeps_restorable_witness:
  "\<exists>sel. selectSnapshots ''prod'' [sample_info ''b'' 2 9, sample_info ''a'' 1 5] 0 sample_check (\<lambda>_. False) = Some sel
     \<and> (\<forall>c \<in> set (take 1 (ss_Verified sel)). c \<notin> set (prune_drops sel 2 1))"
proof -
  let ?infos = "[sample_info ''b'' 2 9, sample_info ''a'' 1 5]"
  obtain sel where sel: "selectSnapshots ''prod'' ?infos 0 sample_check (\<lambda>_. False) = Some sel"
    by (simp add: selectSnapshots_def)
  have "\<forall>i \<in> set ?infos. sc_Info (sample_check i) = i \<and> si_Key i \<noteq> []" by (simp add: sample_info_def)
  from prune_keeps_restorable [OF sel this, of 2 1] sel show ?thesis by auto
qed

section \<open>The first candidate\<close>

lemma first_verified:
  assumes "filter Verified (checks_of check i infos) = c # cs" "\<not> failed_first (checks_of check i infos)"
  shows "\<exists>pre info post. infos = pre @ info # post \<and> c = (check info)\<lparr>sc_index := i + length pre\<rparr>
    \<and> (\<forall>x \<in> set pre. Legacy (check x) \<or> Refused (check x))"
  using assms
proof (induction infos arbitrary: i)
  case (Cons x infos)
  show ?case
  proof (cases "Verified (check x)")
    case True
    with Cons.prems(1) show ?thesis by (intro exI [of _ "[]"]) auto
  next
    case False
    with Cons.prems have "filter Verified (checks_of check (Suc i) infos) = c # cs" "\<not> failed_first (checks_of check (Suc i) infos)"
      and x: "Legacy (check x) \<or> Refused (check x)"
      by (auto simp: Failing_def)
    from Cons.IH [OF this(1,2)] obtain pre info post where "infos = pre @ info # post"
      "c = (check info)\<lparr>sc_index := Suc i + length pre\<rparr>" "\<forall>x \<in> set pre. Legacy (check x) \<or> Refused (check x)" by blast
    with x show ?thesis by (intro exI [of _ "x # pre"]) auto
  qed
qed simp

lemma info_Mark_order:
  "(- uint (si_Epoch a), - si_CreatedAt a) \<le> (- uint (si_Epoch b), - si_CreatedAt b) \<longleftrightarrow> info_Mark b \<le> info_Mark a"
  by (auto simp: less_eq_prod_def less_prod_def info_Mark_def less_eq_SnapshotMark_ext_def word_less_def word_le_def word_uint_eq_iff)

text \<open>C31: a takeover's first choice is the newest snapshot it may use: it is verified, everything listed before it is
  a legacy snapshot or was refused (a snapshot that could not be checked is never passed over), and everything
  listed after it is no newer.\<close>

theorem first_candidate_is_newest:
  assumes sel: "selectSnapshots cluster (ListSnapshots objs) want check ended = Some sel"
    and c: "Candidates sel = (c # cs, False)"
  shows "Verified c \<and> (\<exists>pre info post. ListSnapshots objs = pre @ info # post \<and> c = (check info)\<lparr>sc_index := length pre\<rparr>
    \<and> (\<forall>x \<in> set pre. Legacy (check x) \<or> Refused (check x)) \<and> (\<forall>x \<in> set post. info_Mark x \<le> info_Mark info))"
proof -
  let ?infos = "ListSnapshots objs"
  obtain n where n: "ss_Verified sel = filter Verified (checks_of check 0 (take n ?infos))"
      "ss_failedAhead sel = failed_first (checks_of check 0 (take n ?infos))"
    by (rule selectSnapshots_classes [OF sel]) blast
  have v: "filter Verified (checks_of check 0 (take n ?infos)) = c # cs" "\<not> failed_first (checks_of check 0 (take n ?infos))"
    using c n by (auto simp: Candidates_def split: if_splits)
  from first_verified [OF v] obtain pre info post where p: "take n ?infos = pre @ info # post"
    "c = (check info)\<lparr>sc_index := length pre\<rparr>" "\<forall>x \<in> set pre. Legacy (check x) \<or> Refused (check x)" by auto
  have eq: "?infos = pre @ info # (post @ drop n ?infos)"
    using p(1) append_take_drop_id [of n ?infos] by (metis append.assoc append_Cons)
  have "sorted (map (\<lambda>i. (- uint (si_Epoch i), - si_CreatedAt i)) ?infos)"
    unfolding ListSnapshots_def by (rule sorted_sort_key)
  then have "sorted (map (\<lambda>i. (- uint (si_Epoch i), - si_CreatedAt i)) (pre @ info # (post @ drop n ?infos)))"
    using eq by simp
  then have "\<forall>x \<in> set (post @ drop n ?infos).
      (- uint (si_Epoch info), - si_CreatedAt info) \<le> (- uint (si_Epoch x), - si_CreatedAt x)"
    by (simp add: sorted_append ball_Un del: less_eq_prod_simp)
  then have "\<forall>x \<in> set (post @ drop n ?infos). info_Mark x \<le> info_Mark info" unfolding info_Mark_order .
  moreover have "Verified c" using v(1) by (metis Cons_eq_filterD)
  ultimately show ?thesis using eq p by blast
qed

theorem first_candidate_is_newest_witness:
  "\<exists>sel c cs. selectSnapshots ''prod'' (ListSnapshots [sample_info ''a'' 1 5, sample_info ''b'' 2 9]) 0 sample_check (\<lambda>_. False) = Some sel
     \<and> Candidates sel = (c # cs, False) \<and> Verified c"
proof -
  have l: "ListSnapshots [sample_info ''a'' 1 5, sample_info ''b'' 2 9] = [sample_info ''b'' 2 9, sample_info ''a'' 1 5]"
    by (simp add: ListSnapshots_def sample_info_def)
  have z: "si_SizeBytes (sample_info k e t) = 1" for k e t by (simp add: sample_info_def)
  obtain sel where sel: "selectSnapshots ''prod'' (ListSnapshots [sample_info ''a'' 1 5, sample_info ''b'' 2 9]) 0 sample_check (\<lambda>_. False) = Some sel"
    by (simp add: selectSnapshots_def l)
  then have "ss_Verified sel = [(sample_check (sample_info ''b'' 2 9))\<lparr>sc_index := 0\<rparr>, (sample_check (sample_info ''a'' 1 5))\<lparr>sc_index := 1\<rparr>]"
    "ss_failedAhead sel = False"
    unfolding l by (auto simp: selectSnapshots_def new_selection_def Failing_def z)
  then have c: "Candidates sel = ((sample_check (sample_info ''b'' 2 9))\<lparr>sc_index := 0\<rparr> # [(sample_check (sample_info ''a'' 1 5))\<lparr>sc_index := 1\<rparr>], False)"
    by (simp add: Candidates_def)
  from first_candidate_is_newest [OF sel c] sel c show ?thesis by blast
qed

section \<open>Remembered outcomes\<close>

text \<open>The time and epoch of a listed object are read from its key.\<close>

definition named_by :: "(string \<Rightarrow> go_time \<times> 64 word) \<Rightarrow> SnapshotInfo \<Rightarrow> bool" where
  "named_by parse i \<longleftrightarrow> parse (si_Key i) = (si_CreatedAt i, si_Epoch i)"

text \<open>Storage may fail for a while: checking a snapshot gives what its stored object holds (\<open>truth\<close>) or an error that says nothing about
  it, so an outcome that says something is that of the object version.\<close>

definition reads_truth :: "(string \<Rightarrow> go_time \<times> 64 word) \<Rightarrow> (SnapshotInfo \<Rightarrow> SnapshotCheck) \<Rightarrow> SnapshotInfo list \<Rightarrow> (SnapshotInfo \<Rightarrow> SnapshotCheck) \<Rightarrow> bool" where
  "reads_truth parse truth infos check \<longleftrightarrow> distinct (map si_Key infos)
     \<and> (\<forall>i \<in> set infos. sc_Info (check i) = i \<and> named_by parse i \<and> (determinate (check i) \<longrightarrow> check i = truth i))"

definition cache_ok :: "(string \<Rightarrow> go_time \<times> 64 word) \<Rightarrow> (SnapshotInfo \<Rightarrow> SnapshotCheck) \<Rightarrow> snapshot_cache \<Rightarrow> bool" where
  "cache_ok parse truth cache \<longleftrightarrow> (\<forall>k c. cache k = Some c \<longrightarrow>
     si_Key (sc_Info c) = k \<and> truth (sc_Info c) = c \<and> determinate c \<and> named_by parse (sc_Info c))"

text \<open>The cache after a sequence of selections, each with its own listing, outcomes and interruptions.\<close>

definition checker_history :: "string \<Rightarrow> (SnapshotInfo list \<times> int \<times> (SnapshotInfo \<Rightarrow> SnapshotCheck) \<times> (nat \<Rightarrow> bool)) list \<Rightarrow> snapshot_cache" where
  "checker_history cluster sels = fold (\<lambda>(infos, want, check, ended) cache. snd (checker_Select cluster infos want check ended cache)) sels Map.empty"

lemma sameObject_named: "sameObject a b \<Longrightarrow> named_by parse a \<Longrightarrow> named_by parse b \<Longrightarrow> a = b"
  by (simp add: sameObject_def named_by_def)

lemma find_listed_self:
  assumes "distinct (map si_Key infos)" "info \<in> set infos"
  shows "find_listed infos (si_Key info) = Some info"
proof -
  have "find (\<lambda>i. si_Key i = si_Key info) xs = Some info" if "distinct (map si_Key xs)" "info \<in> set xs" for xs
    using that by (induction xs) auto
  from this [of "rev infos"] assms show ?thesis by (simp add: find_listed_def rev_map [symmetric])
qed

lemma evict_agrees:
  assumes "cache_ok parse truth cache" "distinct (map si_Key infos)" "info \<in> set infos" "named_by parse info"
    "evict infos cache (si_Key info) = Some c"
  shows "c = truth info"
proof -
  have c: "cache (si_Key info) = Some c" "sameObject (sc_Info c) info"
    using assms(5) find_listed_self [OF assms(2,3)] by (auto simp: evict_def split: option.splits if_splits)
  then have "truth (sc_Info c) = c" "named_by parse (sc_Info c)" using assms(1) by (auto simp: cache_ok_def)
  then show ?thesis using sameObject_named [OF c(2) _ assms(4)] by simp
qed

lemma evict_ok: "cache_ok parse truth cache \<Longrightarrow> cache_ok parse truth (evict infos cache)"
  by (auto simp: cache_ok_def evict_def split: option.splits if_splits)

definition remembered :: "snapshot_cache \<Rightarrow> (SnapshotInfo \<Rightarrow> SnapshotCheck) \<Rightarrow> (SnapshotInfo \<Rightarrow> SnapshotCheck) \<Rightarrow> SnapshotInfo \<Rightarrow> SnapshotCheck" where
  "remembered cache truth check i = (if cache (si_Key i) \<noteq> None then truth i else check i)"

lemma selectLoop_cong: "(\<And>i. i \<in> set infos \<Longrightarrow> f i = g i) \<Longrightarrow> selectLoop cluster want f ended n infos sel = selectLoop cluster want g ended n infos sel"
  by (induction infos arbitrary: n sel) simp_all

lemma cachedLoop_agrees:
  assumes "reads_truth parse truth infos check" "cache_ok parse truth cache"
    and "\<And>info c. info \<in> set infos \<Longrightarrow> cache (si_Key info) = Some c \<Longrightarrow> c = truth info"
  shows "fst (cachedLoop cluster want check ended i infos sel cache) = selectLoop cluster want (remembered cache truth check) ended i infos sel
    \<and> cache_ok parse truth (snd (cachedLoop cluster want check ended i infos sel cache))"
  using assms
proof (induction infos arbitrary: i sel cache)
  case (Cons x infos)
  show ?case
  proof (cases "want > 0 \<and> int (length (ss_Verified sel)) \<ge> want")
    case True
    with Cons.prems(2) show ?thesis by auto
  next
    case False
    note pr = Cons.prems(1) [unfolded reads_truth_def]
    have x: "sc_Info (check x) = x" "named_by parse x" "determinate (check x) \<longrightarrow> check x = truth x" using pr by simp_all
    have r: "reads_truth parse truth infos check" using pr by (simp add: reads_truth_def)
    have d: "si_Key info \<noteq> si_Key x" if "info \<in> set infos" for info
      using conjunct1 [OF pr] that by (metis distinct.simps(2) image_eqI list.set_map list.simps(9))
    let ?c = "remembered cache truth check x"
    have c: "(case cache (si_Key x) of Some old \<Rightarrow> old | None \<Rightarrow> check x) = ?c"
      using Cons.prems(3) [of x] by (auto simp: remembered_def split: option.splits)
    define cache' where "cache' = (if cache (si_Key x) = None \<and> determinate ?c then cache(si_Key x \<mapsto> ?c) else cache)"
    have ok: "cache_ok parse truth cache'"
      using Cons.prems(2) x by (auto simp: cache'_def cache_ok_def remembered_def)
    have same: "cache' (si_Key info) = cache (si_Key info)" if "info \<in> set infos" for info using d [OF that] by (simp add: cache'_def)
    then have agree: "y = truth info" if "info \<in> set infos" "cache' (si_Key info) = Some y" for info y using that Cons.prems(3) [of info y] by simp
    have "selectLoop cluster want (remembered cache' truth check) ended n infos sel' = selectLoop cluster want (remembered cache truth check) ended n infos sel'"
      for n sel' by (rule selectLoop_cong) (simp add: remembered_def same)
    then show ?thesis using Cons.IH [OF r ok agree, of "Suc i"] ok
      unfolding cachedLoop.simps selectLoop.simps if_not_P [OF False] Let_def c cache'_def [symmetric] by simp
  qed
qed simp

lemma Select_agrees:
  assumes "reads_truth parse truth infos check" "cache_ok parse truth cache"
  shows "fst (checker_Select cluster infos want check ended cache) = selectSnapshots cluster infos want (remembered (evict infos cache) truth check) ended
    \<and> cache_ok parse truth (snd (checker_Select cluster infos want check ended cache))"
  unfolding checker_Select_def selectSnapshots_def
  using assms evict_agrees [OF assms(2)] evict_ok [OF assms(2)] by (intro cachedLoop_agrees) (auto simp: reads_truth_def)

lemma history_ok:
  assumes "\<forall>(infos, want, check, ended) \<in> set sels. reads_truth parse truth infos check"
  shows "cache_ok parse truth (checker_history cluster sels)"
proof -
  have "cache_ok parse truth (fold (\<lambda>(infos, want, check, ended) cache. snd (checker_Select cluster infos want check ended cache)) sels cache)"
    if "cache_ok parse truth cache" for cache
    using assms that
  proof (induction sels arbitrary: cache)
    case (Cons x sels)
    obtain infos want check ended where x: "x = (infos, want, check, ended)" by (cases x)
    have "cache_ok parse truth (snd (checker_Select cluster infos want check ended cache))"
      using Select_agrees [of parse truth infos check cache] Cons.prems x by auto
    then show ?case using Cons.IH Cons.prems(1) x by simp
  qed simp
  note step = this
  show ?thesis unfolding checker_history_def by (rule step) (simp add: cache_ok_def)
qed

text \<open>C23: the checker's memory never changes a decision. After any sequence of selections, over changing listings and with storage
  failing now and then, a selection finds what one that reads every snapshot now would find, only that an object version whose
  outcome is remembered counts with what it holds, even if reading it fails now. So when every listed snapshot can be read, the selection is
  exactly the fresh one, whatever errors earlier selections met: errors are not remembered, and neither are replaced objects.\<close>

theorem cached_selection_agrees:
  assumes "\<forall>(infos, want, check, ended) \<in> set sels. reads_truth parse truth infos check" "reads_truth parse truth infos check"
  shows "(\<exists>known. (\<forall>i \<in> known. determinate (truth i))
      \<and> fst (checker_Select cluster infos want check ended (checker_history cluster sels))
        = selectSnapshots cluster infos want (\<lambda>i. if i \<in> known then truth i else check i) ended)
    \<and> ((\<forall>i \<in> set infos. check i = truth i) \<longrightarrow>
        fst (checker_Select cluster infos want check ended (checker_history cluster sels)) = selectSnapshots cluster infos want check ended)"
proof (intro conjI impI)
  let ?cache = "evict infos (checker_history cluster sels)"
  note ok = history_ok [OF assms(1), of cluster]
  have sel: "fst (checker_Select cluster infos want check ended (checker_history cluster sels)) = selectSnapshots cluster infos want (remembered ?cache truth check) ended"
    using Select_agrees [OF assms(2) ok] by blast
  let ?known = "{i \<in> set infos. ?cache (si_Key i) \<noteq> None}"
  show "\<exists>known. (\<forall>i \<in> known. determinate (truth i)) \<and> fst (checker_Select cluster infos want check ended (checker_history cluster sels))
        = selectSnapshots cluster infos want (\<lambda>i. if i \<in> known then truth i else check i) ended"
  proof (intro exI conjI ballI)
    fix i assume "i \<in> ?known"
    then obtain c where i: "i \<in> set infos" "?cache (si_Key i) = Some c" by blast
    then have "c = truth i" using evict_agrees [OF ok] assms(2) by (auto simp: reads_truth_def)
    then show "determinate (truth i)" using evict_ok [OF ok] i(2) by (auto simp: cache_ok_def)
  next
    show "fst (checker_Select cluster infos want check ended (checker_history cluster sels))
        = selectSnapshots cluster infos want (\<lambda>i. if i \<in> ?known then truth i else check i) ended"
      unfolding sel selectSnapshots_def by (rule selectLoop_cong) (simp add: remembered_def)
  qed
  show "fst (checker_Select cluster infos want check ended (checker_history cluster sels)) = selectSnapshots cluster infos want check ended"
    if "\<forall>i \<in> set infos. check i = truth i"
    unfolding sel selectSnapshots_def by (rule selectLoop_cong) (use that in \<open>simp add: remembered_def\<close>)
qed

text \<open>Storage failed during the first selection; the second finds the snapshot verified.\<close>

definition failed_check :: "SnapshotInfo \<Rightarrow> SnapshotCheck" where
  "failed_check i = \<lparr>sc_Info = i, sc_Header = None, sc_Err = Some ErrSnapshotStorage, sc_index = 0\<rparr>"

theorem cached_selection_agrees_witness:
  "fst (checker_Select ''prod'' [sample_info ''b'' 2 9] 0 sample_check (\<lambda>_. False)
      (checker_history ''prod'' [([sample_info ''b'' 2 9], 0, failed_check, \<lambda>_. False)]))
   = selectSnapshots ''prod'' [sample_info ''b'' 2 9] 0 sample_check (\<lambda>_. False)"
proof -
  have f: "reads_truth (\<lambda>_. (9, 2)) sample_check [sample_info ''b'' 2 9] failed_check"
    by (simp add: reads_truth_def failed_check_def determinate_def Legacy_def Refused_def named_by_def sample_info_def)
  have t: "reads_truth (\<lambda>_. (9, 2)) sample_check [sample_info ''b'' 2 9] sample_check"
    by (simp add: reads_truth_def named_by_def sample_info_def)
  from cached_selection_agrees [OF _ t, of "[([sample_info ''b'' 2 9], 0, failed_check, \<lambda>_. False)]"] f show ?thesis by simp
qed

end
