(* ===== verification/Runs_Slots.thy ===== *)
theory Runs_Slots
  imports Mr_Prelude
begin

text \<open>
  The counted slots of the run manager, \<open>src/internal/runs/slots.go\<close>. The queues live in an explicit heap
  (\<open>rm_heap\<close>), because callers keep a pointer to their queue while the manager's map may forget it. The channel of
  a waiting caller is the number of its call; a closed channel is a member of \<open>rm_done\<close>.

  \<open>AcquireSlot\<close> holds the manager's lock twice: when it enters, and when it leaves because its context or the
  manager ended. Each critical section is one function; the calls in between are steps of the relation \<open>slot_step\<close>.
\<close>

section \<open>State and operations\<close>

datatype run_error = ErrBusy string | ErrShuttingDown | ErrNotAdmitted string

record slotQueue =
  sq_held :: int
  sq_limit :: int
  sq_waiters :: "nat list"

record RunManager =
  rm_active :: "string set"
  rm_shared :: "string \<Rightarrow> int"
  rm_slots :: "string \<rightharpoonup> nat"
  rm_heap :: "nat \<Rightarrow> slotQueue"
  rm_nextq :: nat
  rm_done :: "nat set"
  rm_closed :: bool
  rm_refusing :: bool
  rm_started :: int
  rm_critical :: int

definition NewManager :: RunManager where
  "NewManager = \<lparr>rm_active = {}, rm_shared = (\<lambda>_. 0), rm_slots = Map.empty,
     rm_heap = (\<lambda>_. \<lparr>sq_held = 0, sq_limit = 0, sq_waiters = []\<rparr>), rm_nextq = 0, rm_done = {}, rm_closed = False,
     rm_refusing = False, rm_started = 0, rm_critical = 0\<rparr>"

definition ConnectionKey :: "string \<Rightarrow> string" where
  "ConnectionKey connectionID = ''connection:'' @ connectionID"

text \<open>The loop of \<open>admitLocked\<close>: the held count, the waiters left and the channels closed.\<close>

fun admitLoop :: "int \<Rightarrow> int \<Rightarrow> nat list \<Rightarrow> int \<times> nat list \<times> nat list" where
  "admitLoop held limit [] = (held, [], [])"
| "admitLoop held limit (w # ws) =
     (if held < limit
      then (case admitLoop (held + 1) limit ws of (h, rest, cs) \<Rightarrow> (h, rest, w # cs))
      else (held, w # ws, []))"

definition set_queue :: "nat \<Rightarrow> slotQueue \<Rightarrow> RunManager \<Rightarrow> RunManager" where
  "set_queue q sq m = m\<lparr>rm_heap := (rm_heap m)(q := sq)\<rparr>"

definition admitLocked :: "nat \<Rightarrow> RunManager \<Rightarrow> RunManager" where
  "admitLocked q m =
     (let sq = rm_heap m q in
      case admitLoop (sq_held sq) (sq_limit sq) (sq_waiters sq) of (h, rest, cs) \<Rightarrow>
        (set_queue q (sq\<lparr>sq_held := h, sq_waiters := rest\<rparr>) m)\<lparr>rm_done := rm_done m \<union> set cs\<rparr>)"

definition dropIdleLocked :: "string \<Rightarrow> nat \<Rightarrow> RunManager \<Rightarrow> RunManager" where
  "dropIdleLocked key q m =
     (if sq_held (rm_heap m q) \<le> 0 \<and> sq_waiters (rm_heap m q) = [] \<and> rm_slots m key = Some q
      then m\<lparr>rm_slots := (rm_slots m)(key := None)\<rparr> else m)"

definition freeLocked :: "string \<Rightarrow> nat \<Rightarrow> RunManager \<Rightarrow> RunManager" where
  "freeLocked key q m =
     dropIdleLocked key q (admitLocked q (set_queue q ((rm_heap m q)\<lparr>sq_held := sq_held (rm_heap m q) - 1\<rparr>) m))"

datatype slot_result = SlotUnlimited | SlotRefused run_error | SlotTaken nat | SlotQueued nat

definition slot_queue :: "string \<Rightarrow> RunManager \<Rightarrow> nat \<times> RunManager" where
  "slot_queue key m = (case rm_slots m key of
     Some q \<Rightarrow> (q, m)
   | None \<Rightarrow> let q = rm_nextq m in
       (q, m\<lparr>rm_heap := (rm_heap m)(q := \<lparr>sq_held = 0, sq_limit = 0, sq_waiters = []\<rparr>),
             rm_slots := (rm_slots m)(key \<mapsto> q), rm_nextq := q + 1\<rparr>))"

definition AcquireSlot_enter :: "nat \<Rightarrow> string \<Rightarrow> int \<Rightarrow> RunManager \<Rightarrow> slot_result \<times> RunManager" where
  "AcquireSlot_enter ch key limit m =
     (if limit \<le> 0 \<or> key = [] then (SlotUnlimited, m)
      else if rm_closed m then (SlotRefused ErrShuttingDown, m)
      else case slot_queue key m of (q, m0) \<Rightarrow>
        (let m1 = set_queue q ((rm_heap m0 q)\<lparr>sq_limit := limit\<rparr>) m0;
             m2 = admitLocked q m1;
             sq = rm_heap m2 q
         in if sq_held sq < sq_limit sq \<and> sq_waiters sq = []
            then (SlotTaken q, set_queue q (sq\<lparr>sq_held := sq_held sq + 1\<rparr>) m2)
            else (SlotQueued q, set_queue q (sq\<lparr>sq_waiters := sq_waiters sq @ [ch]\<rparr>) m2)))"

definition AcquireSlot_leave :: "nat \<Rightarrow> string \<Rightarrow> nat \<Rightarrow> RunManager \<Rightarrow> RunManager" where
  "AcquireSlot_leave ch key q m =
     (let sq = rm_heap m q in
      if ch \<in> set (sq_waiters sq)
      then dropIdleLocked key q (set_queue q (sq\<lparr>sq_waiters := remove1 ch (sq_waiters sq)\<rparr>) m)
      else freeLocked key q m)"

definition SlotWaiters :: "string \<Rightarrow> RunManager \<Rightarrow> nat" where
  "SlotWaiters key m = (case rm_slots m key of Some q \<Rightarrow> length (sq_waiters (rm_heap m q)) | None \<Rightarrow> 0)"

section \<open>Calls\<close>

text \<open>The calls of \<open>AcquireSlot\<close> with a limit: a call waits for a queue, holds a slot, or is over. Every call brings
  its own limit; \<open>lim key\<close> bounds the limits asked for \<open>key\<close>.\<close>

datatype slot_call = NotCalled | Waits string nat | Holds string nat | Over

record slots_state =
  sl_mgr :: RunManager
  sl_call :: "nat \<Rightarrow> slot_call"

definition set_call :: "nat \<Rightarrow> slot_call \<Rightarrow> RunManager \<Rightarrow> slots_state \<Rightarrow> slots_state" where
  "set_call c x m S = S\<lparr>sl_call := (sl_call S)(c := x), sl_mgr := m\<rparr>"

inductive slot_step :: "(string \<Rightarrow> int) \<Rightarrow> slots_state \<Rightarrow> slots_state \<Rightarrow> bool" for lim where
  Take: "sl_call S c = NotCalled \<Longrightarrow> limit \<le> lim key \<Longrightarrow> AcquireSlot_enter c key limit (sl_mgr S) = (SlotTaken q, m)
    \<Longrightarrow> slot_step lim S (set_call c (Holds key q) m S)"
| Queue: "sl_call S c = NotCalled \<Longrightarrow> limit \<le> lim key \<Longrightarrow> AcquireSlot_enter c key limit (sl_mgr S) = (SlotQueued q, m)
    \<Longrightarrow> slot_step lim S (set_call c (Waits key q) m S)"
| Granted: "sl_call S c = Waits key q \<Longrightarrow> c \<in> rm_done (sl_mgr S)
    \<Longrightarrow> slot_step lim S (set_call c (Holds key q) (sl_mgr S) S)"
| Leave: "sl_call S c = Waits key q
    \<Longrightarrow> slot_step lim S (set_call c Over (AcquireSlot_leave c key q (sl_mgr S)) S)"
| Release: "sl_call S c = Holds key q
    \<Longrightarrow> slot_step lim S (set_call c Over (freeLocked key q (sl_mgr S)) S)"
| Close: "slot_step lim S (S\<lparr>sl_mgr := (sl_mgr S)\<lparr>rm_closed := True\<rparr>\<rparr>)"

inductive slots_reach :: "(string \<Rightarrow> int) \<Rightarrow> slots_state \<Rightarrow> bool" for lim where
  slots_init: "slots_reach lim \<lparr>sl_mgr = NewManager, sl_call = (\<lambda>_. NotCalled)\<rparr>"
| slots_next: "slots_reach lim S \<Longrightarrow> slot_step lim S S' \<Longrightarrow> slots_reach lim S'"

section \<open>Invariant\<close>

definition granted :: "slots_state \<Rightarrow> nat \<Rightarrow> nat set" where
  "granted S q = {c. \<exists>key. sl_call S c = Holds key q \<or> sl_call S c = Waits key q \<and> c \<in> rm_done (sl_mgr S)}"

definition waiting :: "slots_state \<Rightarrow> nat \<Rightarrow> nat set" where
  "waiting S q = {c. \<exists>key. sl_call S c = Waits key q \<and> c \<notin> rm_done (sl_mgr S)}"

definition queue_ok :: "(string \<Rightarrow> int) \<Rightarrow> slots_state \<Rightarrow> string \<Rightarrow> nat \<Rightarrow> bool" where
  "queue_ok lim S key q \<longleftrightarrow> (let sq = rm_heap (sl_mgr S) q in
     q < rm_nextq (sl_mgr S) \<and> distinct (sq_waiters sq) \<and> set (sq_waiters sq) = waiting S q
     \<and> finite (granted S q) \<and> sq_held sq = int (card (granted S q)) \<and> sq_held sq \<le> lim key
     \<and> 0 < sq_limit sq \<and> sq_limit sq \<le> lim key)"

definition slots_base :: "(string \<Rightarrow> int) \<Rightarrow> slots_state \<Rightarrow> bool" where
  "slots_base lim S \<longleftrightarrow>
     (\<forall>key q. rm_slots (sl_mgr S) key = Some q \<longrightarrow> queue_ok lim S key q)
     \<and> (\<forall>k k' q. rm_slots (sl_mgr S) k = Some q \<and> rm_slots (sl_mgr S) k' = Some q \<longrightarrow> k = k')
     \<and> (\<forall>c key q. sl_call S c = Holds key q \<or> sl_call S c = Waits key q \<longrightarrow> rm_slots (sl_mgr S) key = Some q)
     \<and> (\<forall>c \<in> rm_done (sl_mgr S). sl_call S c \<noteq> NotCalled)"

text \<open>No slot is free while somebody waits, and a queue nobody uses is forgotten.\<close>

definition busy :: "RunManager \<Rightarrow> nat \<Rightarrow> bool" where
  "busy m q \<longleftrightarrow> (sq_waiters (rm_heap m q) \<noteq> [] \<longrightarrow> sq_held (rm_heap m q) \<ge> sq_limit (rm_heap m q)) \<and> 0 < sq_held (rm_heap m q)"

definition slots_inv :: "(string \<Rightarrow> int) \<Rightarrow> slots_state \<Rightarrow> bool" where
  "slots_inv lim S \<longleftrightarrow> slots_base lim S \<and> (\<forall>key q. rm_slots (sl_mgr S) key = Some q \<longrightarrow> busy (sl_mgr S) q)"

section \<open>Preservation\<close>

definition mentions :: "slot_call \<Rightarrow> nat \<Rightarrow> bool" where
  "mentions x q \<longleftrightarrow> (\<exists>key. x = Holds key q \<or> x = Waits key q)"

lemma mentions_simps [simp]:
  "mentions (Holds k q) q' \<longleftrightarrow> q = q'" "mentions (Waits k q) q' \<longleftrightarrow> q = q'" "\<not> mentions Over q'" "\<not> mentions NotCalled q'"
  by (auto simp: mentions_def)

lemma admitLoop_spec:
  "admitLoop h l ws = (h', rest, cs) \<Longrightarrow>
   ws = cs @ rest \<and> h' = h + int (length cs) \<and> (rest \<noteq> [] \<longrightarrow> l \<le> h') \<and> (cs \<noteq> [] \<longrightarrow> h' \<le> l)"
proof (induction h l ws arbitrary: h' rest cs rule: admitLoop.induct)
  case (2 held limit w ws)
  show ?case
  proof (cases "held < limit")
    case True
    obtain h1 rest1 cs1 where a: "admitLoop (held + 1) limit ws = (h1, rest1, cs1)" by (cases "admitLoop (held + 1) limit ws") auto
    from "2.IH" [OF True a] "2.prems" a True show ?thesis by (cases "cs1 = []") auto
  next
    case False
    with "2.prems" show ?thesis by auto
  qed
qed auto

text \<open>What the manager does to queue \<open>q\<close> leaves the other queues alone.\<close>

lemma queue_ok_other:
  assumes "queue_ok lim S key q" "rm_heap (sl_mgr S') q = rm_heap (sl_mgr S) q" "rm_nextq (sl_mgr S) \<le> rm_nextq (sl_mgr S')"
    and "\<And>c. sl_call S' c = sl_call S c \<or> \<not> mentions (sl_call S c) q \<and> \<not> mentions (sl_call S' c) q"
    and "\<And>c. mentions (sl_call S' c) q \<Longrightarrow> c \<in> rm_done (sl_mgr S') \<longleftrightarrow> c \<in> rm_done (sl_mgr S)"
  shows "queue_ok lim S' key q"
proof -
  have "granted S' q = granted S q" "waiting S' q = waiting S q"
    unfolding granted_def waiting_def
    using assms(4,5) unfolding mentions_def by (metis (mono_tags, lifting))+
  then show ?thesis using assms(1-3) by (simp add: queue_ok_def Let_def)
qed

lemma slots_baseD:
  assumes "slots_base lim S"
  shows "rm_slots (sl_mgr S) key = Some q \<Longrightarrow> queue_ok lim S key q"
    "rm_slots (sl_mgr S) key = Some q \<Longrightarrow> rm_slots (sl_mgr S) key' = Some q \<Longrightarrow> key = key'"
    "mentions (sl_call S c) q \<Longrightarrow> rm_slots (sl_mgr S) key = Some q \<Longrightarrow> sl_call S c = Holds key q \<or> sl_call S c = Waits key q"
    "c \<in> rm_done (sl_mgr S) \<Longrightarrow> sl_call S c \<noteq> NotCalled"
  using assms unfolding slots_base_def mentions_def by blast+

lemma waiting_granted_disjoint: "waiting S q \<inter> granted S q = {}"
  by (auto simp: waiting_def granted_def)

text \<open>A change of queue \<open>q\<close>, of the call \<open>c\<close> that uses it and of channels of its waiters keeps the base invariant
  when it keeps it for \<open>q\<close>.\<close>

lemma slots_base_change:
  assumes inv: "slots_base lim S" and q: "rm_slots (sl_mgr S) key = Some q"
    and slots: "rm_slots (sl_mgr S') = rm_slots (sl_mgr S)" and nq: "rm_nextq (sl_mgr S) = rm_nextq (sl_mgr S')"
    and heap: "\<And>q'. q' \<noteq> q \<Longrightarrow> rm_heap (sl_mgr S') q' = rm_heap (sl_mgr S) q'"
    and calls: "\<And>c. sl_call S' c = sl_call S c \<or> \<not> (\<exists>q'. q' \<noteq> q \<and> (mentions (sl_call S c) q' \<or> mentions (sl_call S' c) q'))"
      "\<And>c k q'. sl_call S' c = Holds k q' \<or> sl_call S' c = Waits k q' \<Longrightarrow> rm_slots (sl_mgr S) k = Some q'"
    and chans: "\<And>c. c \<in> rm_done (sl_mgr S') \<Longrightarrow> c \<notin> rm_done (sl_mgr S) \<Longrightarrow> sl_call S' c = Waits key q"
      "rm_done (sl_mgr S) \<subseteq> rm_done (sl_mgr S')"
      "\<And>c. c \<in> rm_done (sl_mgr S) \<Longrightarrow> sl_call S' c \<noteq> NotCalled"
    and ok: "queue_ok lim S' key q"
  shows "slots_base lim S'"
proof -
  have "queue_ok lim S' k q'" if k: "rm_slots (sl_mgr S') k = Some q'" for k q'
  proof (cases "q' = q")
    case True
    with k q slots slots_baseD(2) [OF inv] have "k = key" by simp
    with True ok show ?thesis by simp
  next
    case False
    have k': "rm_slots (sl_mgr S) k = Some q'" using k slots by simp
    show ?thesis
    proof (rule queue_ok_other [OF slots_baseD(1) [OF inv k'] heap [OF False]])
      fix c show "sl_call S' c = sl_call S c \<or> \<not> mentions (sl_call S c) q' \<and> \<not> mentions (sl_call S' c) q'"
        using calls(1) [of c] False by blast
      show "c \<in> rm_done (sl_mgr S') \<longleftrightarrow> c \<in> rm_done (sl_mgr S)" if "mentions (sl_call S' c) q'"
        using chans(1) [of c] chans(2) that False by (cases "c \<in> rm_done (sl_mgr S)") (auto simp: mentions_def)
    qed (simp add: nq)
  qed
  moreover have "k = k'" if "rm_slots (sl_mgr S') k = Some x \<and> rm_slots (sl_mgr S') k' = Some x" for k k' x
    using that slots slots_baseD(2) [OF inv, of k x k'] by simp
  moreover have "sl_call S' c \<noteq> NotCalled" if "c \<in> rm_done (sl_mgr S')" for c
    using chans(1) [OF that] chans(3) [of c] by (cases "c \<in> rm_done (sl_mgr S)") auto
  ultimately show ?thesis unfolding slots_base_def using slots calls(2) by simp
qed

lemma base_admit:
  assumes inv: "slots_base lim S" and q: "rm_slots (sl_mgr S) key = Some q"
  defines "S' \<equiv> S\<lparr>sl_mgr := admitLocked q (sl_mgr S)\<rparr>"
  shows "slots_base lim S'"
    "sq_waiters (rm_heap (sl_mgr S') q) \<noteq> [] \<longrightarrow> sq_limit (rm_heap (sl_mgr S') q) \<le> sq_held (rm_heap (sl_mgr S') q)"
    "sq_held (rm_heap (sl_mgr S) q) \<le> sq_held (rm_heap (sl_mgr S') q)"
    "sq_limit (rm_heap (sl_mgr S') q) = sq_limit (rm_heap (sl_mgr S) q)"
    "rm_slots (sl_mgr S') = rm_slots (sl_mgr S)" "\<And>q'. q' \<noteq> q \<Longrightarrow> rm_heap (sl_mgr S') q' = rm_heap (sl_mgr S) q'"
    "rm_done (sl_mgr S) \<subseteq> rm_done (sl_mgr S')" "set (sq_waiters (rm_heap (sl_mgr S') q)) \<subseteq> set (sq_waiters (rm_heap (sl_mgr S) q))"
proof -
  let ?sq = "rm_heap (sl_mgr S) q"
  obtain h rest cs where a: "admitLoop (sq_held ?sq) (sq_limit ?sq) (sq_waiters ?sq) = (h, rest, cs)"
    by (cases "admitLoop (sq_held ?sq) (sq_limit ?sq) (sq_waiters ?sq)") auto
  note spec = admitLoop_spec [OF a]
  have m: "rm_heap (sl_mgr S') = (rm_heap (sl_mgr S))(q := ?sq\<lparr>sq_held := h, sq_waiters := rest\<rparr>)"
    "rm_done (sl_mgr S') = rm_done (sl_mgr S) \<union> set cs" "rm_slots (sl_mgr S') = rm_slots (sl_mgr S)"
    "rm_nextq (sl_mgr S') = rm_nextq (sl_mgr S)" "sl_call S' = sl_call S"
    by (simp_all add: S'_def admitLocked_def Let_def a set_queue_def)
  have ok: "queue_ok lim S key q" by (rule slots_baseD(1) [OF inv q])
  then have w: "set (sq_waiters ?sq) = waiting S q" "distinct (sq_waiters ?sq)" "finite (granted S q)"
    "sq_held ?sq = int (card (granted S q))" "sq_held ?sq \<le> lim key" "sq_limit ?sq \<le> lim key" "0 < sq_limit ?sq"
    by (simp_all add: queue_ok_def Let_def)
  have cs: "set cs \<subseteq> waiting S q" using w(1) spec by auto
  have call: "sl_call S c = Waits key q" if "c \<in> waiting S q" for c
    using that slots_baseD(3) [OF inv _ q, of c] by (auto simp: waiting_def)
  have callcs: "sl_call S c = Waits key q" if "c \<in> set cs" for c using call cs that by blast
  have g: "granted S' q = granted S q \<union> set cs"
    unfolding granted_def m(2,5) using callcs by blast
  have g2: "waiting S' q = waiting S q - set cs" unfolding waiting_def m(2,5) by blast
  have "card (granted S' q) = card (granted S q) + length cs"
    unfolding g using w(2,3) spec cs waiting_granted_disjoint [of S q]
    by (subst card_Un_disjoint) (auto simp: distinct_card)
  moreover have "set rest = waiting S' q" using g2 w(1,2) spec by auto
  moreover have "distinct rest" "finite (granted S' q)" using w(2,3) spec g by auto
  moreover have "h \<le> lim key" using spec w(5,6) by (cases "cs = []") auto
  ultimately have ok': "queue_ok lim S' key q"
    using ok spec w(4,6,7) m by (simp add: queue_ok_def Let_def)
  show "slots_base lim S'"
  proof (rule slots_base_change [OF inv q m(3) _ _ _ _ _ _ _ ok'])
    show "rm_slots (sl_mgr S) k = Some q'" if "sl_call S' c = Holds k q' \<or> sl_call S' c = Waits k q'" for c k q'
      using that inv m(5) unfolding slots_base_def by metis
    show "sl_call S' c = Waits key q" if "c \<in> rm_done (sl_mgr S')" "c \<notin> rm_done (sl_mgr S)" for c
      using that m(2,5) callcs by auto
    show "sl_call S' c \<noteq> NotCalled" if "c \<in> rm_done (sl_mgr S)" for c
      using slots_baseD(4) [OF inv that] m(5) by simp
  qed (use m in auto)
  show "sq_waiters (rm_heap (sl_mgr S') q) \<noteq> [] \<longrightarrow> sq_limit (rm_heap (sl_mgr S') q) \<le> sq_held (rm_heap (sl_mgr S') q)"
    "sq_held (rm_heap (sl_mgr S) q) \<le> sq_held (rm_heap (sl_mgr S') q)"
    "sq_limit (rm_heap (sl_mgr S') q) = sq_limit (rm_heap (sl_mgr S) q)"
    "rm_slots (sl_mgr S') = rm_slots (sl_mgr S)" "\<And>q'. q' \<noteq> q \<Longrightarrow> rm_heap (sl_mgr S') q' = rm_heap (sl_mgr S) q'"
    "rm_done (sl_mgr S) \<subseteq> rm_done (sl_mgr S')" "set (sq_waiters (rm_heap (sl_mgr S') q)) \<subseteq> set (sq_waiters (rm_heap (sl_mgr S) q))"
    using m spec by auto
qed

definition busy_but :: "nat \<Rightarrow> RunManager \<Rightarrow> bool" where
  "busy_but q m \<longleftrightarrow> (\<forall>key q'. rm_slots m key = Some q' \<and> q' \<noteq> q \<longrightarrow> busy m q')"

lemma busy_but_heap:
  assumes "busy_but q m" "rm_slots m' = rm_slots m" "\<And>q'. q' \<noteq> q \<Longrightarrow> rm_heap m' q' = rm_heap m q'"
  shows "busy_but q m'"
  using assms unfolding busy_but_def busy_def by simp

lemma slots_inv_but: "slots_inv lim S \<Longrightarrow> busy_but q (sl_mgr S)"
  by (auto simp: slots_inv_def busy_but_def)

lemma slots_invI:
  assumes "slots_base lim S" "busy_but q (sl_mgr S)" "rm_slots (sl_mgr S) key = Some q \<Longrightarrow> busy (sl_mgr S) q"
    and "\<And>k. rm_slots (sl_mgr S) k = Some q \<Longrightarrow> k = key"
  shows "slots_inv lim S"
  using assms unfolding slots_inv_def busy_but_def by metis

text \<open>Forgetting an idle queue.\<close>

lemma base_drop:
  assumes inv: "slots_base lim S" and q: "rm_slots (sl_mgr S) key = Some q"
    and idle: "sq_held (rm_heap (sl_mgr S) q) \<le> 0" "sq_waiters (rm_heap (sl_mgr S) q) = []"
  shows "slots_base lim (S\<lparr>sl_mgr := (sl_mgr S)\<lparr>rm_slots := (rm_slots (sl_mgr S))(key := None)\<rparr>\<rparr>)" (is "slots_base lim ?S")
proof -
  have ok: "queue_ok lim S key q" by (rule slots_baseD(1) [OF inv q])
  with idle have "granted S q = {}" "waiting S q = {}" by (auto simp: queue_ok_def Let_def)
  then have no: "\<not> mentions (sl_call S c) q" for c unfolding granted_def waiting_def mentions_def by blast
  have "rm_slots (sl_mgr ?S) k = Some q'" if c: "sl_call S c = Holds k q' \<or> sl_call S c = Waits k q'" for c k q'
  proof -
    have k: "rm_slots (sl_mgr S) k = Some q'" using inv c unfolding slots_base_def by blast
    moreover have "mentions (sl_call S c) q'" using c by (auto simp: mentions_def)
    then have "q' \<noteq> q" using no [of c] by auto
    then have "k \<noteq> key" using k q by auto
    with k show ?thesis by simp
  qed
  moreover have "queue_ok lim ?S k q'" if "rm_slots (sl_mgr S) k = Some q'" for k q'
    using slots_baseD(1) [OF inv that] by (simp add: queue_ok_def granted_def waiting_def Let_def)
  ultimately show ?thesis using inv unfolding slots_base_def by simp
qed

lemma inv_drop:
  assumes inv: "slots_base lim S" and q: "rm_slots (sl_mgr S) key = Some q" and others: "busy_but q (sl_mgr S)"
    and full: "sq_waiters (rm_heap (sl_mgr S) q) \<noteq> [] \<longrightarrow> sq_limit (rm_heap (sl_mgr S) q) \<le> sq_held (rm_heap (sl_mgr S) q)"
  shows "slots_inv lim (S\<lparr>sl_mgr := dropIdleLocked key q (sl_mgr S)\<rparr>)"
proof -
  have lim: "0 < sq_limit (rm_heap (sl_mgr S) q)" using slots_baseD(1) [OF inv q] by (simp add: queue_ok_def Let_def)
  have only: "k = key" if "rm_slots (sl_mgr S) k = Some q" for k using slots_baseD(2) [OF inv that q] .
  show ?thesis
  proof (cases "sq_held (rm_heap (sl_mgr S) q) \<le> 0 \<and> sq_waiters (rm_heap (sl_mgr S) q) = []")
    case True
    then have d: "dropIdleLocked key q (sl_mgr S) = (sl_mgr S)\<lparr>rm_slots := (rm_slots (sl_mgr S))(key := None)\<rparr>"
      using q by (simp add: dropIdleLocked_def)
    show ?thesis unfolding d
      by (rule slots_invI [where q = q and key = key], rule base_drop [OF inv q])
        (use True others only in \<open>auto simp: busy_but_def busy_def split: if_splits\<close>)
  next
    case False
    then have d: "dropIdleLocked key q (sl_mgr S) = sl_mgr S" by (auto simp: dropIdleLocked_def)
    have "busy (sl_mgr S) q" using False full lim by (auto simp: busy_def)
    then show ?thesis unfolding d
      by (intro slots_invI [where q = q and key = key]) (use inv others only in simp_all)
  qed
qed

lemma inv_admit_drop:
  assumes inv: "slots_base lim S" and q: "rm_slots (sl_mgr S) key = Some q" and others: "busy_but q (sl_mgr S)"
  shows "slots_inv lim (S\<lparr>sl_mgr := dropIdleLocked key q (admitLocked q (sl_mgr S))\<rparr>)"
proof -
  note a = base_admit [OF inv q]
  have "busy_but q (sl_mgr (S\<lparr>sl_mgr := admitLocked q (sl_mgr S)\<rparr>))"
    by (rule busy_but_heap [OF others a(5,6)])
  from inv_drop [OF a(1) _ this a(2), of key] a(5) q show ?thesis by simp
qed

text \<open>The call \<open>c\<close> gives up queue \<open>q\<close>, whose queue record becomes \<open>sq\<close>.\<close>

lemma base_give_up:
  assumes inv: "slots_base lim S" and q: "rm_slots (sl_mgr S) key = Some q" and c: "mentions (sl_call S c) q"
    and sq: "sq_limit sq = sq_limit (rm_heap (sl_mgr S) q)" "distinct (sq_waiters sq)"
      "set (sq_waiters sq) = waiting S q - {c}" "sq_held sq = int (card (granted S q - {c}))"
  shows "slots_base lim (set_call c Over (set_queue q sq (sl_mgr S)) S)" (is "slots_base lim ?S")
proof (rule slots_base_change [OF inv q])
  have "granted ?S q = granted S q - {c}" "waiting ?S q = waiting S q - {c}"
    by (auto simp: granted_def waiting_def set_call_def set_queue_def)
  moreover have ok: "queue_ok lim S key q" by (rule slots_baseD(1) [OF inv q])
  moreover have "card (granted S q - {c}) \<le> card (granted S q)" by (rule card_Diff1_le)
  ultimately show "queue_ok lim ?S key q"
    using sq by (simp add: queue_ok_def Let_def set_call_def set_queue_def)
  show "rm_slots (sl_mgr S) k = Some q'" if "sl_call ?S x = Holds k q' \<or> sl_call ?S x = Waits k q'" for x k q'
    using that inv unfolding slots_base_def by (auto simp: set_call_def split: if_splits)
  show "sl_call ?S x = sl_call S x \<or> \<not> (\<exists>q'. q' \<noteq> q \<and> (mentions (sl_call S x) q' \<or> mentions (sl_call ?S x) q'))" for x
    using c by (cases "x = c") (auto simp: set_call_def mentions_def)
  show "sl_call ?S x \<noteq> NotCalled" if "x \<in> rm_done (sl_mgr S)" for x
    using slots_baseD(4) [OF inv that] by (simp add: set_call_def)
qed (simp_all add: set_call_def set_queue_def)

lemma inv_give_up_slot:
  assumes inv: "slots_inv lim S" and q: "rm_slots (sl_mgr S) key = Some q" and c: "c \<in> granted S q"
  shows "slots_inv lim (set_call c Over (freeLocked key q (sl_mgr S)) S)"
proof -
  let ?sq = "(rm_heap (sl_mgr S) q)\<lparr>sq_held := sq_held (rm_heap (sl_mgr S) q) - 1\<rparr>"
  let ?S = "set_call c Over (set_queue q ?sq (sl_mgr S)) S"
  have base: "slots_base lim S" using inv by (simp add: slots_inv_def)
  have ok: "queue_ok lim S key q" by (rule slots_baseD(1) [OF base q])
  have m: "mentions (sl_call S c) q" using c unfolding granted_def mentions_def by blast
  have cw: "c \<notin> waiting S q" using c waiting_granted_disjoint by blast
  have pos: "0 < card (granted S q)" using ok c by (auto simp: queue_ok_def Let_def card_gt_0_iff)
  have "slots_base lim ?S"
    by (rule base_give_up [OF base q m]) (use ok c cw pos in \<open>simp_all add: queue_ok_def Let_def of_nat_diff\<close>)
  moreover have "rm_slots (sl_mgr ?S) key = Some q" using q by (simp add: set_call_def set_queue_def)
  moreover have "busy_but q (sl_mgr ?S)"
    by (rule busy_but_heap [OF slots_inv_but [OF inv]]) (simp_all add: set_call_def set_queue_def)
  ultimately have "slots_inv lim (?S\<lparr>sl_mgr := dropIdleLocked key q (admitLocked q (sl_mgr ?S))\<rparr>)"
    by (rule inv_admit_drop)
  then show ?thesis by (simp add: freeLocked_def set_call_def)
qed

lemma inv_leave:
  assumes inv: "slots_inv lim S" and c: "sl_call S c = Waits key q"
  shows "slots_inv lim (set_call c Over (AcquireSlot_leave c key q (sl_mgr S)) S)"
proof -
  have base: "slots_base lim S" using inv by (simp add: slots_inv_def)
  have q: "rm_slots (sl_mgr S) key = Some q" using base c unfolding slots_base_def by blast
  have ok: "queue_ok lim S key q" by (rule slots_baseD(1) [OF base q])
  show ?thesis
  proof (cases "c \<in> rm_done (sl_mgr S)")
    case True
    then have g: "c \<in> granted S q" using c by (auto simp: granted_def)
    then have "c \<notin> set (sq_waiters (rm_heap (sl_mgr S) q))"
      using ok waiting_granted_disjoint by (auto simp: queue_ok_def Let_def)
    then show ?thesis using inv_give_up_slot [OF inv q g] by (simp add: AcquireSlot_leave_def Let_def)
  next
    case False
    let ?w = "rm_heap (sl_mgr S) q"
    let ?sq = "?w\<lparr>sq_waiters := remove1 c (sq_waiters ?w)\<rparr>"
    let ?S = "set_call c Over (set_queue q ?sq (sl_mgr S)) S"
    have w: "c \<in> waiting S q" "c \<notin> granted S q" using c False by (auto simp: waiting_def granted_def)
    have "slots_base lim ?S"
      by (rule base_give_up [OF base q]) (use ok c w in \<open>simp_all add: queue_ok_def Let_def\<close>)
    moreover have "rm_slots (sl_mgr ?S) key = Some q" using q by (simp add: set_call_def set_queue_def)
    moreover have "busy_but q (sl_mgr ?S)"
      by (rule busy_but_heap [OF slots_inv_but [OF inv]]) (simp_all add: set_call_def set_queue_def)
    moreover have b: "busy (sl_mgr S) q" using inv q by (auto simp: slots_inv_def)
    have "sq_waiters (rm_heap (sl_mgr ?S) q) \<noteq> [] \<longrightarrow> sq_limit (rm_heap (sl_mgr ?S) q) \<le> sq_held (rm_heap (sl_mgr ?S) q)"
      using b w ok by (cases "sq_waiters ?w") (auto simp: busy_def set_call_def set_queue_def queue_ok_def Let_def)
    ultimately have "slots_inv lim (?S\<lparr>sl_mgr := dropIdleLocked key q (sl_mgr ?S)\<rparr>)" by (rule inv_drop)
    then show ?thesis using ok w by (simp add: AcquireSlot_leave_def Let_def set_call_def queue_ok_def)
  qed
qed

text \<open>Entering: the queue of the key is found or made, and takes the newest limit.\<close>

lemma mentions_old:
  assumes inv: "slots_base lim S" and c: "mentions (sl_call S c) q"
  shows "\<exists>key. rm_slots (sl_mgr S) key = Some q" "q < rm_nextq (sl_mgr S)"
proof -
  from c inv obtain key where k: "rm_slots (sl_mgr S) key = Some q" unfolding slots_base_def mentions_def by blast
  from slots_baseD(1) [OF inv k] k show "\<exists>key. rm_slots (sl_mgr S) key = Some q" "q < rm_nextq (sl_mgr S)"
    by (auto simp: queue_ok_def Let_def)
qed

lemma base_open_old:
  assumes inv: "slots_base lim S" and q: "rm_slots (sl_mgr S) key = Some q" and l: "0 < limit" "limit \<le> lim key"
  shows "slots_base lim (S\<lparr>sl_mgr := set_queue q ((rm_heap (sl_mgr S) q)\<lparr>sq_limit := limit\<rparr>) (sl_mgr S)\<rparr>)" (is "slots_base lim ?S")
proof (rule slots_base_change [OF inv q])
  have "granted ?S q = granted S q" "waiting ?S q = waiting S q"
    by (auto simp: granted_def waiting_def set_queue_def)
  then show "queue_ok lim ?S key q"
    using slots_baseD(1) [OF inv q] l by (simp add: queue_ok_def Let_def set_queue_def)
  show "rm_slots (sl_mgr S) k = Some q'" if "sl_call ?S x = Holds k q' \<or> sl_call ?S x = Waits k q'" for x k q'
    using that inv unfolding slots_base_def by auto
  show "sl_call ?S x \<noteq> NotCalled" if "x \<in> rm_done (sl_mgr S)" for x using slots_baseD(4) [OF inv that] by simp
qed (simp_all add: set_queue_def)

lemma base_open_new:
  assumes inv: "slots_base lim S" and no: "rm_slots (sl_mgr S) key = None" and l: "0 < limit" "limit \<le> lim key"
    and q: "q = rm_nextq (sl_mgr S)"
  shows "slots_base lim (S\<lparr>sl_mgr := (sl_mgr S)\<lparr>rm_slots := (rm_slots (sl_mgr S))(key \<mapsto> q), rm_nextq := q + 1,
    rm_heap := (rm_heap (sl_mgr S))(q := \<lparr>sq_held = 0, sq_limit = limit, sq_waiters = []\<rparr>)\<rparr>\<rparr>)" (is "slots_base lim ?S")
proof -
  have fresh: "\<not> mentions (sl_call S c) q" for c using mentions_old(2) [OF inv, of c q] q by auto
  have old: "q' < q" if "rm_slots (sl_mgr S) k = Some q'" for k q'
    using slots_baseD(1) [OF inv that] q by (simp add: queue_ok_def Let_def)
  have "granted ?S q = {}" "waiting ?S q = {}" using fresh unfolding granted_def waiting_def mentions_def by auto
  then have new: "queue_ok lim ?S key q" using l by (simp add: queue_ok_def Let_def)
  have A: "queue_ok lim ?S k q'" if k: "rm_slots (sl_mgr ?S) k = Some q'" for k q'
  proof (cases "k = key")
    case True
    with k new show ?thesis by simp
  next
    case False
    with k have k': "rm_slots (sl_mgr S) k = Some q'" by simp
    show ?thesis by (rule queue_ok_other [OF slots_baseD(1) [OF inv k']]) (use old [OF k'] q in simp_all)
  qed
  have B: "k = k'" if k: "rm_slots (sl_mgr ?S) k = Some x \<and> rm_slots (sl_mgr ?S) k' = Some x" for k k' x
    using k slots_baseD(2) [OF inv, of k x k'] old [of k q] old [of k' q] by (auto split: if_splits)
  have C: "rm_slots (sl_mgr ?S) k = Some q'" if c: "sl_call ?S c = Holds k q' \<or> sl_call ?S c = Waits k q'" for c k q'
  proof -
    have "rm_slots (sl_mgr S) k = Some q'" using inv c unfolding slots_base_def by auto
    with no show ?thesis by (cases "k = key") auto
  qed
  have D: "sl_call ?S c \<noteq> NotCalled" if "c \<in> rm_done (sl_mgr ?S)" for c using slots_baseD(4) [OF inv, of c] that by simp
  show ?thesis unfolding slots_base_def by (intro conjI allI impI ballI) (erule A B C D)+
qed

lemma base_open:
  assumes inv: "slots_inv lim S" and e: "slot_queue key (sl_mgr S) = (q, m0)" and l: "0 < limit" "limit \<le> lim key"
  defines "S1 \<equiv> S\<lparr>sl_mgr := set_queue q ((rm_heap m0 q)\<lparr>sq_limit := limit\<rparr>) m0\<rparr>"
  shows "slots_base lim S1" "rm_slots (sl_mgr S1) key = Some q" "busy_but q (sl_mgr S1)"
    "sq_limit (rm_heap (sl_mgr S1) q) = limit" "rm_done (sl_mgr S1) = rm_done (sl_mgr S)"
proof -
  have base: "slots_base lim S" using inv by (simp add: slots_inv_def)
  show "sq_limit (rm_heap (sl_mgr S1) q) = limit" by (simp add: S1_def set_queue_def)
  show "slots_base lim S1"
  proof (cases "rm_slots (sl_mgr S) key")
    case None
    have q: "q = rm_nextq (sl_mgr S)" using e None by (auto simp: slot_queue_def Let_def)
    show ?thesis using base_open_new [OF base None l q] e None
      by (auto simp: S1_def slot_queue_def Let_def set_queue_def)
  next
    case (Some x)
    with base_open_old [OF base Some l] e show ?thesis by (simp add: S1_def slot_queue_def)
  qed
  show "rm_slots (sl_mgr S1) key = Some q" "rm_done (sl_mgr S1) = rm_done (sl_mgr S)"
    using e by (auto simp: S1_def slot_queue_def Let_def set_queue_def split: option.splits)
  show "busy_but q (sl_mgr S1)"
    using slots_inv_but [OF inv, of q] e
    by (auto simp: S1_def slot_queue_def Let_def set_queue_def busy_but_def busy_def split: option.splits if_splits)
qed

text \<open>A new call takes a slot of \<open>q\<close> or waits for one.\<close>

lemma base_join:
  assumes inv: "slots_base lim S" and q: "rm_slots (sl_mgr S) key = Some q" and c: "sl_call S c = NotCalled"
    and x: "x = Holds key q \<or> x = Waits key q"
    and ok: "queue_ok lim (set_call c x (set_queue q sq (sl_mgr S)) S) key q"
  shows "slots_base lim (set_call c x (set_queue q sq (sl_mgr S)) S)" (is "slots_base lim ?S")
proof (rule slots_base_change [OF inv q _ _ _ _ _ _ _ _ ok])
  show "rm_slots (sl_mgr S) k = Some q'" if "sl_call ?S y = Holds k q' \<or> sl_call ?S y = Waits k q'" for y k q'
    using that inv x q unfolding slots_base_def by (auto simp: set_call_def split: if_splits)
  show "sl_call ?S y = sl_call S y \<or> \<not> (\<exists>q'. q' \<noteq> q \<and> (mentions (sl_call S y) q' \<or> mentions (sl_call ?S y) q'))" for y
    using c x by (cases "y = c") (auto simp: set_call_def mentions_def)
  show "sl_call ?S y \<noteq> NotCalled" if "y \<in> rm_done (sl_mgr S)" for y
    using slots_baseD(4) [OF inv that] x by (auto simp: set_call_def)
qed (simp_all add: set_call_def set_queue_def)

lemma inv_take:
  assumes inv: "slots_base lim S" and q: "rm_slots (sl_mgr S) key = Some q" and c: "sl_call S c = NotCalled"
    and others: "busy_but q (sl_mgr S)"
    and free: "sq_held (rm_heap (sl_mgr S) q) < sq_limit (rm_heap (sl_mgr S) q)" "sq_waiters (rm_heap (sl_mgr S) q) = []"
  shows "slots_inv lim (set_call c (Holds key q) (set_queue q
    ((rm_heap (sl_mgr S) q)\<lparr>sq_held := sq_held (rm_heap (sl_mgr S) q) + 1\<rparr>) (sl_mgr S)) S)" (is "slots_inv lim ?S")
proof (rule slots_invI [where q = q and key = key])
  have ok: "queue_ok lim S key q" by (rule slots_baseD(1) [OF inv q])
  have "granted ?S q = insert c (granted S q)" "waiting ?S q = waiting S q"
    using c by (auto simp: granted_def waiting_def set_call_def set_queue_def)
  moreover have "c \<notin> granted S q" using c by (auto simp: granted_def)
  ultimately have "queue_ok lim ?S key q"
    using ok free by (simp add: queue_ok_def Let_def set_call_def set_queue_def)
  then show "slots_base lim ?S" by (intro base_join [OF inv q c]) simp_all
  show "busy_but q (sl_mgr ?S)" by (rule busy_but_heap [OF others]) (simp_all add: set_call_def set_queue_def)
  show "busy (sl_mgr ?S) q" using ok free by (simp add: busy_def set_call_def set_queue_def queue_ok_def Let_def)
  show "k = key" if "rm_slots (sl_mgr ?S) k = Some q" for k
    using slots_baseD(2) [OF inv _ q, of k] that by (simp add: set_call_def set_queue_def)
qed

lemma inv_queue:
  assumes inv: "slots_base lim S" and q: "rm_slots (sl_mgr S) key = Some q" and c: "sl_call S c = NotCalled"
    and others: "busy_but q (sl_mgr S)"
    and full: "sq_limit (rm_heap (sl_mgr S) q) \<le> sq_held (rm_heap (sl_mgr S) q)"
  shows "slots_inv lim (set_call c (Waits key q) (set_queue q
    ((rm_heap (sl_mgr S) q)\<lparr>sq_waiters := sq_waiters (rm_heap (sl_mgr S) q) @ [c]\<rparr>) (sl_mgr S)) S)" (is "slots_inv lim ?S")
proof (rule slots_invI [where q = q and key = key])
  have ok: "queue_ok lim S key q" by (rule slots_baseD(1) [OF inv q])
  have d: "c \<notin> rm_done (sl_mgr S)" using slots_baseD(4) [OF inv] c by blast
  have "granted ?S q = granted S q" "waiting ?S q = insert c (waiting S q)"
    using c d by (auto simp: granted_def waiting_def set_call_def set_queue_def)
  moreover have "c \<notin> waiting S q" using c by (auto simp: waiting_def)
  ultimately have "queue_ok lim ?S key q"
    using ok by (simp add: queue_ok_def Let_def set_call_def set_queue_def)
  then show "slots_base lim ?S" by (intro base_join [OF inv q c]) simp_all
  show "busy_but q (sl_mgr ?S)" by (rule busy_but_heap [OF others]) (simp_all add: set_call_def set_queue_def)
  show "busy (sl_mgr ?S) q" using ok full by (simp add: busy_def set_call_def set_queue_def queue_ok_def Let_def)
  show "k = key" if "rm_slots (sl_mgr ?S) k = Some q" for k
    using slots_baseD(2) [OF inv _ q, of k] that by (simp add: set_call_def set_queue_def)
qed

lemma inv_enter:
  assumes inv: "slots_inv lim S" and c: "sl_call S c = NotCalled" and l: "limit \<le> lim key"
    and e: "AcquireSlot_enter c key limit (sl_mgr S) = (r, m)" and r: "r = SlotTaken q \<and> x = Holds key q \<or> r = SlotQueued q \<and> x = Waits key q"
  shows "slots_inv lim (set_call c x m S)"
proof -
  have g: "\<not> (limit \<le> 0 \<or> key = [])" "\<not> rm_closed (sl_mgr S)" using e r by (auto simp: AcquireSlot_enter_def split: if_splits)
  obtain q' m0 where sq: "slot_queue key (sl_mgr S) = (q', m0)" by (cases "slot_queue key (sl_mgr S)")
  let ?S1 = "S\<lparr>sl_mgr := set_queue q' ((rm_heap m0 q')\<lparr>sq_limit := limit\<rparr>) m0\<rparr>"
  have "0 < limit" using g(1) by simp
  note o = base_open [OF inv sq this l]
  note a = base_admit [OF o(1,2)]
  let ?S2 = "?S1\<lparr>sl_mgr := admitLocked q' (sl_mgr ?S1)\<rparr>"
  have q2: "rm_slots (sl_mgr ?S2) key = Some q'" using a(5) o(2) by simp
  have b2: "busy_but q' (sl_mgr ?S2)" by (rule busy_but_heap [OF o(3) a(5,6)])
  have c2: "sl_call ?S2 c = NotCalled" using c by simp
  let ?h = "rm_heap (sl_mgr ?S2) q'"
  show ?thesis
  proof (cases "sq_held ?h < sq_limit ?h \<and> sq_waiters ?h = []")
    case True
    then have "r = SlotTaken q'" "m = set_queue q' (?h\<lparr>sq_held := sq_held ?h + 1\<rparr>) (sl_mgr ?S2)"
      using e g sq by (simp_all add: AcquireSlot_enter_def Let_def)
    with inv_take [OF a(1) q2 c2 b2 conjunct1 [OF True] conjunct2 [OF True]] r show ?thesis
      by (simp add: set_call_def)
  next
    case False
    then have "r = SlotQueued q'" "m = set_queue q' (?h\<lparr>sq_waiters := sq_waiters ?h @ [c]\<rparr>) (sl_mgr ?S2)"
      using e g sq False by (auto simp: AcquireSlot_enter_def Let_def split: if_splits)
    moreover have "sq_limit ?h \<le> sq_held ?h" using False a(2) by linarith
    note inv_queue [OF a(1) q2 c2 b2 this]
    ultimately show ?thesis using r by (simp add: set_call_def)
  qed
qed

lemma inv_granted:
  assumes inv: "slots_inv lim S" and c: "sl_call S c = Waits key q" "c \<in> rm_done (sl_mgr S)"
  shows "slots_inv lim (set_call c (Holds key q) (sl_mgr S) S)" (is "slots_inv lim ?S")
proof -
  have base: "slots_base lim S" using inv by (simp add: slots_inv_def)
  have q: "rm_slots (sl_mgr S) key = Some q" using base c unfolding slots_base_def by blast
  have "granted ?S q = granted S q" "waiting ?S q = waiting S q"
    using c by (auto simp: granted_def waiting_def set_call_def)
  then have ok: "queue_ok lim ?S key q"
    using slots_baseD(1) [OF base q] by (simp add: queue_ok_def set_call_def)
  have "slots_base lim ?S"
  proof (rule slots_base_change [OF base q _ _ _ _ _ _ _ _ ok])
    show "rm_slots (sl_mgr S) k = Some q'" if "sl_call ?S y = Holds k q' \<or> sl_call ?S y = Waits k q'" for y k q'
      using that base q unfolding slots_base_def by (auto simp: set_call_def split: if_splits)
    show "sl_call ?S y = sl_call S y \<or> \<not> (\<exists>q'. q' \<noteq> q \<and> (mentions (sl_call S y) q' \<or> mentions (sl_call ?S y) q'))" for y
      using c by (cases "y = c") (auto simp: set_call_def mentions_def)
    show "sl_call ?S y \<noteq> NotCalled" if "y \<in> rm_done (sl_mgr S)" for y
      using slots_baseD(4) [OF base that] by (auto simp: set_call_def)
  qed (simp_all add: set_call_def)
  then show ?thesis using inv by (simp add: slots_inv_def set_call_def)
qed

lemma slot_step_inv: "slot_step lim S S' \<Longrightarrow> slots_inv lim S \<Longrightarrow> slots_inv lim S'"
proof (induction rule: slot_step.induct)
  case (Release S c key q)
  have "rm_slots (sl_mgr S) key = Some q" using Release unfolding slots_inv_def slots_base_def by blast
  then show ?case by (rule inv_give_up_slot [OF Release.prems]) (use Release.hyps in \<open>auto simp: granted_def\<close>)
next
  case (Close S)
  let ?S = "S\<lparr>sl_mgr := (sl_mgr S)\<lparr>rm_closed := True\<rparr>\<rparr>"
  have "granted ?S q = granted S q" "waiting ?S q = waiting S q" for q by (simp_all add: granted_def waiting_def)
  then show ?case using Close unfolding slots_inv_def slots_base_def queue_ok_def busy_def by simp
next
  case (Take S c limit key q m)
  then show ?case by (intro inv_enter [where r = "SlotTaken q"]) simp_all
next
  case (Queue S c limit key q m)
  then show ?case by (intro inv_enter [where r = "SlotQueued q"]) simp_all
next
  case (Granted S c key q)
  show ?case by (rule inv_granted [OF Granted(3,1,2)])
next
  case (Leave S c key q)
  show ?case by (rule inv_leave [OF Leave(2,1)])
qed

lemma slots_reach_inv: "slots_reach lim S \<Longrightarrow> slots_inv lim S"
proof (induction rule: slots_reach.induct)
  case slots_init
  show ?case by (simp add: slots_inv_def slots_base_def NewManager_def)
qed (rule slot_step_inv)

text \<open>A reachable state with one holder and one waiter, for the closed instances below.\<close>

definition demo_init :: slots_state where
  "demo_init = \<lparr>sl_mgr = NewManager, sl_call = (\<lambda>_. NotCalled)\<rparr>"

definition demo_held :: slots_state where
  "demo_held = set_call 0 (Holds ''k'' 0) (snd (AcquireSlot_enter 0 ''k'' 1 NewManager)) demo_init"

definition demo_wait :: slots_state where
  "demo_wait = set_call 1 (Waits ''k'' 0) (snd (AcquireSlot_enter 1 ''k'' 1 (sl_mgr demo_held))) demo_held"

lemmas demo_defs = demo_init_def demo_held_def demo_wait_def AcquireSlot_enter_def NewManager_def slot_queue_def admitLocked_def
  set_queue_def set_call_def Let_def

lemma demo_reach: "slots_reach (\<lambda>_. 1) demo_wait"
proof -
  have "slots_reach (\<lambda>_. 1) demo_init" unfolding demo_init_def by (rule slots_init)
  moreover have "slot_step (\<lambda>_. 1) demo_init demo_held"
    unfolding demo_held_def by (rule slot_step.Take [where limit = 1]) (simp_all add: demo_defs)
  moreover have "slot_step (\<lambda>_. 1) demo_held demo_wait"
    unfolding demo_wait_def by (rule slot_step.Queue [where limit = 1]) (simp_all add: demo_defs)
  ultimately show ?thesis by (meson slots_next)
qed

lemma demo_calls:
  "sl_call demo_wait 0 = Holds ''k'' 0" "sl_call demo_wait 1 = Waits ''k'' 0" "1 \<notin> rm_done (sl_mgr demo_wait)"
  by (simp_all add: demo_defs)

section \<open>Properties\<close>

lemma reach_user:
  assumes "slots_reach lim S" "sl_call S c = Holds key q \<or> sl_call S c = Waits key q"
  shows "rm_slots (sl_mgr S) key = Some q" "queue_ok lim S key q" "busy (sl_mgr S) q"
proof -
  have inv: "slots_inv lim S" by (rule slots_reach_inv [OF assms(1)])
  then have base: "slots_base lim S" by (simp add: slots_inv_def)
  show k: "rm_slots (sl_mgr S) key = Some q" using base assms(2) unfolding slots_base_def by blast
  show "queue_ok lim S key q" by (rule slots_baseD(1) [OF base k])
  show "busy (sl_mgr S) q" using inv k by (simp add: slots_inv_def)
qed

text \<open>C8: In every state the run manager can reach, the callers that hold a slot of a key are at most as many as the
  largest limit any caller asked for that key, whatever the order in which callers enter, are handed a slot, give up
  waiting, release, and the manager shuts down.\<close>

theorem slots_bounded:
  assumes "slots_reach lim S" "0 \<le> lim key"
  shows "finite {c. \<exists>q. sl_call S c = Holds key q} \<and> int (card {c. \<exists>q. sl_call S c = Holds key q}) \<le> lim key"
proof -
  let ?H = "{c. \<exists>q. sl_call S c = Holds key q}"
  show ?thesis
  proof (cases "?H = {}")
    case False
    then obtain c q where c: "sl_call S c = Holds key q" by blast
    note u = reach_user [OF assms(1) disjI1 [OF c]]
    have "q' = q" if "sl_call S c' = Holds key q'" for c' q'
      using reach_user(1) [OF assms(1) disjI1 [OF that]] u(1) by simp
    then have sub: "?H \<subseteq> granted S q" unfolding granted_def by blast
    have fin: "finite (granted S q)" and le: "int (card (granted S q)) \<le> lim key"
      using u(2) by (simp_all add: queue_ok_def Let_def)
    show ?thesis using finite_subset [OF sub fin] card_mono [OF fin sub] le by linarith
  qed (use assms(2) in simp)
qed

theorem slots_bounded_witness:
  "slots_reach (\<lambda>_. 1) demo_wait \<and> (0::int) \<le> 1 \<and> int (card {c. \<exists>q. sl_call demo_wait c = Holds ''k'' q}) \<le> 1"
  using demo_reach slots_bounded [OF demo_reach, of "''k''"] by simp

text \<open>A caller waits only while the slots are taken: when a call that was not handed a slot waits in a queue, at
  least as many calls as the queue's newest limit hold one of its slots or were handed one, and that limit is
  positive.\<close>

theorem slot_wait_needs_full:
  assumes "slots_reach lim S" "sl_call S c = Waits key q" "c \<notin> rm_done (sl_mgr S)"
  shows "0 < sq_limit (rm_heap (sl_mgr S) q) \<and> sq_limit (rm_heap (sl_mgr S) q) \<le> int (card (granted S q))"
proof -
  note u = reach_user [OF assms(1) disjI2 [OF assms(2)]]
  have "c \<in> waiting S q" using assms(2,3) by (auto simp: waiting_def)
  then show ?thesis
    using u(2,3) by (auto simp: queue_ok_def busy_def Let_def)
qed

theorem slot_wait_needs_full_witness:
  "slots_reach (\<lambda>_. 1) demo_wait \<and> sl_call demo_wait 1 = Waits ''k'' 0
   \<and> sq_limit (rm_heap (sl_mgr demo_wait) 0) \<le> int (card (granted demo_wait 0))"
  using demo_reach demo_calls slot_wait_needs_full [OF demo_reach demo_calls(2,3)] by simp

text \<open>The map of queues does not leak: it has an entry for a key exactly while some call holds or waits for a slot
  of that key.\<close>

theorem slots_no_leak:
  assumes "slots_reach lim S"
  shows "rm_slots (sl_mgr S) key \<noteq> None \<longleftrightarrow> (\<exists>c q. sl_call S c = Holds key q \<or> sl_call S c = Waits key q)"
proof
  assume "rm_slots (sl_mgr S) key \<noteq> None"
  then obtain q where k: "rm_slots (sl_mgr S) key = Some q" by blast
  have inv: "slots_inv lim S" by (rule slots_reach_inv [OF assms])
  then have base: "slots_base lim S" and b: "busy (sl_mgr S) q" using k by (simp_all add: slots_inv_def)
  from slots_baseD(1) [OF base k] b have "granted S q \<noteq> {}" by (auto simp: queue_ok_def Let_def busy_def)
  then obtain c where "mentions (sl_call S c) q" unfolding granted_def mentions_def by blast
  from slots_baseD(3) [OF base this k] show "\<exists>c q. sl_call S c = Holds key q \<or> sl_call S c = Waits key q" by blast
next
  assume "\<exists>c q. sl_call S c = Holds key q \<or> sl_call S c = Waits key q"
  then show "rm_slots (sl_mgr S) key \<noteq> None"
    using slots_reach_inv [OF assms] unfolding slots_inv_def slots_base_def by blast
qed

theorem slots_no_leak_witness: "slots_reach (\<lambda>_. 1) demo_wait \<and> rm_slots (sl_mgr demo_wait) ''k'' \<noteq> None"
  using demo_reach slots_no_leak [OF demo_reach, of "''k''"] demo_calls by blast

text \<open>Serving a queue: handed-over calls wake up, and holders release. Nobody gives up.\<close>

inductive serve_step :: "nat \<Rightarrow> slots_state \<Rightarrow> slots_state \<Rightarrow> bool" for q where
  "sl_call S c = Waits key q \<Longrightarrow> c \<in> rm_done (sl_mgr S) \<Longrightarrow> serve_step q S (set_call c (Holds key q) (sl_mgr S) S)"
| "sl_call S c = Holds key q \<Longrightarrow> serve_step q S (set_call c Over (freeLocked key q (sl_mgr S)) S)"

lemma serve_slot_step: "serve_step q S S' \<Longrightarrow> slot_step lim S S'"
  by (induction rule: serve_step.induct) (auto intro: slot_step.intros)

lemma serve_release:
  assumes c: "c \<in> granted S q"
  obtains S' where "(serve_step q)\<^sup>*\<^sup>* S S'" "sl_call S' = (sl_call S)(c := Over)"
proof -
  from c obtain key where "sl_call S c = Holds key q \<or> sl_call S c = Waits key q \<and> c \<in> rm_done (sl_mgr S)"
    unfolding granted_def by blast
  then show ?thesis
  proof
    assume "sl_call S c = Holds key q"
    then have "serve_step q S (set_call c Over (freeLocked key q (sl_mgr S)) S)" by (rule serve_step.intros)
    then show ?thesis by (intro that [OF r_into_rtranclp]) (auto simp: set_call_def)
  next
    assume w: "sl_call S c = Waits key q \<and> c \<in> rm_done (sl_mgr S)"
    let ?S = "set_call c (Holds key q) (sl_mgr S) S"
    have 1: "serve_step q S ?S" using w by (intro serve_step.intros) auto
    have "sl_call ?S c = Holds key q" by (simp add: set_call_def)
    then have 2: "serve_step q ?S (set_call c Over (freeLocked key q (sl_mgr ?S)) ?S)" by (rule serve_step.intros)
    show ?thesis
      by (rule that [OF rtranclp_trans [OF r_into_rtranclp [of "serve_step q", OF 1] r_into_rtranclp [of "serve_step q", OF 2]]])
        (simp add: set_call_def)
  qed
qed

lemma serve_reach: "(serve_step q)\<^sup>*\<^sup>* S S' \<Longrightarrow> slots_reach lim S \<Longrightarrow> slots_reach lim S'"
  by (induction rule: rtranclp_induct) (auto intro: slots_next serve_slot_step)

text \<open>From every reachable state in which a call waits, letting the calls of its queue that hold a slot release it, and
  those handed one take and release it, gives the waiting call its slot.\<close>

lemma waiter_can_be_served:
  assumes "slots_reach lim S" "sl_call S c = Waits key q"
  shows "\<exists>S'. (serve_step q)\<^sup>*\<^sup>* S S' \<and> sl_call S' c = Holds key q"
  using assms
proof (induction "card {x. mentions (sl_call S x) q}" arbitrary: S rule: less_induct)
  case less
  show ?case
  proof (cases "c \<in> rm_done (sl_mgr S)")
    case True
    have "serve_step q S (set_call c (Holds key q) (sl_mgr S) S)" by (rule serve_step.intros(1) [OF less.prems(2) True])
    then show ?thesis by (intro exI [of _ "set_call c (Holds key q) (sl_mgr S) S"]) (auto simp: set_call_def)
  next
    case False
    note u = reach_user [OF less.prems(1) disjI2 [OF less.prems(2)]]
    have "set (sq_waiters (rm_heap (sl_mgr S) q)) = waiting S q" using u(2) by (simp add: queue_ok_def Let_def)
    then have fw: "finite (waiting S q)" by (metis List.finite_set)
    have fg: "finite (granted S q)" and "granted S q \<noteq> {}" using u(2,3) by (auto simp: queue_ok_def Let_def busy_def)
    then obtain d where d: "d \<in> granted S q" by blast
    then have dc: "d \<noteq> c" using False less.prems(2) by (auto simp: granted_def)
    have dm: "mentions (sl_call S d) q" using d unfolding granted_def mentions_def by blast
    from serve_release [OF d] obtain S1 where S1: "(serve_step q)\<^sup>*\<^sup>* S S1" "sl_call S1 = (sl_call S)(d := Over)" .
    have "{x. mentions (sl_call S x) q} \<subseteq> granted S q \<union> waiting S q" by (auto simp: mentions_def granted_def waiting_def)
    then have "finite {x. mentions (sl_call S x) q}" using finite_subset [OF _ finite_UnI [OF fg fw]] by blast
    moreover have "{x. mentions (sl_call S1 x) q} \<subset> {x. mentions (sl_call S x) q}" using S1(2) dm by auto
    ultimately have lt: "card {x. mentions (sl_call S1 x) q} < card {x. mentions (sl_call S x) q}" by (rule psubset_card_mono)
    have "sl_call S1 c = Waits key q" using S1(2) dc less.prems(2) by simp
    from less.hyps [OF lt serve_reach [OF S1(1) less.prems(1)] this] obtain S2 where
      "(serve_step q)\<^sup>*\<^sup>* S1 S2" "sl_call S2 c = Holds key q" by blast
    then show ?thesis using S1(1) by (meson rtranclp_trans)
  qed
qed

end
