(* ===== verification/Runs_Keys.thy ===== *)
theory Runs_Keys
  imports Runs_Slots
begin

text \<open>
  The keys of the run manager, \<open>src/internal/runs/runs.go\<close> and \<open>critical.go\<close>: operations that hold a key alone
  (\<open>Acquire\<close>, \<open>Go\<close>), operations that share one (\<open>AcquireShared\<close>), the critical steps a shutdown waits for, and the
  states in which nothing new starts. Every critical section of the manager is one function; \<open>key_step\<close>
  interleaves the calls. The goroutine of \<open>Go\<close> ends in two critical sections: it frees its key, then it leaves the
  count of started operations. What \<open>admit\<close> answers is an argument (\<open>None\<close> when no check is installed).
\<close>

section \<open>Operations\<close>

definition BackupKey :: "string \<Rightarrow> string \<Rightarrow> string" where
  "BackupKey connectionID database = ''backup:'' @ connectionID @ ''/'' @ database"

definition PITRBaseKey :: "string \<Rightarrow> string" where
  "PITRBaseKey connectionID = ''pitr-base:'' @ connectionID"

definition PITRDeletionKey :: "string \<Rightarrow> string" where
  "PITRDeletionKey streamID = ''pitr:'' @ streamID"

definition RestoreKey :: "string \<Rightarrow> string \<Rightarrow> string" where
  "RestoreKey connectionID database = ''restore:'' @ connectionID @ ''/'' @ database"

definition InstanceKey :: "string \<Rightarrow> string" where
  "InstanceKey connectionID = ''instance:'' @ connectionID"

definition run_has_prefix :: "string \<Rightarrow> string \<Rightarrow> bool" where
  "run_has_prefix s p \<longleftrightarrow> take (length p) s = p"

definition isRunKey :: "string \<Rightarrow> bool" where
  "isRunKey key \<longleftrightarrow> run_has_prefix key ''backup:'' \<or> run_has_prefix key ''restore:'' \<or> run_has_prefix key ''pitr-base:''"

definition checkAdmissionLocked :: "run_error option option \<Rightarrow> string \<Rightarrow> run_error option" where
  "checkAdmissionLocked admit key = (case admit of None \<Rightarrow> None | Some r \<Rightarrow> if isRunKey key then r else None)"

definition reserveLocked :: "string \<Rightarrow> RunManager \<Rightarrow> run_error + RunManager" where
  "reserveLocked key m =
     (if key = [] then Ok m
      else if key \<in> rm_active m \<or> 0 < rm_shared m key then Err (ErrBusy key)
      else Ok (m\<lparr>rm_active := insert key (rm_active m)\<rparr>))"

definition run_Acquire :: "run_error option option \<Rightarrow> string \<Rightarrow> RunManager \<Rightarrow> run_error + RunManager" where
  "run_Acquire admit key m =
     (if rm_closed m \<or> rm_refusing m then Err ErrShuttingDown
      else case checkAdmissionLocked admit key of Some e \<Rightarrow> Err e | None \<Rightarrow> reserveLocked key m)"

definition run_Go :: "run_error option option \<Rightarrow> string \<Rightarrow> RunManager \<Rightarrow> run_error + RunManager" where
  "run_Go admit key m =
     (if rm_closed m \<or> rm_refusing m then Err ErrShuttingDown
      else case checkAdmissionLocked admit key of Some e \<Rightarrow> Err e
      | None \<Rightarrow> (case reserveLocked key m of Inl e \<Rightarrow> Err e | Inr m' \<Rightarrow> Ok (m'\<lparr>rm_started := rm_started m' + 1\<rparr>)))"

definition releaseFunc :: "string \<Rightarrow> RunManager \<Rightarrow> RunManager" where
  "releaseFunc key m = (if key = [] then m else m\<lparr>rm_active := rm_active m - {key}\<rparr>)"

definition Go_returned :: "RunManager \<Rightarrow> RunManager" where
  "Go_returned m = m\<lparr>rm_started := rm_started m - 1\<rparr>"

definition AcquireShared :: "string \<Rightarrow> RunManager \<Rightarrow> run_error + RunManager" where
  "AcquireShared key m =
     (if rm_closed m \<or> rm_refusing m then Err ErrShuttingDown
      else if key \<in> rm_active m then Err (ErrBusy key)
      else Ok (m\<lparr>rm_shared := (rm_shared m)(key := rm_shared m key + 1)\<rparr>))"

definition releaseShared :: "string \<Rightarrow> RunManager \<Rightarrow> RunManager" where
  "releaseShared key m =
     (let n = rm_shared m key - 1 in m\<lparr>rm_shared := (rm_shared m)(key := (if n \<le> 0 then 0 else n))\<rparr>)"

definition run_Refuse :: "RunManager \<Rightarrow> RunManager" where "run_Refuse m = m\<lparr>rm_refusing := True\<rparr>"
definition run_Accept :: "RunManager \<Rightarrow> RunManager" where "run_Accept m = m\<lparr>rm_refusing := False\<rparr>"
definition run_Shutdown :: "RunManager \<Rightarrow> RunManager" where "run_Shutdown m = m\<lparr>rm_closed := True\<rparr>"

definition Running :: "string \<Rightarrow> RunManager \<Rightarrow> bool" where
  "Running key m \<longleftrightarrow> key \<in> rm_active m"

definition run_Idle :: "RunManager \<Rightarrow> bool" where
  "run_Idle m \<longleftrightarrow> rm_active m = {} \<and> rm_started m = 0"

definition run_Active :: "RunManager \<Rightarrow> string list" where
  "run_Active m = sorted_list_of_set (rm_active m)"

definition Critical_begin :: "RunManager \<Rightarrow> RunManager" where
  "Critical_begin m = m\<lparr>rm_critical := rm_critical m + 1\<rparr>"

definition Critical_end :: "RunManager \<Rightarrow> RunManager" where
  "Critical_end m = m\<lparr>rm_critical := rm_critical m - 1\<rparr>"

definition CriticalCount :: "RunManager \<Rightarrow> int" where
  "CriticalCount m = rm_critical m"

section \<open>Calls\<close>

text \<open>A call holds a key alone from outside (\<open>Acquire\<close>) or in a goroutine, whose key may be freed before it leaves
  the count of started operations; or it shares a key; or it is a critical step.\<close>

datatype key_call = KNone | KHolds string | KRuns string | KReleased | KShares string | KCritical | KOver

record keys_state =
  ks_mgr :: RunManager
  ks_call :: "nat \<Rightarrow> key_call"

definition set_kcall :: "nat \<Rightarrow> key_call \<Rightarrow> RunManager \<Rightarrow> keys_state \<Rightarrow> keys_state" where
  "set_kcall c x m S = S\<lparr>ks_call := (ks_call S)(c := x), ks_mgr := m\<rparr>"

inductive key_step :: "keys_state \<Rightarrow> keys_state \<Rightarrow> bool" where
  KAcquire: "ks_call S c = KNone \<Longrightarrow> run_Acquire admit key (ks_mgr S) = Ok m \<Longrightarrow> key_step S (set_kcall c (KHolds key) m S)"
| KGo: "ks_call S c = KNone \<Longrightarrow> run_Go admit key (ks_mgr S) = Ok m \<Longrightarrow> key_step S (set_kcall c (KRuns key) m S)"
| KShare: "ks_call S c = KNone \<Longrightarrow> AcquireShared key (ks_mgr S) = Ok m \<Longrightarrow> key_step S (set_kcall c (KShares key) m S)"
| KRelease: "ks_call S c = KHolds key \<Longrightarrow> key_step S (set_kcall c KOver (releaseFunc key (ks_mgr S)) S)"
| KReturn: "ks_call S c = KRuns key \<Longrightarrow> key_step S (set_kcall c KReleased (releaseFunc key (ks_mgr S)) S)"
| KReturned: "ks_call S c = KReleased \<Longrightarrow> key_step S (set_kcall c KOver (Go_returned (ks_mgr S)) S)"
| KUnshare: "ks_call S c = KShares key \<Longrightarrow> key_step S (set_kcall c KOver (releaseShared key (ks_mgr S)) S)"
| KBegin: "ks_call S c = KNone \<Longrightarrow> key_step S (set_kcall c KCritical (Critical_begin (ks_mgr S)) S)"
| KEnd: "ks_call S c = KCritical \<Longrightarrow> key_step S (set_kcall c KOver (Critical_end (ks_mgr S)) S)"
| KRefuse: "key_step S (S\<lparr>ks_mgr := run_Refuse (ks_mgr S)\<rparr>)"
| KAccept: "key_step S (S\<lparr>ks_mgr := run_Accept (ks_mgr S)\<rparr>)"
| KShutdown: "key_step S (S\<lparr>ks_mgr := run_Shutdown (ks_mgr S)\<rparr>)"

inductive keys_reach :: "keys_state \<Rightarrow> bool" where
  keys_init: "keys_reach \<lparr>ks_mgr = NewManager, ks_call = (\<lambda>_. KNone)\<rparr>"
| keys_next: "keys_reach S \<Longrightarrow> key_step S S' \<Longrightarrow> keys_reach S'"

section \<open>Invariant\<close>

definition owns :: "key_call \<Rightarrow> string \<Rightarrow> bool" where
  "owns x key \<longleftrightarrow> key \<noteq> [] \<and> (x = KHolds key \<or> x = KRuns key)"

definition in_flight :: "key_call \<Rightarrow> bool" where
  "in_flight x \<longleftrightarrow> x = KReleased \<or> (\<exists>key. x = KRuns key)"

text \<open>A counter of the manager is the number of calls in the states it counts.\<close>

definition counts :: "(nat \<Rightarrow> key_call) \<Rightarrow> (key_call \<Rightarrow> bool) \<Rightarrow> int \<Rightarrow> bool" where
  "counts f P n \<longleftrightarrow> finite {c. P (f c)} \<and> n = int (card {c. P (f c)})"

text \<open>The active keys are those some call owns; a key has one owner, and then no call shares it.\<close>

definition own_ok :: "string set \<Rightarrow> (nat \<Rightarrow> key_call) \<Rightarrow> bool" where
  "own_ok A f \<longleftrightarrow> (\<forall>key. key \<in> A \<longleftrightarrow> (\<exists>c. owns (f c) key))
     \<and> (\<forall>key c c'. owns (f c) key \<and> owns (f c') key \<longrightarrow> c = c')
     \<and> (\<forall>key c c'. owns (f c) key \<longrightarrow> f c' \<noteq> KShares key)"

definition keys_inv :: "keys_state \<Rightarrow> bool" where
  "keys_inv S \<longleftrightarrow> own_ok (rm_active (ks_mgr S)) (ks_call S)
     \<and> (\<forall>key. counts (ks_call S) (\<lambda>x. x = KShares key) (rm_shared (ks_mgr S) key))
     \<and> counts (ks_call S) in_flight (rm_started (ks_mgr S))
     \<and> counts (ks_call S) (\<lambda>x. x = KCritical) (rm_critical (ks_mgr S))"

lemma owns_simps [simp]:
  "owns (KHolds k) key \<longleftrightarrow> k = key \<and> key \<noteq> []" "owns (KRuns k) key \<longleftrightarrow> k = key \<and> key \<noteq> []"
  "\<not> owns KNone key" "\<not> owns KReleased key" "\<not> owns (KShares k) key" "\<not> owns KCritical key" "\<not> owns KOver key"
  by (auto simp: owns_def)

lemma in_flight_simps [simp]:
  "in_flight (KRuns k)" "in_flight KReleased" "\<not> in_flight KNone" "\<not> in_flight (KHolds k)" "\<not> in_flight (KShares k)"
  "\<not> in_flight KCritical" "\<not> in_flight KOver"
  by (auto simp: in_flight_def)

lemma counts_enter:
  assumes "counts f P n" "\<not> P (f c)" "P x"
  shows "counts (f(c := x)) P (n + 1)"
proof -
  have "{y. P ((f(c := x)) y)} = insert c {y. P (f y)}" using assms(3) by auto
  then show ?thesis using assms(1,2) by (simp add: counts_def)
qed

lemma counts_leave:
  assumes "counts f P n" "P (f c)" "\<not> P x"
  shows "counts (f(c := x)) P (n - 1)"
proof -
  have "{y. P ((f(c := x)) y)} = {y. P (f y)} - {c}" using assms(3) by auto
  moreover have "0 < card {y. P (f y)}" using assms(1,2) by (auto simp: counts_def card_gt_0_iff)
  ultimately show ?thesis using assms(1,2) by (simp add: counts_def of_nat_diff)
qed

lemma counts_keep:
  assumes "counts f P n" "P x = P (f c)"
  shows "counts (f(c := x)) P n"
proof -
  have "{y. P ((f(c := x)) y)} = {y. P (f y)}" using assms(2) by auto
  then show ?thesis using assms(1) by (simp add: counts_def)
qed

lemma counts_pos: "counts f P n \<Longrightarrow> P (f c) \<Longrightarrow> 0 < n"
  by (auto simp: counts_def card_gt_0_iff)

lemma counts_zero: "counts f P n \<Longrightarrow> n = 0 \<longleftrightarrow> (\<forall>c. \<not> P (f c))"
  by (auto simp: counts_def)

lemma counts_nonneg: "counts f P n \<Longrightarrow> 0 \<le> n"
  by (simp add: counts_def)

lemma own_enter:
  assumes ok: "own_ok A f" and old: "f c = KNone" and x: "\<forall>k. owns x k \<longleftrightarrow> k = key" and free: "key \<notin> A" "\<forall>c'. f c' \<noteq> KShares key"
  shows "own_ok (insert key A) (f(c := x))"
proof -
  have "owns x key" using x by simp
  then have sh: "x \<noteq> KShares k" for k by auto
  have upd: "owns ((f(c := x)) c') k \<longleftrightarrow> (if c' = c then k = key else owns (f c') k)" for c' k using x by simp
  have other: "c' \<noteq> c" if "owns (f c') k" for c' k using that old by auto
  have act: "(\<exists>c'. owns ((f(c := x)) c') k) \<longleftrightarrow> k = key \<or> (\<exists>c'. owns (f c') k)" for k
    unfolding upd using other [of _ k] by (auto split: if_splits)
  have none: "\<not> owns (f c') key" for c' using ok free(1) unfolding own_ok_def by blast
  show ?thesis unfolding own_ok_def
  proof (intro conjI allI impI)
    show "k \<in> insert key A \<longleftrightarrow> (\<exists>c'. owns ((f(c := x)) c') k)" for k
      using act [of k] ok unfolding own_ok_def by blast
    show "d = d'" if "owns ((f(c := x)) d) k \<and> owns ((f(c := x)) d') k" for k d d'
      using that x none ok unfolding own_ok_def by (cases "d = c"; cases "d' = c") auto
    show "(f(c := x)) d' \<noteq> KShares k" if "owns ((f(c := x)) d) k" for k d d'
      using that x free(2) sh ok unfolding own_ok_def by (cases "d = c"; cases "d' = c") auto
  qed
qed

lemma own_leave:
  assumes ok: "own_ok A f" and old: "owns (f c) key" and x: "\<forall>k. \<not> owns x k \<and> x \<noteq> KShares k"
  shows "own_ok (A - {key}) (f(c := x))"
proof -
  have one: "k = key" if "owns (f c) k" for k using that old by (auto simp: owns_def)
  show ?thesis unfolding own_ok_def
  proof (intro conjI allI impI)
    show "k \<in> A - {key} \<longleftrightarrow> (\<exists>c'. owns ((f(c := x)) c') k)" for k
    proof -
      have "(\<exists>c'. owns ((f(c := x)) c') k) \<longleftrightarrow> (\<exists>c'. c' \<noteq> c \<and> owns (f c') k)" using x by auto
      also have "\<dots> \<longleftrightarrow> k \<in> A \<and> k \<noteq> key" using ok old one unfolding own_ok_def by metis
      finally show ?thesis by auto
    qed
    show "d = d'" if "owns ((f(c := x)) d) k \<and> owns ((f(c := x)) d') k" for k d d'
      using that x ok unfolding own_ok_def by (cases "d = c"; cases "d' = c") auto
    show "(f(c := x)) d' \<noteq> KShares k" if "owns ((f(c := x)) d) k" for k d d'
      using that x ok unfolding own_ok_def by (cases "d = c"; cases "d' = c") auto
  qed
qed

lemma own_keep:
  assumes ok: "own_ok A f" and same: "\<forall>k. \<not> owns (f c) k \<and> \<not> owns x k" and x: "\<forall>k. x = KShares k \<longrightarrow> k \<notin> A"
  shows "own_ok A (f(c := x))"
  unfolding own_ok_def
proof (intro conjI allI impI)
  show "k \<in> A \<longleftrightarrow> (\<exists>c'. owns ((f(c := x)) c') k)" for k
  proof -
    have "(\<exists>c'. owns ((f(c := x)) c') k) \<longleftrightarrow> (\<exists>c'. owns (f c') k)" using same by (metis fun_upd_apply)
    then show ?thesis using ok unfolding own_ok_def by blast
  qed
  show "d = d'" if "owns ((f(c := x)) d) k \<and> owns ((f(c := x)) d') k" for k d d'
    using that same ok unfolding own_ok_def by (cases "d = c"; cases "d' = c") auto
  show "(f(c := x)) d' \<noteq> KShares k" if "owns ((f(c := x)) d) k" for k d d'
  proof -
    have d: "owns (f d) k" using that same by (cases "d = c") auto
    then have "k \<in> A" "f d' \<noteq> KShares k" using ok unfolding own_ok_def by blast+
    then show ?thesis using x by auto
  qed
qed

section \<open>Preservation\<close>

lemma keys_invD:
  assumes "keys_inv S"
  shows "own_ok (rm_active (ks_mgr S)) (ks_call S)"
    "counts (ks_call S) (\<lambda>x. x = KShares key) (rm_shared (ks_mgr S) key)"
    "counts (ks_call S) in_flight (rm_started (ks_mgr S))"
    "counts (ks_call S) (\<lambda>x. x = KCritical) (rm_critical (ks_mgr S))"
  using assms by (simp_all add: keys_inv_def)

lemma keys_invI:
  assumes "own_ok (rm_active m) ((ks_call S)(c := x))"
    and "\<And>key. counts ((ks_call S)(c := x)) (\<lambda>x. x = KShares key) (rm_shared m key)"
    and "counts ((ks_call S)(c := x)) in_flight (rm_started m)"
    and "counts ((ks_call S)(c := x)) (\<lambda>x. x = KCritical) (rm_critical m)"
  shows "keys_inv (set_kcall c x m S)"
  using assms by (simp add: keys_inv_def set_kcall_def)

lemma reserveLocked_OkD:
  "reserveLocked key m = Ok m' \<Longrightarrow>
   key = [] \<and> m' = m \<or> key \<noteq> [] \<and> key \<notin> rm_active m \<and> rm_shared m key \<le> 0 \<and> m' = m\<lparr>rm_active := insert key (rm_active m)\<rparr>"
  by (auto simp: reserveLocked_def split: if_splits)

lemma inv_reserve:
  assumes inv: "keys_inv S" and c: "ks_call S c = KNone" and r: "reserveLocked key (ks_mgr S) = Ok m"
    and x: "x = KHolds key \<or> x = KRuns key"
  shows "own_ok (rm_active m) ((ks_call S)(c := x))" "rm_shared m = rm_shared (ks_mgr S)"
    "rm_started m = rm_started (ks_mgr S)" "rm_critical m = rm_critical (ks_mgr S)"
proof -
  note ok = keys_invD [OF inv]
  from reserveLocked_OkD [OF r] show "own_ok (rm_active m) ((ks_call S)(c := x))"
  proof
    assume "key = [] \<and> m = ks_mgr S"
    then show ?thesis using x c by (intro own_keep) (auto simp: ok(1))
  next
    assume k: "key \<noteq> [] \<and> key \<notin> rm_active (ks_mgr S) \<and> rm_shared (ks_mgr S) key \<le> 0
      \<and> m = (ks_mgr S)\<lparr>rm_active := insert key (rm_active (ks_mgr S))\<rparr>"
    have "rm_shared (ks_mgr S) key = 0" using k counts_nonneg [OF ok(2) [of key]] by simp
    then have "\<forall>c'. ks_call S c' \<noteq> KShares key" using counts_zero [OF ok(2) [of key]] by simp
    then show ?thesis using k x c by (auto intro!: own_enter [OF ok(1)])
  qed
  show "rm_shared m = rm_shared (ks_mgr S)" "rm_started m = rm_started (ks_mgr S)" "rm_critical m = rm_critical (ks_mgr S)"
    using reserveLocked_OkD [OF r] by auto
qed

lemma own_release:
  assumes inv: "keys_inv S" and c: "ks_call S c = KHolds key \<or> ks_call S c = KRuns key" and x: "x = KReleased \<or> x = KOver"
  shows "own_ok (rm_active (releaseFunc key (ks_mgr S))) ((ks_call S)(c := x))"
proof (cases "key = []")
  case True
  then show ?thesis using c x by (auto simp: releaseFunc_def intro!: own_keep [OF keys_invD(1) [OF inv]])
next
  case False
  then have "owns (ks_call S c) key" using c by auto
  from own_leave [OF keys_invD(1) [OF inv] this, of x] x False show ?thesis by (auto simp: releaseFunc_def)
qed

lemma release_other [simp]:
  "rm_shared (releaseFunc key m) = rm_shared m" "rm_started (releaseFunc key m) = rm_started m"
  "rm_critical (releaseFunc key m) = rm_critical m"
  by (simp_all add: releaseFunc_def)

lemma run_Acquire_OkD: "run_Acquire admit key m = Ok m' \<Longrightarrow> \<not> rm_closed m \<and> \<not> rm_refusing m \<and> reserveLocked key m = Ok m'"
  by (auto simp: run_Acquire_def split: if_splits option.splits)

lemma run_Go_OkD:
  "run_Go admit key m = Ok m' \<Longrightarrow>
   \<not> rm_closed m \<and> \<not> rm_refusing m \<and> (\<exists>m1. reserveLocked key m = Ok m1 \<and> m' = m1\<lparr>rm_started := rm_started m1 + 1\<rparr>)"
  by (auto simp: run_Go_def split: if_splits option.splits sum.splits)

lemma AcquireShared_OkD:
  "AcquireShared key m = Ok m' \<Longrightarrow> \<not> rm_closed m \<and> \<not> rm_refusing m \<and> key \<notin> rm_active m
   \<and> m' = m\<lparr>rm_shared := (rm_shared m)(key := rm_shared m key + 1)\<rparr>"
  by (auto simp: AcquireShared_def split: if_splits)

lemma key_step_inv: "key_step S S' \<Longrightarrow> keys_inv S \<Longrightarrow> keys_inv S'"
proof (induction rule: key_step.induct)
  case (KAcquire S c admit key m)
  note ok = keys_invD [OF KAcquire.prems]
  have r: "reserveLocked key (ks_mgr S) = Ok m" using run_Acquire_OkD [OF KAcquire.hyps(2)] by blast
  note v = inv_reserve [OF KAcquire.prems KAcquire.hyps(1) r disjI1 [OF refl]]
  show ?case
    by (rule keys_invI) (use v ok KAcquire.hyps(1) in \<open>simp_all add: counts_keep\<close>)
next
  case (KGo S c admit key m)
  note ok = keys_invD [OF KGo.prems]
  from run_Go_OkD [OF KGo.hyps(2)] obtain m1 where
    r: "reserveLocked key (ks_mgr S) = Ok m1" and m: "m = m1\<lparr>rm_started := rm_started m1 + 1\<rparr>" by blast
  note v = inv_reserve [OF KGo.prems KGo.hyps(1) r disjI2 [OF refl]]
  show ?case
    by (rule keys_invI) (use v ok m KGo.hyps(1) in \<open>simp_all add: counts_keep counts_enter\<close>)
next
  case (KShare S c key m)
  note ok = keys_invD [OF KShare.prems]
  note m = AcquireShared_OkD [OF KShare.hyps(2)]
  show ?case
  proof (rule keys_invI)
    show "own_ok (rm_active m) ((ks_call S)(c := KShares key))"
      using m KShare.hyps(1) by (auto intro!: own_keep ok(1))
    show "counts ((ks_call S)(c := KShares key)) (\<lambda>x. x = KShares k) (rm_shared m k)" for k
      using m ok(2) KShare.hyps(1) by (cases "k = key") (simp_all add: counts_keep counts_enter)
  qed (use m ok KShare.hyps(1) in \<open>simp_all add: counts_keep\<close>)
next
  case (KRelease S c key)
  note ok = keys_invD [OF KRelease.prems]
  show ?case
    by (rule keys_invI) (use ok KRelease.hyps own_release [OF KRelease.prems disjI1 [OF KRelease.hyps] disjI2 [OF refl]]
      in \<open>simp_all add: counts_keep\<close>)
next
  case (KReturn S c key)
  note ok = keys_invD [OF KReturn.prems]
  show ?case
    by (rule keys_invI) (use ok KReturn.hyps own_release [OF KReturn.prems disjI2 [OF KReturn.hyps] disjI1 [OF refl]]
      in \<open>simp_all add: counts_keep\<close>)
next
  case (KReturned S c)
  note ok = keys_invD [OF KReturned.prems]
  show ?case
    by (rule keys_invI) (use ok KReturned.hyps in \<open>simp_all add: Go_returned_def counts_keep counts_leave own_keep\<close>)
next
  case (KUnshare S c key)
  note ok = keys_invD [OF KUnshare.prems]
  have pos: "0 < rm_shared (ks_mgr S) key" by (rule counts_pos [OF ok(2)]) (rule KUnshare.hyps)
  show ?case
  proof (rule keys_invI)
    show "counts ((ks_call S)(c := KOver)) (\<lambda>x. x = KShares k) (rm_shared (releaseShared key (ks_mgr S)) k)" for k
    proof (cases "k = key")
      case True
      have "counts ((ks_call S)(c := KOver)) (\<lambda>x. x = KShares key) (rm_shared (ks_mgr S) key - 1)"
        by (rule counts_leave [OF ok(2)]) (use KUnshare.hyps in simp_all)
      moreover have "rm_shared (releaseShared key (ks_mgr S)) key = rm_shared (ks_mgr S) key - 1"
        using pos by (simp add: releaseShared_def Let_def)
      ultimately show ?thesis using True by simp
    next
      case False
      then show ?thesis using ok(2) [of k] KUnshare.hyps by (simp add: releaseShared_def Let_def counts_keep)
    qed
  qed (use ok KUnshare.hyps in \<open>simp_all add: releaseShared_def Let_def counts_keep own_keep\<close>)
next
  case (KBegin S c)
  note ok = keys_invD [OF KBegin.prems]
  show ?case
    by (rule keys_invI) (use ok KBegin.hyps in \<open>simp_all add: Critical_begin_def counts_keep counts_enter own_keep\<close>)
next
  case (KEnd S c)
  note ok = keys_invD [OF KEnd.prems]
  show ?case
    by (rule keys_invI) (use ok KEnd.hyps in \<open>simp_all add: Critical_end_def counts_keep counts_leave own_keep\<close>)
qed (simp_all add: keys_inv_def run_Refuse_def run_Accept_def run_Shutdown_def)

lemma keys_reach_inv: "keys_reach S \<Longrightarrow> keys_inv S"
proof (induction rule: keys_reach.induct)
  case keys_init
  show ?case by (simp add: keys_inv_def own_ok_def counts_def NewManager_def)
qed (rule key_step_inv)

section \<open>Properties\<close>

text \<open>C18: A key is exclusive: whatever operations are acquired, started, shared, released and returned in whatever
  order, when an operation holds a key alone no other operation holds it, alone or shared, and \<open>Running\<close> answers
  true exactly for the keys some operation holds alone.\<close>

theorem keys_exclusive:
  assumes "keys_reach S"
  shows "(owns (ks_call S c) key \<and> c' \<noteq> c \<longrightarrow> \<not> owns (ks_call S c') key \<and> ks_call S c' \<noteq> KShares key)
    \<and> (Running key (ks_mgr S) \<longleftrightarrow> (\<exists>c. owns (ks_call S c) key))"
  using keys_invD(1) [OF keys_reach_inv [OF assms]] unfolding own_ok_def Running_def by blast

text \<open>\<open>Idle\<close> is exact: it answers true exactly when no operation holds a key alone and every operation started in
  the background, with or without a key, has returned; and the count of critical steps is zero exactly when none
  runs.\<close>

theorem idle_exact:
  assumes "keys_reach S"
  shows "(run_Idle (ks_mgr S) \<longleftrightarrow> (\<forall>c. \<not> in_flight (ks_call S c) \<and> (\<forall>key. \<not> owns (ks_call S c) key)))
    \<and> (CriticalCount (ks_mgr S) = 0 \<longleftrightarrow> (\<forall>c. ks_call S c \<noteq> KCritical))"
proof -
  note inv = keys_invD [OF keys_reach_inv [OF assms]]
  have "rm_active (ks_mgr S) = {} \<longleftrightarrow> (\<forall>c key. \<not> owns (ks_call S c) key)" using inv(1) unfolding own_ok_def by blast
  then show ?thesis using counts_zero [OF inv(3)] counts_zero [OF inv(4)] by (auto simp: run_Idle_def CriticalCount_def)
qed

definition at_work :: "key_call \<Rightarrow> bool" where
  "at_work x \<longleftrightarrow> in_flight x \<or> (\<exists>key. x = KHolds key \<or> x = KShares key)"

lemma closed_step:
  "key_step S S' \<Longrightarrow> rm_closed (ks_mgr S) \<Longrightarrow> rm_closed (ks_mgr S') \<and> (\<forall>c. at_work (ks_call S' c) \<longrightarrow> at_work (ks_call S c))"
proof (induction rule: key_step.induct)
  case (KAcquire S c admit key m)
  then show ?case using run_Acquire_OkD by blast
next
  case (KGo S c admit key m)
  then show ?case using run_Go_OkD by blast
next
  case (KShare S c key m)
  then show ?case using AcquireShared_OkD by blast
qed (auto simp: set_kcall_def at_work_def releaseFunc_def releaseShared_def Let_def Go_returned_def Critical_begin_def Critical_end_def
    run_Refuse_def run_Accept_def run_Shutdown_def)

text \<open>Nothing starts after a shutdown: once \<open>Shutdown\<close> has closed the manager, whatever happens afterwards (even
  \<open>Accept\<close>), it stays closed, and the operations at work are among those that were at work when it closed.\<close>

theorem nothing_starts_after_shutdown:
  assumes "key_step\<^sup>*\<^sup>* S S'" "rm_closed (ks_mgr S)"
  shows "rm_closed (ks_mgr S') \<and> {c. at_work (ks_call S' c)} \<subseteq> {c. at_work (ks_call S c)}"
  using assms
proof (induction rule: rtranclp_induct)
  case (step y z)
  then show ?case using closed_step [OF step(2)] by blast
qed simp

text \<open>A reachable state in which one operation holds a key alone and another shares a second one.\<close>

definition sample_keys :: keys_state where
  "sample_keys = \<lparr>ks_mgr = NewManager\<lparr>rm_active := {''a''}, rm_shared := (\<lambda>_. 0)(''b'' := 1)\<rparr>,
     ks_call = ((\<lambda>_. KNone)(0 := KHolds ''a''))(1 := KShares ''b'')\<rparr>"

lemma sample_keys_reach: "keys_reach sample_keys"
proof -
  let ?S0 = "\<lparr>ks_mgr = NewManager, ks_call = (\<lambda>_. KNone)\<rparr>"
  let ?m1 = "NewManager\<lparr>rm_active := {''a''}\<rparr>"
  let ?m2 = "?m1\<lparr>rm_shared := (rm_shared ?m1)(''b'' := rm_shared ?m1 ''b'' + 1)\<rparr>"
  have "key_step ?S0 (set_kcall 0 (KHolds ''a'') ?m1 ?S0)"
    by (rule key_step.KAcquire [where admit = None])
      (simp_all add: run_Acquire_def checkAdmissionLocked_def reserveLocked_def NewManager_def)
  moreover have "key_step (set_kcall 0 (KHolds ''a'') ?m1 ?S0) (set_kcall 1 (KShares ''b'') ?m2 (set_kcall 0 (KHolds ''a'') ?m1 ?S0))"
    by (rule key_step.KShare) (simp_all add: AcquireShared_def set_kcall_def NewManager_def)
  moreover have "set_kcall 1 (KShares ''b'') ?m2 (set_kcall 0 (KHolds ''a'') ?m1 ?S0) = sample_keys"
    by (simp add: set_kcall_def sample_keys_def NewManager_def)
  ultimately show ?thesis using keys_init keys_next by metis
qed

theorem keys_exclusive_witness: "owns (ks_call sample_keys 0) ''a'' \<and> \<not> owns (ks_call sample_keys 1) ''a''"
proof -
  have "owns (ks_call sample_keys 0) ''a''" by (simp add: sample_keys_def)
  then show ?thesis using keys_exclusive [OF sample_keys_reach, of 0 "''a''" 1] by simp
qed

theorem idle_exact_witness: "keys_reach sample_keys \<and> \<not> run_Idle (ks_mgr sample_keys)"
proof -
  have "owns (ks_call sample_keys 0) ''a''" by (simp add: sample_keys_def)
  then show ?thesis using idle_exact [OF sample_keys_reach] sample_keys_reach by blast
qed

theorem nothing_starts_after_shutdown_witness:
  "\<not> at_work (ks_call (sample_keys\<lparr>ks_mgr := run_Accept (run_Shutdown (ks_mgr sample_keys))\<rparr>) 2)"
proof -
  let ?S = "sample_keys\<lparr>ks_mgr := run_Shutdown (ks_mgr sample_keys)\<rparr>"
  have "key_step\<^sup>*\<^sup>* ?S (?S\<lparr>ks_mgr := run_Accept (ks_mgr ?S)\<rparr>)" using key_step.KAccept by blast
  moreover have "rm_closed (ks_mgr ?S)" by (simp add: run_Shutdown_def)
  ultimately have "{c. at_work (ks_call (?S\<lparr>ks_mgr := run_Accept (ks_mgr ?S)\<rparr>) c)} \<subseteq> {c. at_work (ks_call ?S c)}"
    using nothing_starts_after_shutdown by blast
  moreover have "\<not> at_work (ks_call ?S 2)" by (simp add: sample_keys_def at_work_def)
  ultimately show ?thesis by auto
qed

end
