(* ===== verification/Runs_Locks.thy ===== *)
theory Runs_Locks
  imports Mr_Prelude "HOL-Library.Countable"
begin

text \<open>
  The keyed mutexes of \<open>src/internal/runs/locks.go\<close>, which serialise the deletions of backups. The mutex of a key is
  a one-slot channel with a reference count, in an explicit heap because its users keep a pointer to it while the map
  may forget it. A call of \<open>Lock\<close> takes its keys one after the other; every critical section and every channel
  operation is one step of \<open>lock_step\<close>, so calls interleave between them.
\<close>

section \<open>State and operations\<close>

record keyLock =
  kl_full :: bool
  kl_refs :: int

record KeyLocks =
  kl_held :: "string \<rightharpoonup> nat"
  kl_heap :: "nat \<Rightarrow> keyLock"
  kl_next :: nat

definition NewKeyLocks :: KeyLocks where
  "NewKeyLocks = \<lparr>kl_held = Map.empty, kl_heap = (\<lambda>_. \<lparr>kl_full = False, kl_refs = 0\<rparr>), kl_next = 0\<rparr>"

definition set_lock :: "nat \<Rightarrow> keyLock \<Rightarrow> KeyLocks \<Rightarrow> KeyLocks" where
  "set_lock a l k = k\<lparr>kl_heap := (kl_heap k)(a := l)\<rparr>"

definition lock_drop :: "string \<Rightarrow> nat \<Rightarrow> KeyLocks \<Rightarrow> KeyLocks" where
  "lock_drop key a k =
     (let l = (kl_heap k a)\<lparr>kl_refs := kl_refs (kl_heap k a) - 1\<rparr>;
          k' = set_lock a l k
      in if kl_refs l = 0 then k'\<lparr>kl_held := (kl_held k')(key := None)\<rparr> else k')"

text \<open>\<open>lock\<close>: the first critical section, the send on the channel (possible when it is empty), and the second
  critical section when the context ended first.\<close>

definition lock_enter :: "string \<Rightarrow> KeyLocks \<Rightarrow> nat \<times> KeyLocks" where
  "lock_enter key k = (case kl_held k key of
     Some a \<Rightarrow> (a, set_lock a ((kl_heap k a)\<lparr>kl_refs := kl_refs (kl_heap k a) + 1\<rparr>) k)
   | None \<Rightarrow> (kl_next k, (set_lock (kl_next k) \<lparr>kl_full = False, kl_refs = 1\<rparr> k)
       \<lparr>kl_held := (kl_held k)(key \<mapsto> kl_next k), kl_next := kl_next k + 1\<rparr>))"

definition lock_send :: "nat \<Rightarrow> KeyLocks \<Rightarrow> KeyLocks option" where
  "lock_send a k = (if kl_full (kl_heap k a) then None else Some (set_lock a ((kl_heap k a)\<lparr>kl_full := True\<rparr>) k))"

text \<open>\<open>unlock\<close> returns \<open>None\<close> where it would dereference a nil pointer or block on an empty channel.\<close>

definition key_unlock :: "string \<Rightarrow> KeyLocks \<Rightarrow> KeyLocks option" where
  "key_unlock key k = (case kl_held k key of None \<Rightarrow> None
   | Some a \<Rightarrow> if kl_full (kl_heap k a)
       then Some (lock_drop key a (set_lock a ((kl_heap k a)\<lparr>kl_full := False\<rparr>) k)) else None)"

definition DeletionKey :: "string \<Rightarrow> string \<Rightarrow> string \<Rightarrow> string" where
  "DeletionKey jobID connectionID database =
     (if jobID \<noteq> [] then ''delete:job:'' @ jobID else ''delete:db:'' @ connectionID @ ''/'' @ database)"

definition ArchiveKey :: "string \<Rightarrow> string \<Rightarrow> string" where
  "ArchiveKey targetID key = ''archive:'' @ targetID @ [CHR 0x00] @ key"

definition DeletionLockUsers :: "string \<Rightarrow> KeyLocks \<Rightarrow> int" where
  "DeletionLockUsers key k = (case kl_held k key of Some a \<Rightarrow> kl_refs (kl_heap k a) | None \<Rightarrow> 0)"

section \<open>Calls\<close>

text \<open>A call of \<open>Lock\<close> with the keys it took and the keys it still has to take; a call that waits also has the
  address of the mutex it sends to.\<close>

datatype lock_call =
  LNew
| LNext "string list" "string list"
| LWait "string list" string nat "string list"
| LHeld "string list"
| LRel "string list"
| LDone

record locks_state =
  lk_locks :: KeyLocks
  lk_call :: "nat \<Rightarrow> lock_call"

definition set_lcall :: "nat \<Rightarrow> lock_call \<Rightarrow> KeyLocks \<Rightarrow> locks_state \<Rightarrow> locks_state" where
  "set_lcall c x k S = S\<lparr>lk_call := (lk_call S)(c := x), lk_locks := k\<rparr>"

text \<open>The steps a call can do by itself, for the key lists that satisfy \<open>ok\<close>; giving up when the context ends is
  \<open>lock_cancel\<close>.\<close>

inductive lock_run :: "(string list \<Rightarrow> bool) \<Rightarrow> nat \<Rightarrow> locks_state \<Rightarrow> locks_state \<Rightarrow> bool" for ok c where
  LStart: "lk_call S c = LNew \<Longrightarrow> ok keys \<Longrightarrow> lock_run ok c S (set_lcall c (LNext [] keys) (lk_locks S) S)"
| LSkip: "lk_call S c = LNext taken (key # todo) \<Longrightarrow> key \<in> set taken
    \<Longrightarrow> lock_run ok c S (set_lcall c (LNext taken todo) (lk_locks S) S)"
| LEnter: "lk_call S c = LNext taken (key # todo) \<Longrightarrow> key \<notin> set taken \<Longrightarrow> lock_enter key (lk_locks S) = (a, k)
    \<Longrightarrow> lock_run ok c S (set_lcall c (LWait taken key a todo) k S)"
| LSend: "lk_call S c = LWait taken key a todo \<Longrightarrow> lock_send a (lk_locks S) = Some k
    \<Longrightarrow> lock_run ok c S (set_lcall c (LNext (taken @ [key]) todo) k S)"
| LGot: "lk_call S c = LNext taken [] \<Longrightarrow> lock_run ok c S (set_lcall c (LHeld taken) (lk_locks S) S)"
| LUnlock: "lk_call S c = LHeld taken \<Longrightarrow> lock_run ok c S (set_lcall c (LRel taken) (lk_locks S) S)"
| LRelease: "lk_call S c = LRel (taken @ [key]) \<Longrightarrow> key_unlock key (lk_locks S) = Some k
    \<Longrightarrow> lock_run ok c S (set_lcall c (LRel taken) k S)"
| LFinish: "lk_call S c = LRel [] \<Longrightarrow> lock_run ok c S (set_lcall c LDone (lk_locks S) S)"

inductive lock_step :: "(string list \<Rightarrow> bool) \<Rightarrow> locks_state \<Rightarrow> locks_state \<Rightarrow> bool" for ok where
  lock_runs: "lock_run ok c S S' \<Longrightarrow> lock_step ok S S'"
| lock_cancel: "lk_call S c = LWait taken key a todo
    \<Longrightarrow> lock_step ok S (set_lcall c (LRel taken) (lock_drop key a (lk_locks S)) S)"

inductive locks_reach :: "(string list \<Rightarrow> bool) \<Rightarrow> locks_state \<Rightarrow> bool" for ok where
  locks_init: "locks_reach ok \<lparr>lk_locks = NewKeyLocks, lk_call = (\<lambda>_. LNew)\<rparr>"
| locks_next: "locks_reach ok S \<Longrightarrow> lock_step ok S S' \<Longrightarrow> locks_reach ok S'"

section \<open>Invariant\<close>

fun holds :: "lock_call \<Rightarrow> string list" where
  "holds (LNext taken _) = taken"
| "holds (LWait taken _ _ _) = taken"
| "holds (LHeld taken) = taken"
| "holds (LRel taken) = taken"
| "holds _ = []"

fun awaits :: "lock_call \<Rightarrow> (string \<times> nat) option" where
  "awaits (LWait _ key a _) = Some (key, a)"
| "awaits _ = None"

definition uses_key :: "lock_call \<Rightarrow> string \<Rightarrow> bool" where
  "uses_key x key \<longleftrightarrow> key \<in> set (holds x) \<or> (\<exists>a. awaits x = Some (key, a))"

definition users :: "(nat \<Rightarrow> lock_call) \<Rightarrow> string \<Rightarrow> nat set" where
  "users f key = {c. uses_key (f c) key}"

definition lock_ok :: "locks_state \<Rightarrow> string \<Rightarrow> nat \<Rightarrow> bool" where
  "lock_ok S key a \<longleftrightarrow> a < kl_next (lk_locks S) \<and> finite (users (lk_call S) key) \<and> users (lk_call S) key \<noteq> {}
     \<and> kl_refs (kl_heap (lk_locks S) a) = int (card (users (lk_call S) key))
     \<and> (kl_full (kl_heap (lk_locks S) a) \<longleftrightarrow> (\<exists>c. key \<in> set (holds (lk_call S c))))"

definition call_ok :: "lock_call \<Rightarrow> bool" where
  "call_ok x \<longleftrightarrow> distinct (holds x) \<and> (\<forall>key a. awaits x = Some (key, a) \<longrightarrow> key \<notin> set (holds x))"

definition locks_inv :: "locks_state \<Rightarrow> bool" where
  "locks_inv S \<longleftrightarrow>
     (\<forall>key a. kl_held (lk_locks S) key = Some a \<longrightarrow> lock_ok S key a)
     \<and> (\<forall>key key' a. kl_held (lk_locks S) key = Some a \<and> kl_held (lk_locks S) key' = Some a \<longrightarrow> key = key')
     \<and> (\<forall>c key. uses_key (lk_call S c) key \<longrightarrow> kl_held (lk_locks S) key \<noteq> None)
     \<and> (\<forall>c key a. awaits (lk_call S c) = Some (key, a) \<longrightarrow> kl_held (lk_locks S) key = Some a)
     \<and> (\<forall>c c' key. key \<in> set (holds (lk_call S c)) \<and> key \<in> set (holds (lk_call S c')) \<longrightarrow> c = c')
     \<and> (\<forall>c. call_ok (lk_call S c))"

section \<open>Preservation\<close>

lemma locks_invD:
  assumes "locks_inv S"
  shows "kl_held (lk_locks S) key = Some a \<Longrightarrow> lock_ok S key a"
    "kl_held (lk_locks S) key = Some a \<Longrightarrow> kl_held (lk_locks S) key' = Some a \<Longrightarrow> key = key'"
    "uses_key (lk_call S c) key \<Longrightarrow> kl_held (lk_locks S) key \<noteq> None"
    "awaits (lk_call S c) = Some (key, a) \<Longrightarrow> kl_held (lk_locks S) key = Some a"
    "key \<in> set (holds (lk_call S c)) \<Longrightarrow> key \<in> set (holds (lk_call S c')) \<Longrightarrow> c = c'"
    "call_ok (lk_call S c)"
  using assms unfolding locks_inv_def by blast+

text \<open>The invariant depends on a call only through the keys it took and the key it waits for.\<close>

lemma locks_inv_view:
  assumes inv: "locks_inv S" and v: "holds x = holds (lk_call S c)" "awaits x = awaits (lk_call S c)"
  shows "locks_inv (set_lcall c x (lk_locks S) S)"
proof -
  let ?S = "set_lcall c x (lk_locks S) S"
  have h: "holds (lk_call ?S d) = holds (lk_call S d)" "awaits (lk_call ?S d) = awaits (lk_call S d)" for d
    using v by (simp_all add: set_lcall_def)
  then have u: "uses_key (lk_call ?S d) = uses_key (lk_call S d)" for d by (simp add: uses_key_def fun_eq_iff)
  then have us: "users (lk_call ?S) = users (lk_call S)" by (simp add: users_def fun_eq_iff)
  have "call_ok (lk_call ?S d) = call_ok (lk_call S d)" for d by (simp add: call_ok_def h)
  then show ?thesis using inv unfolding locks_inv_def lock_ok_def u us h by (simp add: set_lcall_def)
qed

text \<open>A step of call \<open>c\<close> on \<open>key\<close> that leaves the other keys alone.\<close>

lemma key_change_inv:
  assumes inv: "locks_inv S"
    and other: "\<And>k'. k' \<noteq> key \<Longrightarrow> k' \<in> set (holds x) \<longleftrightarrow> k' \<in> set (holds (lk_call S c))"
      "\<And>k' a. k' \<noteq> key \<Longrightarrow> awaits x \<noteq> Some (k', a)" "\<And>k' a. k' \<noteq> key \<Longrightarrow> awaits (lk_call S c) \<noteq> Some (k', a)"
    and held: "\<And>k'. k' \<noteq> key \<Longrightarrow> kl_held k k' = kl_held (lk_locks S) k'"
    and heap: "\<And>k' a. k' \<noteq> key \<Longrightarrow> kl_held (lk_locks S) k' = Some a \<Longrightarrow> kl_heap k a = kl_heap (lk_locks S) a"
    and nx: "kl_next (lk_locks S) \<le> kl_next k"
    and good: "\<And>a. kl_held k key = Some a \<Longrightarrow> lock_ok (set_lcall c x k S) key a"
    and fresh: "\<And>k' a. kl_held k key = Some a \<Longrightarrow> k' \<noteq> key \<Longrightarrow> kl_held (lk_locks S) k' \<noteq> Some a"
    and used: "\<And>d. uses_key (lk_call (set_lcall c x k S) d) key \<Longrightarrow> kl_held k key \<noteq> None"
    and waits: "\<And>d a. awaits (lk_call (set_lcall c x k S) d) = Some (key, a) \<Longrightarrow> kl_held k key = Some a"
    and excl: "\<And>d d'. key \<in> set (holds (lk_call (set_lcall c x k S) d)) \<Longrightarrow> key \<in> set (holds (lk_call (set_lcall c x k S) d')) \<Longrightarrow> d = d'"
    and cok: "call_ok x"
  shows "locks_inv (set_lcall c x k S)" (is "locks_inv ?S")
proof -
  have S: "lk_call ?S d = (if d = c then x else lk_call S d)" "lk_locks ?S = k" for d by (simp_all add: set_lcall_def)
  have h: "k' \<in> set (holds (lk_call ?S d)) \<longleftrightarrow> k' \<in> set (holds (lk_call S d))" if "k' \<noteq> key" for k' d
    using other(1) [OF that] by (simp add: S)
  have w: "awaits (lk_call ?S d) = Some (k', a) \<longleftrightarrow> awaits (lk_call S d) = Some (k', a)" if "k' \<noteq> key" for k' d a
    using other(2,3) [OF that, of a] by (simp add: S)
  have u: "uses_key (lk_call ?S d) k' \<longleftrightarrow> uses_key (lk_call S d) k'" if "k' \<noteq> key" for k' d
    using h [OF that, of d] w [OF that, of d] by (simp add: uses_key_def)
  have lk: "lock_ok ?S k' a" if k: "k' \<noteq> key" "kl_held (lk_locks S) k' = Some a" for k' a
  proof -
    have "users (lk_call ?S) k' = users (lk_call S) k'" using u [OF k(1)] by (simp add: users_def)
    then show ?thesis
      using locks_invD(1) [OF inv k(2)] heap [OF k] nx h [OF k(1)] unfolding lock_ok_def S(2) by simp
  qed
  show ?thesis unfolding locks_inv_def S(2)
  proof (intro conjI allI impI)
    show "lock_ok ?S k' a" if "kl_held k k' = Some a" for k' a
      using that good lk held by (cases "k' = key") simp_all
    show "k1 = k2" if hd: "kl_held k k1 = Some a \<and> kl_held k k2 = Some a" for k1 k2 a
    proof -
      have old: "kl_held (lk_locks S) k' = Some a" if "k' \<noteq> key" "kl_held k k' = Some a" for k' using held [OF that(1)] that(2) by simp
      have new: "k' = key" if "kl_held k key = Some a" "kl_held k k' = Some a" for k'
        using fresh [OF that(1), of k'] old [of k'] that(2) by blast
      show ?thesis using hd new [of k1] new [of k2] old [of k1] old [of k2] locks_invD(2) [OF inv, of k1 a k2] by blast
    qed
    show "kl_held k k' \<noteq> None" if "uses_key (lk_call ?S d) k'" for d k'
      using that used [of d] u [of k' d] held [of k'] locks_invD(3) [OF inv, of d k'] by (cases "k' = key") simp_all
    show "kl_held k k' = Some a" if "awaits (lk_call ?S d) = Some (k', a)" for d k' a
      using that waits [of d a] w [of k' d a] held [of k'] locks_invD(4) [OF inv, of d k' a] by (cases "k' = key") simp_all
    show "d = d'" if "k' \<in> set (holds (lk_call ?S d)) \<and> k' \<in> set (holds (lk_call ?S d'))" for d d' k'
      using that excl [of d d'] h [of k' d] h [of k' d'] locks_invD(5) [OF inv, of k' d d'] by (cases "k' = key") simp_all
    show "call_ok (lk_call ?S d)" for d using cok locks_invD(6) [OF inv] by (simp add: S)
  qed
qed

text \<open>Entering: the call becomes a user of the key's mutex, which is found or made.\<close>

lemma inv_lock_enter:
  assumes inv: "locks_inv S" and c: "lk_call S c = LNext taken (key # todo)" "key \<notin> set taken"
    and e: "lock_enter key (lk_locks S) = (a, k)"
  shows "locks_inv (set_lcall c (LWait taken key a todo) k S)" (is "locks_inv ?S")
proof (rule key_change_inv [OF inv, where key = key])
  have k: "kl_held k key = Some a" "k' \<noteq> key \<Longrightarrow> kl_held k k' = kl_held (lk_locks S) k'"
    "kl_next (lk_locks S) \<le> kl_next k" for k'
    using e by (auto simp: lock_enter_def set_lock_def split: option.splits)
  then show "kl_next (lk_locks S) \<le> kl_next k" "\<And>k'. k' \<noteq> key \<Longrightarrow> kl_held k k' = kl_held (lk_locks S) k'" by blast+
  have fr: "kl_held (lk_locks S) k' \<noteq> Some a" if "k' \<noteq> key" for k'
    using that e locks_invD(1) [OF inv, of k' a] locks_invD(2) [OF inv, of k' a key]
    by (auto simp: lock_enter_def lock_ok_def split: option.splits)
  then show "\<And>k' a'. kl_held k key = Some a' \<Longrightarrow> k' \<noteq> key \<Longrightarrow> kl_held (lk_locks S) k' \<noteq> Some a'" using k(1) by auto
  show "kl_heap k b = kl_heap (lk_locks S) b" if "k' \<noteq> key" "kl_held (lk_locks S) k' = Some b" for k' b
    using that fr [OF that(1)] e by (auto simp: lock_enter_def set_lock_def split: option.splits)
  have us: "users (lk_call ?S) key = insert c (users (lk_call S) key)" "c \<notin> users (lk_call S) key"
    using c by (auto simp: users_def set_lcall_def uses_key_def)
  have hs: "key \<in> set (holds (lk_call ?S d)) \<longleftrightarrow> key \<in> set (holds (lk_call S d))" for d
    using c by (simp add: set_lcall_def)
  have ok: "lock_ok ?S key a"
  proof (cases "kl_held (lk_locks S) key")
    case None
    then have "\<not> uses_key (lk_call S d) key" for d using locks_invD(3) [OF inv, of d key] by auto
    then have "users (lk_call S) key = {}" "key \<notin> set (holds (lk_call S d))" for d by (auto simp: users_def uses_key_def)
    then show ?thesis using None e us hs by (auto simp: lock_ok_def lock_enter_def set_lock_def set_lcall_def)
  next
    case (Some b)
    then have "a = b" using e by (simp add: lock_enter_def)
    with locks_invD(1) [OF inv Some] Some e us show ?thesis
      unfolding lock_ok_def hs by (auto simp: lock_enter_def set_lock_def set_lcall_def)
  qed
  then show "\<And>a'. kl_held k key = Some a' \<Longrightarrow> lock_ok ?S key a'" using k(1) by auto
  show "awaits (lk_call ?S d) = Some (key, b) \<Longrightarrow> kl_held k key = Some b" for d b
    using locks_invD(4) [OF inv, of d key b] k(1) e
    by (cases "d = c") (auto simp: set_lcall_def lock_enter_def split: option.splits)
  show "d = d'" if "key \<in> set (holds (lk_call ?S d))" "key \<in> set (holds (lk_call ?S d'))" for d d'
    using that locks_invD(5) [OF inv, of key d d'] unfolding hs by blast
  show "call_ok (LWait taken key a todo)" using locks_invD(6) [OF inv, of c] c by (simp add: call_ok_def)
qed (use c e in \<open>auto simp: lock_enter_def set_lock_def split: option.splits\<close>)

text \<open>Sending: the waiting call becomes the holder.\<close>

lemma inv_lock_send:
  assumes inv: "locks_inv S" and c: "lk_call S c = LWait taken key a todo" and e: "lock_send a (lk_locks S) = Some k"
  shows "locks_inv (set_lcall c (LNext (taken @ [key]) todo) k S)" (is "locks_inv ?S")
proof (rule key_change_inv [OF inv, where key = key])
  have held: "kl_held (lk_locks S) key = Some a" using locks_invD(4) [OF inv, of c key a] c by simp
  have k: "k = set_lock a ((kl_heap (lk_locks S) a)\<lparr>kl_full := True\<rparr>) (lk_locks S)" and nf: "\<not> kl_full (kl_heap (lk_locks S) a)"
    using e by (auto simp: lock_send_def split: if_splits)
  have ok: "lock_ok S key a" by (rule locks_invD(1) [OF inv held])
  then have nobody: "key \<notin> set (holds (lk_call S d))" for d using nf by (auto simp: lock_ok_def)
  have us: "users (lk_call ?S) key = users (lk_call S) key"
    using c by (auto simp: users_def set_lcall_def uses_key_def)
  have "lock_ok ?S key a" using ok us by (auto simp: lock_ok_def set_lcall_def k set_lock_def)
  then show "\<And>a'. kl_held k key = Some a' \<Longrightarrow> lock_ok ?S key a'" using held by (auto simp: k set_lock_def)
  show "kl_held (lk_locks S) k' \<noteq> Some b" if "kl_held k key = Some b" "k' \<noteq> key" for k' b
    using that held locks_invD(2) [OF inv, of k' b key] by (auto simp: k set_lock_def)
  show "kl_heap k b = kl_heap (lk_locks S) b" if "k' \<noteq> key" "kl_held (lk_locks S) k' = Some b" for k' b
    using that held locks_invD(2) [OF inv, of k' b key] by (auto simp: k set_lock_def)
  show "kl_held k key = Some b" if "awaits (lk_call ?S d) = Some (key, b)" for d b
    using that locks_invD(4) [OF inv, of d key b] by (cases "d = c") (auto simp: set_lcall_def k set_lock_def)
  show "d = d'" if "key \<in> set (holds (lk_call ?S d))" "key \<in> set (holds (lk_call ?S d'))" for d d'
    using that nobody by (auto simp: set_lcall_def split: if_splits)
  show "call_ok (LNext (taken @ [key]) todo)" using locks_invD(6) [OF inv, of c] c by (simp add: call_ok_def)
  show "kl_held k key \<noteq> None" using held by (simp add: k set_lock_def)
qed (use c e in \<open>auto simp: lock_send_def set_lock_def split: if_splits\<close>)

text \<open>Dropping: the call stops using the key; \<open>full\<close> is what the channel holds afterwards.\<close>

lemma inv_lock_drop:
  assumes inv: "locks_inv S" and held: "kl_held (lk_locks S) key = Some a" and c: "uses_key (lk_call S c) key"
    and x: "holds x = filter (\<lambda>k. k \<noteq> key) (holds (lk_call S c))" "awaits x = None"
    and w: "\<And>k' b. k' \<noteq> key \<Longrightarrow> awaits (lk_call S c) \<noteq> Some (k', b)"
    and full: "full \<longleftrightarrow> (\<exists>d. d \<noteq> c \<and> key \<in> set (holds (lk_call S d)))"
    and k: "k = lock_drop key a (set_lock a ((kl_heap (lk_locks S) a)\<lparr>kl_full := full\<rparr>) (lk_locks S))"
  shows "locks_inv (set_lcall c x k S)" (is "locks_inv ?S")
proof (rule key_change_inv [OF inv, where key = key])
  have ok: "lock_ok S key a" by (rule locks_invD(1) [OF inv held])
  have us: "users (lk_call ?S) key = users (lk_call S) key - {c}" "c \<in> users (lk_call S) key"
    using c x by (auto simp: users_def set_lcall_def uses_key_def)
  have n: "int (card (users (lk_call S) key - {c})) = kl_refs (kl_heap (lk_locks S) a) - 1"
    using ok us(2) by (auto simp: lock_ok_def of_nat_diff card_gt_0_iff Suc_le_eq)
  have fin: "finite (users (lk_call S) key)" using ok by (simp add: lock_ok_def)
  have gone: "kl_held k key = (if users (lk_call ?S) key = {} then None else Some a)"
  proof -
    have "kl_held k key = (if kl_refs (kl_heap (lk_locks S) a) - 1 = 0 then None else Some a)"
      using held by (simp add: k lock_drop_def set_lock_def Let_def)
    moreover have "users (lk_call ?S) key = {} \<longleftrightarrow> int (card (users (lk_call S) key - {c})) = 0"
      unfolding us(1) using fin by simp
    ultimately show ?thesis unfolding n by simp
  qed
  have other: "k' \<noteq> key \<Longrightarrow> kl_held k k' = kl_held (lk_locks S) k'" for k' by (simp add: k lock_drop_def set_lock_def Let_def)
  then show "\<And>k'. k' \<noteq> key \<Longrightarrow> kl_held k k' = kl_held (lk_locks S) k'" .
  have hp: "kl_heap k = (kl_heap (lk_locks S))(a := \<lparr>kl_full = full, kl_refs = kl_refs (kl_heap (lk_locks S) a) - 1\<rparr>)"
    by (auto simp: k lock_drop_def set_lock_def Let_def)
  have nx: "kl_next k = kl_next (lk_locks S)" by (simp add: k lock_drop_def set_lock_def Let_def)
  then show "kl_next (lk_locks S) \<le> kl_next k" by simp
  have hs: "key \<in> set (holds (lk_call ?S d)) \<longleftrightarrow> d \<noteq> c \<and> key \<in> set (holds (lk_call S d))" for d
    using x by (auto simp: set_lcall_def)
  show "lock_ok ?S key b" if b: "kl_held k key = Some b" for b
  proof -
    have "b = a" "users (lk_call ?S) key \<noteq> {}" using b gone by (auto split: if_splits)
    then show ?thesis using ok n us fin full unfolding lock_ok_def hs by (simp add: set_lcall_def hp nx)
  qed
  show "kl_held (lk_locks S) k' \<noteq> Some b" if "kl_held k key = Some b" "k' \<noteq> key" for k' b
    using that gone held locks_invD(2) [OF inv, of k' b key] by (auto split: if_splits)
  show "kl_heap k b = kl_heap (lk_locks S) b" if "k' \<noteq> key" "kl_held (lk_locks S) k' = Some b" for k' b
    using that held locks_invD(2) [OF inv, of k' b key] by (auto simp: hp)
  show "kl_held k key \<noteq> None" if "uses_key (lk_call ?S d) key" for d using that gone by (auto simp: users_def)
  show "kl_held k key = Some b" if aw: "awaits (lk_call ?S d) = Some (key, b)" for d b
  proof -
    have d: "d \<noteq> c" using aw x by (auto simp: set_lcall_def)
    then have "b = a" using aw locks_invD(4) [OF inv, of d key b] held by (simp add: set_lcall_def)
    moreover have "d \<in> users (lk_call ?S) key" using aw by (auto simp: users_def uses_key_def)
    ultimately show ?thesis using gone by auto
  qed
  show "d = d'" if "key \<in> set (holds (lk_call ?S d))" "key \<in> set (holds (lk_call ?S d'))" for d d'
    using that locks_invD(5) [OF inv, of key d d'] unfolding hs by blast
  show "call_ok x" using locks_invD(6) [OF inv, of c] x by (simp add: call_ok_def)
qed (use x w in auto)

lemma lock_run_inv: "lock_run ok c S S' \<Longrightarrow> locks_inv S \<Longrightarrow> locks_inv S'"
proof (induction rule: lock_run.induct)
  case (LRelease S taken key k)
  let ?x = "lk_call S c"
  have dist: "key \<notin> set taken" using locks_invD(6) [OF LRelease.prems, of c] LRelease.hyps(1) by (simp add: call_ok_def)
  have u: "uses_key ?x key" using LRelease.hyps(1) by (simp add: uses_key_def)
  from LRelease.hyps(2) obtain a where a: "kl_held (lk_locks S) key = Some a"
    and k: "k = lock_drop key a (set_lock a ((kl_heap (lk_locks S) a)\<lparr>kl_full := False\<rparr>) (lk_locks S))"
    by (auto simp: key_unlock_def split: option.splits if_splits)
  have "\<not> (\<exists>d. d \<noteq> c \<and> key \<in> set (holds (lk_call S d)))"
    using locks_invD(5) [OF LRelease.prems, of key c] LRelease.hyps(1) by fastforce
  moreover have "filter (\<lambda>k. k \<noteq> key) taken = taken" using dist by (induction taken) auto
  ultimately show ?case
    using LRelease.hyps(1) by (intro inv_lock_drop [OF LRelease.prems a u _ _ _ _ k]) simp_all
qed (auto intro: locks_inv_view inv_lock_enter inv_lock_send)

lemma lock_cancel_inv:
  assumes inv: "locks_inv S" and c: "lk_call S c = LWait taken key a todo"
  shows "locks_inv (set_lcall c (LRel taken) (lock_drop key a (lk_locks S)) S)"
proof -
  have u: "uses_key (lk_call S c) key" using c by (simp add: uses_key_def)
  have held: "kl_held (lk_locks S) key = Some a" using locks_invD(4) [OF inv, of c key a] c by simp
  have nk: "key \<notin> set taken" using locks_invD(6) [OF inv, of c] c by (simp add: call_ok_def)
  then have "filter (\<lambda>k. k \<noteq> key) taken = taken" by (induction taken) auto
  moreover have "kl_full (kl_heap (lk_locks S) a) \<longleftrightarrow> (\<exists>d. d \<noteq> c \<and> key \<in> set (holds (lk_call S d)))"
    using locks_invD(1) [OF inv held] c nk unfolding lock_ok_def by (metis holds.simps(2))
  moreover have id: "set_lock a ((kl_heap (lk_locks S) a)\<lparr>kl_full := kl_full (kl_heap (lk_locks S) a)\<rparr>) (lk_locks S) = lk_locks S"
    by (simp add: set_lock_def)
  have "lock_drop key a (lk_locks S) = lock_drop key a
    (set_lock a ((kl_heap (lk_locks S) a)\<lparr>kl_full := kl_full (kl_heap (lk_locks S) a)\<rparr>) (lk_locks S))" by (simp only: id)
  ultimately show ?thesis using c by (intro inv_lock_drop [OF inv held u]) simp_all
qed

lemma locks_reach_inv: "locks_reach ok S \<Longrightarrow> locks_inv S"
proof (induction rule: locks_reach.induct)
  case locks_init
  show ?case by (simp add: locks_inv_def NewKeyLocks_def uses_key_def call_ok_def)
next
  case (locks_next S S')
  from locks_next(2,3) show ?case by (cases rule: lock_step.cases) (auto intro: lock_run_inv lock_cancel_inv)
qed

section \<open>Properties\<close>

lemma held_unlockable:
  assumes "locks_reach ok S" "key \<in> set (holds (lk_call S c))"
  shows "key_unlock key (lk_locks S) \<noteq> None"
proof -
  note inv = locks_reach_inv [OF assms(1)]
  have "uses_key (lk_call S c) key" using assms(2) by (simp add: uses_key_def)
  from locks_invD(3) [OF inv this] obtain a where a: "kl_held (lk_locks S) key = Some a" by blast
  have "kl_full (kl_heap (lk_locks S) a)" using locks_invD(1) [OF inv a] assms(2) by (auto simp: lock_ok_def)
  then show ?thesis using a by (auto simp: key_unlock_def)
qed

text \<open>C16: The keyed mutexes exclude: however calls of \<open>Lock\<close> and of the functions they return interleave, and
  wherever contexts end, no two calls hold the same key; and releasing a held key neither blocks nor finds its mutex
  gone.\<close>

theorem lock_mutual_exclusion:
  assumes "locks_reach ok S" "key \<in> set (holds (lk_call S c))"
  shows "(\<forall>c'. key \<in> set (holds (lk_call S c')) \<longrightarrow> c' = c) \<and> key_unlock key (lk_locks S) \<noteq> None"
  using held_unlockable [OF assms] locks_invD(5) [OF locks_reach_inv [OF assms(1)] _ assms(2)] by blast

text \<open>The mutex of a key exists exactly while it is held or awaited, and \<open>DeletionLockUsers\<close> counts its users.\<close>

theorem locks_no_leak:
  assumes "locks_reach ok S"
  shows "(kl_held (lk_locks S) key \<noteq> None \<longleftrightarrow> (\<exists>c. uses_key (lk_call S c) key))
    \<and> DeletionLockUsers key (lk_locks S) = int (card {c. uses_key (lk_call S c) key})"
proof -
  note inv = locks_reach_inv [OF assms]
  show ?thesis
  proof (cases "kl_held (lk_locks S) key")
    case None
    then have no: "\<not> uses_key (lk_call S c) key" for c using locks_invD(3) [OF inv, of c key] by auto
    then show ?thesis using None by (simp add: DeletionLockUsers_def)
  next
    case (Some a)
    from locks_invD(1) [OF inv Some] Some show ?thesis by (auto simp: DeletionLockUsers_def lock_ok_def users_def)
  qed
qed

text \<open>Keys taken in one order: by a rank that no two keys share.\<close>

definition in_order :: "(string \<Rightarrow> nat) \<Rightarrow> string list \<Rightarrow> bool" where
  "in_order rank keys \<longleftrightarrow> sorted (map rank keys)"

fun keys_of :: "lock_call \<Rightarrow> string list" where
  "keys_of (LNext taken todo) = taken @ todo"
| "keys_of (LWait taken key a todo) = taken @ key # todo"
| "keys_of _ = []"

definition order_inv :: "(string \<Rightarrow> nat) \<Rightarrow> locks_state \<Rightarrow> bool" where
  "order_inv rank S \<longleftrightarrow> (\<forall>c. in_order rank (keys_of (lk_call S c))) \<and> finite {c. lk_call S c \<noteq> LNew}"

lemma order_inv_set:
  assumes "order_inv rank S" "in_order rank (keys_of x)"
  shows "order_inv rank (set_lcall c x k S)"
proof -
  have "{d. lk_call (set_lcall c x k S) d \<noteq> LNew} \<subseteq> insert c {d. lk_call S d \<noteq> LNew}" by (auto simp: set_lcall_def)
  then have "finite {d. lk_call (set_lcall c x k S) d \<noteq> LNew}"
    by (rule finite_subset) (use assms(1) in \<open>simp add: order_inv_def\<close>)
  moreover have "\<forall>d. in_order rank (keys_of (lk_call (set_lcall c x k S) d))"
    using assms by (simp add: order_inv_def set_lcall_def)
  ultimately show ?thesis unfolding order_inv_def by blast
qed

lemma lock_run_order: "lock_run (in_order rank) c S S' \<Longrightarrow> order_inv rank S \<Longrightarrow> order_inv rank S'"
proof (induction rule: lock_run.induct)
  case (LSkip S taken key todo)
  have "in_order rank (taken @ key # todo)" using LSkip.prems LSkip.hyps(1) by (auto simp: order_inv_def dest: spec [of _ c])
  then show ?case by (intro order_inv_set [OF LSkip.prems]) (auto simp: in_order_def sorted_append)
next
  case (LEnter S taken key todo a k)
  have "in_order rank (taken @ key # todo)" using LEnter.prems LEnter.hyps(1) by (auto simp: order_inv_def dest: spec [of _ c])
  then show ?case by (intro order_inv_set [OF LEnter.prems]) simp
next
  case (LSend S taken key a todo k)
  have "in_order rank (taken @ key # todo)" using LSend.prems LSend.hyps(1) by (auto simp: order_inv_def dest: spec [of _ c])
  then show ?case by (intro order_inv_set [OF LSend.prems]) simp
qed (auto intro!: order_inv_set simp: in_order_def)

lemma locks_reach_order: "locks_reach (in_order rank) S \<Longrightarrow> order_inv rank S"
proof (induction rule: locks_reach.induct)
  case locks_init
  show ?case by (simp add: order_inv_def in_order_def)
next
  case (locks_next S S')
  from locks_next(2,3) show ?case
    by (cases rule: lock_step.cases) (auto intro: lock_run_order intro!: order_inv_set simp: in_order_def)
qed

text \<open>A call that is not waiting can go on by itself.\<close>

lemma holder_runs:
  assumes r: "locks_reach ok S" and key: "key \<in> set (holds (lk_call S c))" and aw: "awaits (lk_call S c) = None"
  shows "\<exists>S'. lock_run ok c S S'"
proof (cases "lk_call S c")
  case (LNext taken todo)
  show ?thesis
  proof (cases todo)
    case Nil
    with LNext show ?thesis using lock_run.LGot by blast
  next
    case (Cons k ks)
    obtain a k' where "lock_enter k (lk_locks S) = (a, k')" by (cases "lock_enter k (lk_locks S)")
    with LNext Cons show ?thesis using lock_run.LSkip lock_run.LEnter by (cases "k \<in> set taken") blast+
  qed
next
  case (LHeld taken)
  then show ?thesis using lock_run.LUnlock by blast
next
  case (LRel taken)
  with key obtain ks k where t: "taken = ks @ [k]" by (cases taken rule: rev_cases) auto
  have "k \<in> set (holds (lk_call S c))" using LRel t by simp
  from held_unlockable [OF r this] obtain k' where "key_unlock k (lk_locks S) = Some k'" by blast
  with LRel t show ?thesis using lock_run.LRelease by blast
qed (use key aw in auto)

text \<open>C15: Taking keys in one order never deadlocks: when every call takes its keys in the order of a common rank, then
  in every reachable state in which some call waits for a key there is a call that has begun and can go on without any
  context ending.\<close>

theorem ordered_locks_progress:
  assumes "locks_reach (in_order rank) S" "inj rank" "awaits (lk_call S c) = Some (key, a)"
  shows "\<exists>c' S'. lk_call S c' \<noteq> LNew \<and> lock_run (in_order rank) c' S S'"
proof -
  note inv = locks_reach_inv [OF assms(1)] and ord = locks_reach_order [OF assms(1)]
  let ?W = "{d. awaits (lk_call S d) \<noteq> None}"
  let ?r = "\<lambda>d. rank (fst (the (awaits (lk_call S d))))"
  have "?W \<subseteq> {d. lk_call S d \<noteq> LNew}" by auto
  then have "finite ?W" using ord finite_subset unfolding order_inv_def by blast
  moreover have "c \<in> ?W" using assms(3) by simp
  ultimately have "Max (?r ` ?W) \<in> ?r ` ?W" by (intro Max_in) auto
  then obtain w where w: "w \<in> ?W" and wr: "?r w = Max (?r ` ?W)" by (metis (no_types, lifting) imageE)
  have max: "\<forall>d \<in> ?W. ?r d \<le> ?r w" unfolding wr using \<open>finite ?W\<close> by auto
  from w obtain wk wa where wk: "awaits (lk_call S w) = Some (wk, wa)" by auto
  then obtain taken todo where call: "lk_call S w = LWait taken wk wa todo" by (cases "lk_call S w") auto
  show ?thesis
  proof (cases "kl_full (kl_heap (lk_locks S) wa)")
    case False
    then obtain k where "lock_send wa (lk_locks S) = Some k" by (simp add: lock_send_def)
    with call show ?thesis using lock_run.LSend by (metis lock_call.distinct(3))
  next
    case True
    from locks_invD(1) [OF inv locks_invD(4) [OF inv wk]] True obtain h where h: "wk \<in> set (holds (lk_call S h))"
      by (auto simp: lock_ok_def)
    have new: "lk_call S h \<noteq> LNew" using h by auto
    have "awaits (lk_call S h) = None"
    proof (rule ccontr)
      assume "awaits (lk_call S h) \<noteq> None"
      then obtain hk ha where hk: "awaits (lk_call S h) = Some (hk, ha)" by auto
      then obtain ht hd where hcall: "lk_call S h = LWait ht hk ha hd" by (cases "lk_call S h") auto
      have "in_order rank (ht @ hk # hd)" using ord hcall unfolding order_inv_def by (metis keys_of.simps(2))
      then have "rank wk \<le> rank hk" using h hcall by (auto simp: in_order_def sorted_append)
      moreover have "rank hk \<le> rank wk" using bspec [OF max, of h] hk wk by simp
      ultimately have "wk = hk" using assms(2) by (simp add: inj_eq)
      moreover have "hk \<notin> set ht" using locks_invD(6) [OF inv, of h] hcall by (simp add: call_ok_def)
      ultimately show False using h hcall by simp
    qed
    from holder_runs [OF assms(1) h this] new show ?thesis by blast
  qed
qed

text \<open>Two calls on one key: the first holds it, the second waits.\<close>

definition sample_started :: locks_state where
  "sample_started = set_lcall 0 (LNext [] [''k'']) NewKeyLocks \<lparr>lk_locks = NewKeyLocks, lk_call = (\<lambda>_. LNew)\<rparr>"

definition sample_entered :: locks_state where
  "sample_entered = set_lcall 0 (LWait [] ''k'' 0 []) (snd (lock_enter ''k'' NewKeyLocks)) sample_started"

definition sample_held :: locks_state where
  "sample_held = set_lcall 0 (LNext [''k''] []) (the (lock_send 0 (lk_locks sample_entered))) sample_entered"

definition sample_second :: locks_state where
  "sample_second = set_lcall 1 (LNext [] [''k'']) (lk_locks sample_held) sample_held"

definition sample_waiting :: locks_state where
  "sample_waiting = set_lcall 1 (LWait [] ''k'' 0 []) (snd (lock_enter ''k'' (lk_locks sample_second))) sample_second"

lemmas sample_lock_defs = sample_started_def sample_entered_def sample_held_def sample_second_def sample_waiting_def
  set_lcall_def lock_enter_def lock_send_def set_lock_def NewKeyLocks_def

lemma sample_waiting_reach:
  assumes "ok [''k'']"
  shows "locks_reach ok sample_waiting"
proof -
  have 1: "locks_reach ok \<lparr>lk_locks = NewKeyLocks, lk_call = (\<lambda>_. LNew)\<rparr>" by (rule locks_init)
  have 2: "lock_run ok 0 \<lparr>lk_locks = NewKeyLocks, lk_call = (\<lambda>_. LNew)\<rparr> sample_started"
    using lock_run.LStart [of "\<lparr>lk_locks = NewKeyLocks, lk_call = (\<lambda>_. LNew)\<rparr>" 0 ok "[''k'']"] assms
    by (simp add: sample_started_def)
  have 3: "lock_run ok 0 sample_started sample_entered"
    unfolding sample_entered_def by (rule lock_run.LEnter) (simp_all add: sample_lock_defs)
  have 4: "lock_run ok 0 sample_entered sample_held"
    using lock_run.LSend [of sample_entered 0 "[]" "''k''" 0 "[]" "the (lock_send 0 (lk_locks sample_entered))" ok]
    by (simp add: sample_lock_defs)
  have 5: "lock_run ok 1 sample_held sample_second"
    unfolding sample_second_def by (rule lock_run.LStart) (simp_all add: sample_lock_defs assms)
  have 6: "lock_run ok 1 sample_second sample_waiting"
    unfolding sample_waiting_def by (rule lock_run.LEnter) (simp_all add: sample_lock_defs)
  show ?thesis
    by (rule locks_next [OF locks_next [OF locks_next [OF locks_next [OF locks_next [OF 1 lock_runs [OF 2]] lock_runs [OF 3]]
      lock_runs [OF 4]] lock_runs [OF 5]] lock_runs [OF 6]])
qed

lemma sample_waiting_calls:
  "lk_call sample_waiting 0 = LNext [''k''] []" "lk_call sample_waiting 1 = LWait [] ''k'' 0 []"
  by (simp_all add: sample_lock_defs)

theorem lock_mutual_exclusion_witness:
  "''k'' \<in> set (holds (lk_call sample_waiting 0)) \<and> key_unlock ''k'' (lk_locks sample_waiting) \<noteq> None"
  using lock_mutual_exclusion [OF sample_waiting_reach [of "\<lambda>_. True"], of "''k''" 0] sample_waiting_calls by simp

theorem locks_no_leak_witness:
  "kl_held (lk_locks sample_waiting) ''k'' \<noteq> None \<and> DeletionLockUsers ''k'' (lk_locks sample_waiting) = int (card {c. uses_key (lk_call sample_waiting c) ''k''})"
proof -
  have "uses_key (lk_call sample_waiting 0) ''k''" by (simp add: uses_key_def sample_waiting_calls)
  then show ?thesis using locks_no_leak [OF sample_waiting_reach [of "\<lambda>_. True"], of "''k''"] by blast
qed

theorem ordered_locks_progress_witness:
  "inj (to_nat :: string \<Rightarrow> nat) \<and> awaits (lk_call sample_waiting 1) = Some (''k'', 0)
    \<and> (\<exists>c' S'. lk_call sample_waiting c' \<noteq> LNew \<and> lock_run (in_order to_nat) c' sample_waiting S')"
proof -
  have aw: "awaits (lk_call sample_waiting 1) = Some (''k'', 0)" unfolding sample_waiting_calls(2) by simp
  have "in_order to_nat [''k'']" by (simp add: in_order_def)
  from ordered_locks_progress [OF sample_waiting_reach [of "in_order to_nat", OF this] inj_to_nat aw] aw show ?thesis using inj_to_nat by blast
qed

end
