(* ===== verification/Auth_Throttle.thy ===== *)
theory Auth_Throttle
  imports Mr_Prelude "HOL-Library.AList"
begin

text \<open>
  The throttle of password attempts, \<open>src/internal/auth/throttle.go\<close>. The entries are an association list with one
  binding per key; Go's map iteration in \<open>pruneLocked\<close> visits the keys in an unspecified order, which is an argument.
  An entry is read from the map again wherever the code goes through a pointer to it, so two keys that name the same
  entry behave as in the code. The clock is an argument of every operation: nothing below assumes that it moves
  forward.
\<close>

section \<open>Policy\<close>

definition FreeAttempts :: int where "FreeAttempts = 5"
definition LockoutBase :: duration where "LockoutBase = 30 * go_Second"
definition MaxLockout :: duration where "MaxLockout = 15 * go_Minute"
definition ForgetAfter :: duration where "ForgetAfter = 30 * go_Minute"
definition maxTrackedKeys :: nat where "maxTrackedKeys = 10000"
definition ipFreeAttempts :: int where "ipFreeAttempts = 4 * FreeAttempts"
definition noisyPairBudget :: int where "noisyPairBudget = 1"
definition maxInFlightPerPair :: int where "maxInFlightPerPair = 1"
definition maxInFlightPerIP :: int where "maxInFlightPerIP = 4"
definition busyRetry :: duration where "busyRetry = go_Second"

lemmas throttle_policy = FreeAttempts_def LockoutBase_def MaxLockout_def ForgetAfter_def ipFreeAttempts_def
  noisyPairBudget_def maxInFlightPerPair_def maxInFlightPerIP_def busyRetry_def

section \<open>Entries\<close>

record throttleEntry =
  te_failures :: int
  te_inFlight :: int
  te_lockedUntil :: go_time
  te_lastFailure :: go_time
  te_windowStart :: go_time

definition new_entry :: throttleEntry where
  "new_entry = \<lparr>te_failures = 0, te_inFlight = 0, te_lockedUntil = zero_time, te_lastFailure = zero_time, te_windowStart = zero_time\<rparr>"

type_synonym entries = "(string \<times> throttleEntry) list"

text \<open>\<open>entryLocked\<close>: the entry of a key, as it is or new.\<close>

definition entry_of :: "string \<Rightarrow> entries \<Rightarrow> throttleEntry" where
  "entry_of k t = (case map_of t k of Some e \<Rightarrow> e | None \<Rightarrow> new_entry)"

definition put :: "string \<Rightarrow> throttleEntry \<Rightarrow> entries \<Rightarrow> entries" where
  "put k e t = AList.update k e t"

definition entryLocked :: "string \<Rightarrow> entries \<Rightarrow> entries" where
  "entryLocked k t = put k (entry_of k t) t"

definition change :: "string \<Rightarrow> (throttleEntry \<Rightarrow> throttleEntry) \<Rightarrow> entries \<Rightarrow> entries" where
  "change k f t = put k (f (entry_of k t)) t"

definition forgetStaleLocked :: "go_time \<Rightarrow> throttleEntry \<Rightarrow> throttleEntry" where
  "forgetStaleLocked now e =
     (if te_failures e > 0 \<and> te_lockedUntil e \<le> now \<and> go_Sub now (te_lastFailure e) > ForgetAfter
      then e\<lparr>te_failures := 0\<rparr> else e)"

definition lockoutFor :: "int \<Rightarrow> duration" where
  "lockoutFor over = (if over \<ge> 16 then MaxLockout else min (wrap64 (push_bit (nat over) LockoutBase)) MaxLockout)"

definition dec_in_flight :: "throttleEntry \<Rightarrow> throttleEntry" where
  "dec_in_flight e = (if te_inFlight e > 0 then e\<lparr>te_inFlight := te_inFlight e - 1\<rparr> else e)"

definition release_one :: "string \<Rightarrow> entries \<Rightarrow> entries" where
  "release_one k t = (case map_of t k of Some e \<Rightarrow> put k (dec_in_flight e) t | None \<Rightarrow> t)"

definition releaseLocked :: "string \<Rightarrow> string \<Rightarrow> entries \<Rightarrow> entries" where
  "releaseLocked pairKey ipKey t =
     (let t1 = release_one pairKey t in if ipKey = [] then t1 else release_one ipKey t1)"

text \<open>\<open>pruneLocked\<close> for the order \<open>order\<close> in which the second loop meets the keys.\<close>

definition idle_unlocked :: "go_time \<Rightarrow> throttleEntry \<Rightarrow> bool" where
  "idle_unlocked now e \<longleftrightarrow> te_inFlight e = 0 \<and> te_lockedUntil e < now"

fun pruneLoop :: "string list \<Rightarrow> go_time \<Rightarrow> entries \<Rightarrow> entries" where
  "pruneLoop [] now t = t"
| "pruneLoop (k # ks) now t =
     (let t' = (case map_of t k of Some e \<Rightarrow> if idle_unlocked now e then AList.delete k t else t | None \<Rightarrow> t)
      in if length t' < maxTrackedKeys div 2 then t' else pruneLoop ks now t')"

definition pruneLocked :: "string list \<Rightarrow> go_time \<Rightarrow> entries \<Rightarrow> entries" where
  "pruneLocked order now t =
     (if length t < maxTrackedKeys div 2 then t
      else let t1 = filter (\<lambda>(k, e). \<not> (idle_unlocked now e \<and> go_Sub now (te_lastFailure e) > ForgetAfter)) t
           in if length t1 < maxTrackedKeys then t1 else pruneLoop order now t1)"

section \<open>Operations\<close>

text \<open>\<open>Reserve\<close> returns the time to wait, or \<open>None\<close> with the attempt reserved.\<close>

definition Reserve :: "string list \<Rightarrow> go_time \<Rightarrow> string \<Rightarrow> string \<Rightarrow> entries \<Rightarrow> duration option \<times> entries" where
  "Reserve order now pairKey ipKey t0 =
     (let t = change pairKey (forgetStaleLocked now) (pruneLocked order now t0);
          pair = entry_of pairKey t;
          wait = go_Sub (te_lockedUntil pair) now
      in if wait > 0 then (Some wait, t)
         else if te_inFlight pair \<ge> maxInFlightPerPair then (Some busyRetry, t)
         else if ipKey = [] then (None, change pairKey (\<lambda>e. e\<lparr>te_inFlight := te_inFlight e + 1\<rparr>) t)
         else let t1 = change ipKey (forgetStaleLocked now) t
              in if te_failures (entry_of pairKey t1) > 0 \<and> te_inFlight (entry_of ipKey t1) \<ge> maxInFlightPerIP
                 then (Some busyRetry, t1)
                 else (None, change pairKey (\<lambda>e. e\<lparr>te_inFlight := te_inFlight e + 1\<rparr>)
                        (change ipKey (\<lambda>e. e\<lparr>te_inFlight := te_inFlight e + 1\<rparr>) t1)))"

definition Succeeded :: "string \<Rightarrow> string \<Rightarrow> entries \<Rightarrow> entries" where
  "Succeeded pairKey ipKey t = AList.delete pairKey (releaseLocked pairKey ipKey t)"

definition fail_entry :: "go_time \<Rightarrow> throttleEntry \<Rightarrow> throttleEntry" where
  "fail_entry now e = e\<lparr>te_failures := te_failures e + 1, te_lastFailure := now\<rparr>"

definition lock_pair :: "go_time \<Rightarrow> int \<Rightarrow> throttleEntry \<Rightarrow> throttleEntry" where
  "lock_pair now budget e0 =
     (let e = fail_entry now e0; over = te_failures e - budget
      in if over \<ge> 0 then e\<lparr>te_lockedUntil := now + lockoutFor over\<rparr> else e)"

definition Failed :: "go_time \<Rightarrow> string \<Rightarrow> string \<Rightarrow> entries \<Rightarrow> entries" where
  "Failed now pairKey ipKey t0 =
     (let t = releaseLocked pairKey ipKey t0;
          t1 = (if ipKey = [] then t else change ipKey (fail_entry now) t);
          budget = (if ipKey \<noteq> [] \<and> te_failures (entry_of ipKey t1) \<ge> ipFreeAttempts then noisyPairBudget else FreeAttempts)
      in change pairKey (lock_pair now budget) t1)"

definition Released_attempt :: "string \<Rightarrow> string \<Rightarrow> entries \<Rightarrow> entries" where
  "Released_attempt pairKey ipKey t = releaseLocked pairKey ipKey t"

definition count_entry :: "go_time \<Rightarrow> int \<Rightarrow> duration \<Rightarrow> throttleEntry \<Rightarrow> throttleEntry" where
  "count_entry now free window e0 =
     (let e1 = (if te_windowStart e0 = zero_time \<or> go_Sub now (te_windowStart e0) \<ge> window
                then e0\<lparr>te_windowStart := now, te_failures := 0\<rparr> else e0);
          e = fail_entry now e1
      in if te_failures e \<le> free then e else e\<lparr>te_lockedUntil := te_windowStart e + window\<rparr>)"

definition CountFailure :: "string list \<Rightarrow> go_time \<Rightarrow> string \<Rightarrow> int \<Rightarrow> duration \<Rightarrow> entries \<Rightarrow> duration \<times> entries" where
  "CountFailure order now key free window t0 =
     (let t = change key (count_entry now free window) (pruneLocked order now t0);
          e = entry_of key t
      in (if te_failures e \<le> free then 0 else go_Sub (te_lockedUntil e) now, t))"

section \<open>The lockout\<close>

lemma lockoutFor_closed:
  assumes "0 \<le> over"
  shows "lockoutFor over = min (2 ^ nat over * LockoutBase) MaxLockout"
proof (cases "over \<ge> 16")
  case True
  have "(2::int) ^ 16 \<le> 2 ^ nat over" using True by (intro power_increasing) auto
  then have "MaxLockout \<le> 2 ^ nat over * LockoutBase" by (simp add: throttle_policy go_units)
  then show ?thesis using True by (simp add: lockoutFor_def)
next
  case False
  have "(2::int) ^ nat over \<le> 2 ^ 15" using False assms by (intro power_increasing) auto
  then have "2 ^ nat over * LockoutBase < 2 ^ 63" "0 \<le> 2 ^ nat over * LockoutBase" by (simp_all add: LockoutBase_def go_units)
  then have "wrap64 (2 ^ nat over * LockoutBase) = 2 ^ nat over * LockoutBase" by (intro wrap64_id) auto
  then show ?thesis using False by (simp add: lockoutFor_def push_bit_eq_mult mult.commute)
qed

lemma lockoutFor_mono: "0 \<le> i \<Longrightarrow> i \<le> j \<Longrightarrow> lockoutFor i \<le> lockoutFor j"
proof -
  assume ij: "0 \<le> i" "i \<le> j"
  then have "(2::int) ^ nat i \<le> 2 ^ nat j" by (intro power_increasing) auto
  then have "2 ^ nat i * LockoutBase \<le> 2 ^ nat j * LockoutBase" by (simp add: LockoutBase_def go_units)
  then show ?thesis using ij by (simp add: lockoutFor_closed min_le_iff_disj)
qed

section \<open>The map\<close>

lemma entry_of_put [simp]: "entry_of k (put k' e t) = (if k = k' then e else entry_of k t)"
  by (simp add: entry_of_def put_def update_conv)

lemma entry_of_change [simp]: "entry_of k (change k' f t) = (if k = k' then f (entry_of k' t) else entry_of k t)"
  by (simp add: change_def)

lemma entry_of_delete [simp]: "entry_of k (AList.delete k' t) = (if k = k' then new_entry else entry_of k t)"
  by (simp add: entry_of_def delete_conv)

lemma dec_new [simp]: "dec_in_flight new_entry = new_entry"
  by (simp add: dec_in_flight_def new_entry_def)

lemma entry_of_release_one [simp]:
  "entry_of k (release_one k' t) = (if k = k' then dec_in_flight (entry_of k t) else entry_of k t)"
  by (auto simp: release_one_def entry_of_def put_def update_conv split: option.splits)

lemma entry_of_release:
  "entry_of k (releaseLocked p i t) =
    (let e = (if k = p then dec_in_flight (entry_of k t) else entry_of k t)
     in if i \<noteq> [] \<and> k = i then dec_in_flight e else e)"
  by (simp add: releaseLocked_def Let_def)

text \<open>Pruning drops entries that have no attempt in flight and are not locked, and keeps the others.\<close>

lemma entry_of_pruneLoop:
  "entry_of k (pruneLoop ks now t) = entry_of k t \<or> entry_of k (pruneLoop ks now t) = new_entry \<and> idle_unlocked now (entry_of k t)"
proof (induction ks now t rule: pruneLoop.induct)
  case (2 k' ks now t)
  let ?t = "case map_of t k' of Some e \<Rightarrow> if idle_unlocked now e then AList.delete k' t else t | None \<Rightarrow> t"
  have t: "entry_of k ?t = entry_of k t \<or> entry_of k ?t = new_entry \<and> idle_unlocked now (entry_of k t)"
    by (auto simp: entry_of_def delete_conv split: option.splits)
  show ?case
  proof (cases "length ?t < maxTrackedKeys div 2")
    case True
    then show ?thesis using t by (simp add: Let_def)
  next
    case False
    from "2.IH" [OF refl False] t False show ?thesis by (auto simp: Let_def)
  qed
qed simp

lemma map_of_filter_value:
  assumes "distinct (map fst t)"
  shows "map_of (filter (\<lambda>(k, e). P e) t) k = (case map_of t k of Some e \<Rightarrow> if P e then Some e else None | None \<Rightarrow> None)"
  using assms
proof (induction t)
  case (Cons a t)
  obtain k' e where a: "a = (k', e)" by (cases a)
  have IH: "map_of (filter (\<lambda>(k, e). P e) t) k = (case map_of t k of Some e \<Rightarrow> if P e then Some e else None | None \<Rightarrow> None)"
    by (rule Cons.IH) (use Cons.prems in simp)
  show ?case
  proof (cases "k = k'")
    case True
    have "map_of t k = None" using Cons.prems a True by (simp add: map_of_eq_None_iff)
    with True IH a show ?thesis by simp
  qed (use IH a in simp)
qed simp

lemma entry_of_prune:
  assumes "distinct (map fst t)"
  shows "entry_of k (pruneLocked order now t) = entry_of k t
    \<or> entry_of k (pruneLocked order now t) = new_entry \<and> idle_unlocked now (entry_of k t)"
proof -
  let ?f = "filter (\<lambda>(k, e). \<not> (idle_unlocked now e \<and> go_Sub now (te_lastFailure e) > ForgetAfter)) t"
  have f: "entry_of k ?f = entry_of k t \<or> entry_of k ?f = new_entry \<and> idle_unlocked now (entry_of k t)"
    unfolding entry_of_def map_of_filter_value [OF assms] by (auto split: option.splits)
  then show ?thesis using entry_of_pruneLoop [of k order now ?f] by (auto simp: pruneLocked_def Let_def)
qed

lemma distinct_pruneLoop: "distinct (map fst t) \<Longrightarrow> distinct (map fst (pruneLoop ks now t))"
  by (induction ks now t rule: pruneLoop.induct) (auto simp: Let_def distinct_delete split: option.splits)

lemma distinct_prune: "distinct (map fst t) \<Longrightarrow> distinct (map fst (pruneLocked order now t))"
  by (auto simp: pruneLocked_def Let_def distinct_map_filter intro!: distinct_pruneLoop)

lemma distinct_change: "distinct (map fst t) \<Longrightarrow> distinct (map fst (change k f t))"
  by (simp add: change_def put_def distinct_update)

lemma distinct_release: "distinct (map fst t) \<Longrightarrow> distinct (map fst (releaseLocked p i t))"
  by (auto simp: releaseLocked_def release_one_def put_def distinct_update Let_def split: option.splits)

section \<open>Attempts\<close>

text \<open>The keys of the callers: pairs of address and user name or users, and addresses.\<close>

definition isPairKey :: "string \<Rightarrow> bool" where
  "isPairKey k \<longleftrightarrow> take 6 k = ''login|'' \<or> take 9 k = ''password|''"

definition isIPKey :: "string \<Rightarrow> bool" where
  "isIPKey k \<longleftrightarrow> take 3 k = ''ip|''"

lemma pair_not_ip: "isPairKey k \<Longrightarrow> \<not> isIPKey k"
proof -
  have a: "take 3 (take 6 k) = take 3 k" "take 3 (take 9 k) = take 3 k" by simp_all
  have "take 3 k = ''log''" if "take 6 k = ''login|''" using a(1) unfolding that by simp
  moreover have "take 3 k = ''pas''" if "take 9 k = ''password|''" using a(2) unfolding that by simp
  ultimately show "isPairKey k \<Longrightarrow> \<not> isIPKey k" by (auto simp: isPairKey_def isIPKey_def)
qed

lemma pair_not_empty [simp]: "\<not> isPairKey []" by (simp add: isPairKey_def)

datatype attempt = AttNone | AttPending string string | AttOver

record throttle_state =
  th_entries :: entries
  th_att :: "nat \<Rightarrow> attempt"

definition set_att :: "nat \<Rightarrow> attempt \<Rightarrow> entries \<Rightarrow> throttle_state \<Rightarrow> throttle_state" where
  "set_att c x t S = S\<lparr>th_att := (th_att S)(c := x), th_entries := t\<rparr>"

text \<open>A step at the time its clock reading gives; the readings of later steps need not be later.\<close>

inductive throttle_step :: "go_time \<Rightarrow> throttle_state \<Rightarrow> throttle_state \<Rightarrow> bool" for now where
  TReserve: "th_att S c = AttNone \<Longrightarrow> isPairKey p \<Longrightarrow> i = [] \<or> isIPKey i \<Longrightarrow> Reserve order now p i (th_entries S) = (None, t)
    \<Longrightarrow> throttle_step now S (set_att c (AttPending p i) t S)"
| TRefuse: "isPairKey p \<Longrightarrow> i = [] \<or> isIPKey i \<Longrightarrow> Reserve order now p i (th_entries S) = (Some w, t)
    \<Longrightarrow> throttle_step now S (S\<lparr>th_entries := t\<rparr>)"
| TSucceed: "th_att S c = AttPending p i \<Longrightarrow> throttle_step now S (set_att c AttOver (Succeeded p i (th_entries S)) S)"
| TFail: "th_att S c = AttPending p i \<Longrightarrow> throttle_step now S (set_att c AttOver (Failed now p i (th_entries S)) S)"
| TRelease: "th_att S c = AttPending p i \<Longrightarrow> throttle_step now S (set_att c AttOver (Released_attempt p i (th_entries S)) S)"
| TCount: "\<not> isPairKey k \<Longrightarrow> \<not> isIPKey k \<Longrightarrow> CountFailure order now k free window (th_entries S) = (w, t)
    \<Longrightarrow> throttle_step now S (S\<lparr>th_entries := t\<rparr>)"

inductive throttle_reach :: "throttle_state \<Rightarrow> bool" where
  throttle_init: "throttle_reach \<lparr>th_entries = [], th_att = (\<lambda>_. AttNone)\<rparr>"
| throttle_next: "throttle_reach S \<Longrightarrow> throttle_step now S S' \<Longrightarrow> throttle_reach S'"

section \<open>Invariant\<close>

definition flight :: "(nat \<Rightarrow> attempt) \<Rightarrow> string \<Rightarrow> nat set" where
  "flight f k = {c. \<exists>p i. f c = AttPending p i \<and> (k = p \<or> i \<noteq> [] \<and> k = i)}"

text \<open>What holds of one entry with \<open>n\<close> attempts in flight.\<close>

definition entry_ok :: "string \<Rightarrow> nat \<Rightarrow> throttleEntry \<Rightarrow> bool" where
  "entry_ok k n e \<longleftrightarrow> te_inFlight e = int n \<and> 0 \<le> te_failures e
     \<and> (isPairKey k \<longrightarrow> n \<le> 1 \<and> (FreeAttempts \<le> te_failures e \<longrightarrow>
          te_lastFailure e + lockoutFor (te_failures e - FreeAttempts) \<le> te_lockedUntil e))"

definition throttle_inv :: "throttle_state \<Rightarrow> bool" where
  "throttle_inv S \<longleftrightarrow> distinct (map fst (th_entries S))
     \<and> (\<forall>c p i. th_att S c = AttPending p i \<longrightarrow> isPairKey p \<and> (i = [] \<or> isIPKey i))
     \<and> (\<forall>k. finite (flight (th_att S) k) \<and> entry_ok k (card (flight (th_att S) k)) (entry_of k (th_entries S)))"

lemma entry_ok_new: "entry_ok k 0 new_entry"
  by (simp add: entry_ok_def new_entry_def FreeAttempts_def)

lemma entry_ok_forget: "entry_ok k n e \<Longrightarrow> entry_ok k n (forgetStaleLocked now e)"
  by (auto simp: entry_ok_def forgetStaleLocked_def FreeAttempts_def)

lemma entry_ok_prune:
  assumes "entry_ok k n (entry_of k t)" "distinct (map fst t)"
  shows "entry_ok k n (entry_of k (pruneLocked order now t))"
  using entry_of_prune [OF assms(2), of k order now] assms(1) entry_ok_new [of k]
  by (auto simp: idle_unlocked_def entry_ok_def)

lemma entry_ok_enter:
  "entry_ok k n e \<Longrightarrow> (isPairKey k \<Longrightarrow> te_inFlight e < maxInFlightPerPair) \<Longrightarrow> entry_ok k (n + 1) (e\<lparr>te_inFlight := te_inFlight e + 1\<rparr>)"
  by (auto simp: entry_ok_def maxInFlightPerPair_def)

lemma entry_ok_leave: "entry_ok k n e \<Longrightarrow> 0 < n \<Longrightarrow> entry_ok k (n - 1) (dec_in_flight e)"
  by (auto simp: entry_ok_def dec_in_flight_def of_nat_diff)

lemma entry_ok_fail_other: "entry_ok k n e \<Longrightarrow> \<not> isPairKey k \<Longrightarrow> entry_ok k n (fail_entry now e)"
  by (auto simp: entry_ok_def fail_entry_def)

lemma entry_ok_lock_pair:
  assumes "entry_ok k n e" "budget = FreeAttempts \<or> budget = noisyPairBudget"
  shows "entry_ok k n (lock_pair now budget e)"
proof -
  have "lockoutFor (te_failures e + 1 - FreeAttempts) \<le> lockoutFor (te_failures e + 1 - budget)" if "FreeAttempts \<le> te_failures e + 1"
    using that assms(2) by (intro lockoutFor_mono) (auto simp: throttle_policy)
  then show ?thesis using assms by (auto simp: entry_ok_def lock_pair_def fail_entry_def Let_def throttle_policy)
qed

lemma entry_ok_count:
  assumes "entry_ok k n e" "\<not> isPairKey k"
  shows "entry_ok k n (count_entry now free window e)"
  using assms by (auto simp: entry_ok_def count_entry_def fail_entry_def Let_def)

lemma entry_ok_change:
  assumes "entry_ok k n (entry_of k t)" "k = k' \<Longrightarrow> entry_ok k n (f (entry_of k t))"
  shows "entry_ok k n (entry_of k (change k' f t))"
  using assms by auto

text \<open>An attempt that ends leaves the entries of its keys with one attempt less.\<close>

lemma flight_end:
  assumes "th_att S c = AttPending p i" "isPairKey p" "i = [] \<or> isIPKey i"
  shows "flight ((th_att S)(c := AttOver)) k = (if k = p \<or> i \<noteq> [] \<and> k = i then flight (th_att S) k - {c} else flight (th_att S) k)"
    "k = p \<or> i \<noteq> [] \<and> k = i \<Longrightarrow> c \<in> flight (th_att S) k"
  using assms by (auto simp: flight_def)

lemma throttle_invD:
  assumes "throttle_inv S"
  shows "distinct (map fst (th_entries S))" "th_att S c = AttPending p i \<Longrightarrow> isPairKey p \<and> (i = [] \<or> isIPKey i)"
    "finite (flight (th_att S) k)" "entry_ok k (card (flight (th_att S) k)) (entry_of k (th_entries S))"
  using assms unfolding throttle_inv_def by blast+

lemma inv_end:
  assumes inv: "throttle_inv S" and c: "th_att S c = AttPending p i"
    and d: "distinct (map fst t)"
    and t: "\<And>k n. entry_ok k n (entry_of k (releaseLocked p i (th_entries S))) \<Longrightarrow> n = card (flight ((th_att S)(c := AttOver)) k)
      \<Longrightarrow> entry_ok k n (entry_of k t)"
  shows "throttle_inv (set_att c AttOver t S)"
proof -
  note v = throttle_invD [OF inv]
  have keys: "isPairKey p" "i = [] \<or> isIPKey i" using v(2) [OF c] by auto
  note fe = flight_end [OF c keys]
  have "finite (flight ((th_att S)(c := AttOver)) k) \<and> entry_ok k (card (flight ((th_att S)(c := AttOver)) k)) (entry_of k t)" for k
  proof (intro conjI t [OF _ refl])
    show "finite (flight ((th_att S)(c := AttOver)) k)" using v(3) [of k] by (simp add: fe(1))
    show "entry_ok k (card (flight ((th_att S)(c := AttOver)) k)) (entry_of k (releaseLocked p i (th_entries S)))"
    proof (cases "k = p \<or> i \<noteq> [] \<and> k = i")
      case True
      then have in_fl: "c \<in> flight (th_att S) k" by (rule fe(2))
      then have pos: "0 < card (flight (th_att S) k)" using v(3) [of k] by (auto simp: card_gt_0_iff)
      have "p \<noteq> i" using keys pair_not_ip by auto
      then have "entry_of k (releaseLocked p i (th_entries S)) = dec_in_flight (entry_of k (th_entries S))"
        using True by (auto simp: entry_of_release Let_def)
      then show ?thesis using entry_ok_leave [OF v(4) pos] True in_fl v(3) [of k] by (simp add: fe(1))
    next
      case False
      then show ?thesis using v(4) [of k] by (auto simp: fe(1) entry_of_release Let_def)
    qed
  qed
  moreover have "\<forall>d p' i'. ((th_att S)(c := AttOver)) d = AttPending p' i' \<longrightarrow> isPairKey p' \<and> (i' = [] \<or> isIPKey i')"
    using v(2) by auto
  ultimately show ?thesis using d unfolding throttle_inv_def set_att_def by simp
qed

text \<open>What \<open>Reserve\<close> does, by its three outcomes.\<close>

definition looked_up :: "string list \<Rightarrow> go_time \<Rightarrow> string \<Rightarrow> entries \<Rightarrow> entries" where
  "looked_up order now p t = change p (forgetStaleLocked now) (pruneLocked order now t)"

lemma Reserve_cases:
  obtains (wait) w where "Reserve order now p i t = (Some w, looked_up order now p t)"
      "0 < go_Sub (te_lockedUntil (entry_of p (looked_up order now p t))) now
       \<or> maxInFlightPerPair \<le> te_inFlight (entry_of p (looked_up order now p t))"
  | (busy) "Reserve order now p i t = (Some busyRetry, change i (forgetStaleLocked now) (looked_up order now p t))"
      "i \<noteq> []" "0 < te_failures (entry_of p (change i (forgetStaleLocked now) (looked_up order now p t)))"
      "maxInFlightPerIP \<le> te_inFlight (entry_of i (change i (forgetStaleLocked now) (looked_up order now p t)))"
  | (ok) "Reserve order now p i t = (None, change p (\<lambda>e. e\<lparr>te_inFlight := te_inFlight e + 1\<rparr>)
        (if i = [] then looked_up order now p t
         else change i (\<lambda>e. e\<lparr>te_inFlight := te_inFlight e + 1\<rparr>) (change i (forgetStaleLocked now) (looked_up order now p t))))"
      "te_lockedUntil (entry_of p (looked_up order now p t)) \<le> now" "te_inFlight (entry_of p (looked_up order now p t)) < maxInFlightPerPair"
proof -
  let ?t = "looked_up order now p t"
  consider "0 < go_Sub (te_lockedUntil (entry_of p ?t)) now" | "\<not> 0 < go_Sub (te_lockedUntil (entry_of p ?t)) now" "maxInFlightPerPair \<le> te_inFlight (entry_of p ?t)"
    | "\<not> 0 < go_Sub (te_lockedUntil (entry_of p ?t)) now" "\<not> maxInFlightPerPair \<le> te_inFlight (entry_of p ?t)" by blast
  then show ?thesis
  proof cases
    case 1
    then show ?thesis by (intro wait) (simp_all add: Reserve_def Let_def looked_up_def)
  next
    case 2
    then show ?thesis by (intro wait) (simp_all add: Reserve_def Let_def looked_up_def)
  next
    case 3
    have now: "te_lockedUntil (entry_of p ?t) \<le> now" using 3(1) go_Sub_gt_iff [of 0 "te_lockedUntil (entry_of p ?t)" now] by simp
    let ?t1 = "change i (forgetStaleLocked now) ?t"
    show ?thesis
    proof (cases "i \<noteq> [] \<and> te_failures (entry_of p ?t1) > 0 \<and> te_inFlight (entry_of i ?t1) \<ge> maxInFlightPerIP")
      case True
      show ?thesis by (rule busy) (use True 3 in \<open>simp_all add: Reserve_def Let_def looked_up_def\<close>)
    next
      case False
      show ?thesis
        by (rule ok) (use False 3 now in \<open>auto simp: Reserve_def Let_def looked_up_def\<close>)
    qed
  qed
qed

lemma looked_up_ok:
  assumes "throttle_inv S"
  shows "entry_ok k (card (flight (th_att S) k)) (entry_of k (looked_up order now p (th_entries S)))"
    "distinct (map fst (looked_up order now p (th_entries S)))"
proof -
  note v = throttle_invD [OF assms]
  have pr: "entry_ok k (card (flight (th_att S) k)) (entry_of k (pruneLocked order now (th_entries S)))" for k
    by (rule entry_ok_prune [OF v(4) v(1)])
  show "entry_ok k (card (flight (th_att S) k)) (entry_of k (looked_up order now p (th_entries S)))"
    unfolding looked_up_def by (rule entry_ok_change [OF pr]) (use pr entry_ok_forget in blast)
  show "distinct (map fst (looked_up order now p (th_entries S)))"
    unfolding looked_up_def by (intro distinct_change distinct_prune v(1))
qed

lemma inv_entries:
  assumes "throttle_inv S" "distinct (map fst t)" "\<And>k. entry_ok k (card (flight (th_att S) k)) (entry_of k t)"
  shows "throttle_inv (S\<lparr>th_entries := t\<rparr>)"
  using assms unfolding throttle_inv_def by simp

lemma inv_reserved:
  assumes inv: "throttle_inv S" and c: "th_att S c = AttNone" and keys: "isPairKey p" "i = [] \<or> isIPKey i"
    and r: "Reserve order now p i (th_entries S) = (None, t)"
  shows "throttle_inv (set_att c (AttPending p i) t S)"
proof -
  note v = throttle_invD [OF inv]
  let ?t = "looked_up order now p (th_entries S)"
  let ?e = "\<lambda>e. e\<lparr>te_inFlight := te_inFlight e + 1\<rparr>"
  from r obtain fl: "te_inFlight (entry_of p ?t) < maxInFlightPerPair"
    and t: "t = change p ?e (if i = [] then ?t else change i ?e (change i (forgetStaleLocked now) ?t))"
    by (cases rule: Reserve_cases [of order now p i "th_entries S"]) auto
  have pi: "p \<noteq> i" using keys pair_not_ip by auto
  note ok = looked_up_ok [OF inv, where order = order and now = now and p = p]
  have f: "flight ((th_att S)(c := AttPending p i)) k = (if k = p \<or> i \<noteq> [] \<and> k = i then insert c (flight (th_att S) k) else flight (th_att S) k)"
    "c \<notin> flight (th_att S) k" for k using c by (auto simp: flight_def)
  have "finite (flight ((th_att S)(c := AttPending p i)) k)
    \<and> entry_ok k (card (flight ((th_att S)(c := AttPending p i)) k)) (entry_of k t)" for k
  proof
    show "finite (flight ((th_att S)(c := AttPending p i)) k)" using v(3) [of k] by (simp add: f(1))
    consider "k = p" | "i \<noteq> []" "k = i" "k \<noteq> p" | "k \<noteq> p" "\<not> (i \<noteq> [] \<and> k = i)" by blast
    then show "entry_ok k (card (flight ((th_att S)(c := AttPending p i)) k)) (entry_of k t)"
    proof cases
      case 1
      then have "entry_of k t = ?e (entry_of k ?t)" using pi t by auto
      then show ?thesis using entry_ok_enter [OF ok(1) [of k]] fl 1 v(3) [of k] f(2) [of k] by (simp add: f(1))
    next
      case 2
      then have "entry_of k t = ?e (forgetStaleLocked now (entry_of k ?t))" using t by auto
      moreover have "\<not> isPairKey k" using 2 keys pair_not_ip by auto
      ultimately show ?thesis using entry_ok_enter [OF entry_ok_forget [OF ok(1) [of k]]] 2 v(3) [of k] f(2) [of k] by (simp add: f(1))
    next
      case 3
      then have "entry_of k t = entry_of k ?t" using t by auto
      then show ?thesis using ok(1) [of k] 3 by (auto simp: f(1))
    qed
  qed
  moreover have "distinct (map fst t)" unfolding t using ok(2) by (auto intro!: distinct_change)
  moreover have "\<forall>d p' i'. ((th_att S)(c := AttPending p i)) d = AttPending p' i' \<longrightarrow> isPairKey p' \<and> (i' = [] \<or> isIPKey i')"
    using v(2) keys by auto
  ultimately show ?thesis unfolding throttle_inv_def set_att_def by simp
qed

lemma inv_refused:
  assumes inv: "throttle_inv S" and r: "Reserve order now p i (th_entries S) = (Some w, t)"
  shows "throttle_inv (S\<lparr>th_entries := t\<rparr>)"
proof -
  note ok = looked_up_ok [OF inv, where order = order and now = now and p = p]
  have "entry_ok k (card (flight (th_att S) k)) (entry_of k (change i (forgetStaleLocked now) (looked_up order now p (th_entries S))))" for k
    by (rule entry_ok_change [OF ok(1)]) (use ok(1) entry_ok_forget in blast)
  then show ?thesis using r ok
    by (cases rule: Reserve_cases [of order now p i "th_entries S"]) (auto intro!: inv_entries [OF inv] distinct_change simp del: entry_of_change)
qed

lemma throttle_step_inv: "throttle_step now S S' \<Longrightarrow> throttle_inv S \<Longrightarrow> throttle_inv S'"
proof (induction rule: throttle_step.induct)
  case (TReserve S c p i order t)
  then show ?case by (intro inv_reserved) auto
next
  case (TRefuse p i order S w t)
  then show ?case by (intro inv_refused)
next
  case (TSucceed S c p i)
  note v = throttle_invD [OF TSucceed.prems]
  have keys: "isPairKey p" "i = [] \<or> isIPKey i" using v(2) [OF TSucceed.hyps] by auto
  have "card (flight (th_att S) p) \<le> 1" using v(4) [of p] keys by (simp add: entry_ok_def)
  moreover have "c \<in> flight (th_att S) p" using TSucceed.hyps by (auto simp: flight_def)
  ultimately have "flight (th_att S) p = {c}" using v(3) [of p] by (metis card_le_Suc0_iff_eq One_nat_def singletonI subsetI subset_antisym singletonD)
  then have none: "flight ((th_att S)(c := AttOver)) p = {}" using flight_end(1) [OF TSucceed.hyps keys, of p] by simp
  show ?case
  proof (rule inv_end [OF TSucceed.prems TSucceed.hyps])
    show "distinct (map fst (Succeeded p i (th_entries S)))" unfolding Succeeded_def by (intro distinct_delete distinct_release v(1))
    show "entry_ok k n (entry_of k (Succeeded p i (th_entries S)))"
      if "entry_ok k n (entry_of k (releaseLocked p i (th_entries S)))" "n = card (flight ((th_att S)(c := AttOver)) k)" for k n
      using that none entry_ok_new by (auto simp: Succeeded_def)
  qed
next
  case (TFail S c p i)
  note v = throttle_invD [OF TFail.prems]
  have keys: "isPairKey p" "i = [] \<or> isIPKey i" using v(2) [OF TFail.hyps] by auto
  show ?case
  proof (rule inv_end [OF TFail.prems TFail.hyps])
    show "distinct (map fst (Failed now p i (th_entries S)))"
      unfolding Failed_def Let_def by (auto intro!: distinct_change distinct_release v(1))
    show "entry_ok k n (entry_of k (Failed now p i (th_entries S)))"
      if e: "entry_ok k n (entry_of k (releaseLocked p i (th_entries S)))" "n = card (flight ((th_att S)(c := AttOver)) k)" for k n
    proof -
      let ?t1 = "if i = [] then releaseLocked p i (th_entries S) else change i (fail_entry now) (releaseLocked p i (th_entries S))"
      have t1: "entry_ok k n (entry_of k ?t1)"
        using e(1) keys entry_ok_fail_other [OF e(1)] pair_not_ip by auto
      show ?thesis unfolding Failed_def Let_def
        by (rule entry_ok_change [OF t1], rule entry_ok_lock_pair [OF t1]) simp
    qed
  qed
next
  case (TRelease S c p i)
  note v = throttle_invD [OF TRelease.prems]
  show ?case
    by (rule inv_end [OF TRelease.prems TRelease.hyps]) (auto simp: Released_attempt_def intro: distinct_release v(1))
next
  case (TCount k order free window S w t)
  note v = throttle_invD [OF TCount.prems]
  have t: "t = change k (count_entry now free window) (pruneLocked order now (th_entries S))"
    using TCount.hyps(3) by (auto simp: CountFailure_def Let_def)
  have pr: "entry_ok k' (card (flight (th_att S) k')) (entry_of k' (pruneLocked order now (th_entries S)))" for k'
    by (rule entry_ok_prune [OF v(4) v(1)])
  show ?case unfolding t
  proof (rule inv_entries [OF TCount.prems])
    show "distinct (map fst (change k (count_entry now free window) (pruneLocked order now (th_entries S))))"
      by (intro distinct_change distinct_prune v(1))
    show "entry_ok k' (card (flight (th_att S) k')) (entry_of k' (change k (count_entry now free window) (pruneLocked order now (th_entries S))))" for k'
      by (rule entry_ok_change [OF pr]) (use pr entry_ok_count TCount.hyps(1) in blast)
  qed
qed

lemma throttle_reach_inv: "throttle_reach S \<Longrightarrow> throttle_inv S"
proof (induction rule: throttle_reach.induct)
  case throttle_init
  show ?case using entry_ok_new by (simp add: throttle_inv_def flight_def entry_of_def)
qed (rule throttle_step_inv)

section \<open>Properties\<close>

text \<open>While a pair is locked, no step whose clock shows an earlier time unlocks it or reserves an attempt for it.\<close>

definition locked_until :: "string \<Rightarrow> go_time \<Rightarrow> throttle_state \<Rightarrow> bool" where
  "locked_until p until S \<longleftrightarrow> te_lockedUntil (entry_of p (th_entries S)) = until \<and> (\<forall>c i. th_att S c \<noteq> AttPending p i)"

lemma prune_locked:
  "distinct (map fst t) \<Longrightarrow> now < te_lockedUntil (entry_of k t) \<Longrightarrow> entry_of k (pruneLocked order now t) = entry_of k t"
  using entry_of_prune [of t k order now] by (auto simp: idle_unlocked_def)

lemma forget_locked [simp]: "te_lockedUntil (forgetStaleLocked now e) = te_lockedUntil e"
  by (simp add: forgetStaleLocked_def)

lemma looked_up_locked:
  assumes "distinct (map fst t)" "now < te_lockedUntil (entry_of k t)"
  shows "te_lockedUntil (entry_of k (looked_up order now p t)) = te_lockedUntil (entry_of k t)"
  using prune_locked [OF assms, of order] by (auto simp: looked_up_def)

lemma release_locked: "te_lockedUntil (entry_of k (releaseLocked p i t)) = te_lockedUntil (entry_of k t)"
  by (simp add: entry_of_release Let_def dec_in_flight_def)

lemma locked_refused:
  assumes "throttle_inv S" "locked_until p until S" "now < until"
  shows "\<exists>t. Reserve order now p i (th_entries S) = (Some (go_Sub until now), t)"
proof -
  have "te_lockedUntil (entry_of p (looked_up order now p (th_entries S))) = until"
    using looked_up_locked [OF throttle_invD(1) [OF assms(1)]] assms(2,3) by (simp add: locked_until_def)
  moreover have "0 < go_Sub until now" using assms(3) go_Sub_gt_iff [of 0 until now] by simp
  ultimately show ?thesis by (simp add: Reserve_def Let_def looked_up_def)
qed

lemma locked_step:
  assumes inv: "throttle_inv S" and l: "locked_until p until S" and p: "isPairKey p" and now: "now < until" and st: "throttle_step now S S'"
  shows "locked_until p until S'"
proof -
  note v = throttle_invD [OF inv]
  have lu: "te_lockedUntil (entry_of p (th_entries S)) = until" and nf: "\<And>c i. th_att S c \<noteq> AttPending p i" using l by (auto simp: locked_until_def)
  have up: "te_lockedUntil (entry_of p (looked_up order now q (th_entries S))) = until" for order q
    using looked_up_locked [OF v(1)] lu now by simp
  from st show ?thesis
  proof cases
    case (TReserve c q i order t)
    have "q \<noteq> p" using locked_refused [OF inv l now, of order i] TReserve(5) by auto
    moreover have "p \<noteq> i" using TReserve(4) p pair_not_ip by auto
    ultimately have "te_lockedUntil (entry_of p t) = until"
      using TReserve(5) up by (cases rule: Reserve_cases [of order now q i "th_entries S"]) auto
    then show ?thesis using nf TReserve(1) \<open>q \<noteq> p\<close> by (auto simp: locked_until_def set_att_def)
  next
    case (TRefuse q i order w t)
    have "te_lockedUntil (entry_of p t) = until"
      using TRefuse(4) up by (cases rule: Reserve_cases [of order now q i "th_entries S"]) auto
    then show ?thesis using nf TRefuse(1) by (auto simp: locked_until_def)
  next
    case (TSucceed c q i)
    have "q \<noteq> p" using TSucceed(2) nf by auto
    then show ?thesis using nf lu TSucceed(1) by (auto simp: locked_until_def set_att_def Succeeded_def release_locked)
  next
    case (TFail c q i)
    have "q \<noteq> p" using TFail(2) nf by auto
    moreover have "p \<noteq> i" using v(2) [OF TFail(2)] p pair_not_ip by auto
    ultimately show ?thesis using nf lu TFail(1) by (auto simp: locked_until_def set_att_def Failed_def Let_def release_locked)
  next
    case (TRelease c q i)
    then show ?thesis using nf lu by (auto simp: locked_until_def set_att_def Released_attempt_def release_locked)
  next
    case (TCount k order free window w t)
    have "entry_of p t = entry_of p (th_entries S)"
      using TCount(2,4) p prune_locked [OF v(1), of now p order] lu now by (auto simp: CountFailure_def Let_def)
    then show ?thesis using nf lu TCount(1) by (simp add: locked_until_def)
  qed
qed

lemma locked_run:
  assumes "(\<lambda>T T'. \<exists>now < until. throttle_step now T T')\<^sup>*\<^sup>* S S'" "throttle_inv S" "locked_until p until S" "isPairKey p"
  shows "throttle_inv S' \<and> locked_until p until S'"
  using assms(1)
proof (induction rule: rtranclp_induct)
  case (step T T')
  then show ?case using locked_step [OF _ _ assms(4)] throttle_step_inv by blast
qed (use assms in simp)

text \<open>Failing locks.\<close>

lemma failed_locks:
  assumes inv: "throttle_inv S" and c: "th_att S c = AttPending p i"
    and budget: "budget = (if i \<noteq> [] \<and> ipFreeAttempts \<le> te_failures (entry_of i (Failed t0 p i (th_entries S))) then noisyPairBudget else FreeAttempts)"
    and over: "budget \<le> te_failures (entry_of p (Failed t0 p i (th_entries S)))"
  shows "locked_until p (t0 + min (2 ^ nat (te_failures (entry_of p (Failed t0 p i (th_entries S))) - budget) * LockoutBase) MaxLockout)
     (set_att c AttOver (Failed t0 p i (th_entries S)) S)"
proof -
  note v = throttle_invD [OF inv]
  have keys: "isPairKey p" "i = [] \<or> isIPKey i" using v(2) [OF c] by auto
  then have pi: "i \<noteq> [] \<Longrightarrow> i \<noteq> p" using pair_not_ip by auto
  have "card (flight (th_att S) p) \<le> 1" using v(4) [of p] keys by (simp add: entry_ok_def)
  then have "d = c" if "th_att S d = AttPending p i'" for d i'
    using that c v(3) [of p] by (auto simp: flight_def card_le_Suc0_iff_eq)
  then have nf: "\<forall>d i'. ((th_att S)(c := AttOver)) d \<noteq> AttPending p i'" by auto
  let ?t = "releaseLocked p i (th_entries S)"
  let ?t1 = "if i = [] then ?t else change i (fail_entry t0) ?t"
  have F: "Failed t0 p i (th_entries S) = change p (lock_pair t0 budget) ?t1"
    unfolding budget Failed_def Let_def using pi by (auto simp: lock_pair_def Let_def)
  have e: "entry_of p (Failed t0 p i (th_entries S)) = lock_pair t0 budget (entry_of p ?t1)"
    unfolding F by (subst entry_of_change) (simp only: if_True simp_thms)
  have "te_lockedUntil (lock_pair t0 budget x) = t0 + lockoutFor (te_failures (lock_pair t0 budget x) - budget)"
    if "budget \<le> te_failures (lock_pair t0 budget x)" for x
    using that by (simp add: lock_pair_def fail_entry_def Let_def split: if_splits)
  from this [OF over [unfolded e]] have "te_lockedUntil (entry_of p (Failed t0 p i (th_entries S)))
      = t0 + lockoutFor (te_failures (entry_of p (Failed t0 p i (th_entries S))) - budget)" unfolding e .
  then show ?thesis using over nf by (simp add: locked_until_def set_att_def lockoutFor_closed)
qed

text \<open>C17: a lockout holds. When a failed attempt brings the failures of its pair to the budget (five, or one while the address has
  twenty or more recent failures), the pair is locked for 30 seconds, doubled for every failure beyond the budget, at most 15 minutes. Until
  then, whatever other requests, endings of attempts and prunings happen, every attempt for the pair is refused
  with the time that is left, whatever address it names, and none is in flight.\<close>

theorem throttle_lockout_holds:
  assumes "throttle_reach S" "th_att S c = AttPending p i" "t = Failed t0 p i (th_entries S)"
    and "budget = (if i \<noteq> [] \<and> ipFreeAttempts \<le> te_failures (entry_of i t) then noisyPairBudget else FreeAttempts)"
    and "budget \<le> te_failures (entry_of p t)" "until = t0 + min (2 ^ nat (te_failures (entry_of p t) - budget) * LockoutBase) MaxLockout"
    and "(\<lambda>T T'. \<exists>now < until. throttle_step now T T')\<^sup>*\<^sup>* (set_att c AttOver t S) S'" "now < until"
  shows "(\<exists>t'. Reserve order now p i' (th_entries S') = (Some (go_Sub until now), t')) \<and> (\<forall>d i'. th_att S' d \<noteq> AttPending p i')"
proof -
  note inv = throttle_reach_inv [OF assms(1)]
  have p: "isPairKey p" using throttle_invD(2) [OF inv assms(2)] by blast
  have l: "locked_until p until (set_att c AttOver t S)"
    unfolding assms(6) using failed_locks [OF inv assms(2), of budget t0] assms(3-5) by simp
  have "throttle_inv (set_att c AttOver t S)" unfolding assms(3) by (rule throttle_step_inv [OF TFail [OF assms(2)] inv])
  from locked_run [OF assms(7) this l p] have "throttle_inv S'" "locked_until p until S'" by simp_all
  then show ?thesis using locked_refused [OF _ _ assms(8)] by (auto simp: locked_until_def)
qed

text \<open>C19: who is admitted. In every state the throttle can reach, an attempt is reserved exactly when its pair is not locked, no
  attempt of the pair is in flight, and the pair has no recent failure or fewer than four attempts are in flight
  behind its address. A pair that never failed since its last success is admitted when it is not locked and idle, however many
  attempts and failures there are behind the same address.\<close>

theorem reserve_admits_iff:
  assumes "throttle_reach S" "isPairKey p" "i = [] \<or> isIPKey i" "zero_time \<le> now"
    and "Reserve order now p i (th_entries S) = (r, t)"
  shows "(r = None \<longleftrightarrow> te_lockedUntil (entry_of p (th_entries S)) \<le> now \<and> (\<forall>c i'. th_att S c \<noteq> AttPending p i')
      \<and> (te_failures (entry_of p t) = 0 \<or> i = [] \<or> card {c. \<exists>p'. th_att S c = AttPending p' i} < 4))
    \<and> (te_failures (entry_of p (th_entries S)) = 0 \<longrightarrow> te_failures (entry_of p t) = 0)"
proof -
  note inv = throttle_reach_inv [OF assms(1)]
  note v = throttle_invD [OF inv]
  let ?t = "looked_up order now p (th_entries S)"
  have pi: "p \<noteq> i" using assms(2,3) pair_not_ip by auto
  have "flight (th_att S) p = {c. \<exists>i'. th_att S c = AttPending p i'}" using assms(2) v(2) pair_not_ip by (fastforce simp: flight_def)
  moreover have "te_inFlight (entry_of p ?t) = int (card (flight (th_att S) p))" using looked_up_ok(1) [OF inv, of p order now p] by (simp add: entry_ok_def)
  ultimately have fl: "te_inFlight (entry_of p ?t) < maxInFlightPerPair \<longleftrightarrow> (\<forall>c i'. th_att S c \<noteq> AttPending p i')"
    using v(3) [of p] by (auto simp: maxInFlightPerPair_def)
  have pr: "entry_of p (pruneLocked order now (th_entries S)) = entry_of p (th_entries S)
      \<or> entry_of p (pruneLocked order now (th_entries S)) = new_entry \<and> te_lockedUntil (entry_of p (th_entries S)) < now"
    using entry_of_prune [OF v(1), of p order now] by (auto simp: idle_unlocked_def)
  then have lk: "te_lockedUntil (entry_of p ?t) \<le> now \<longleftrightarrow> te_lockedUntil (entry_of p (th_entries S)) \<le> now"
    using assms(4) by (auto simp: looked_up_def new_entry_def)
  have f0: "te_failures (entry_of p ?t) = 0" if "te_failures (entry_of p (th_entries S)) = 0"
    using pr that by (auto simp: looked_up_def forgetStaleLocked_def new_entry_def)
  have ipf: "te_inFlight (entry_of i (change i (forgetStaleLocked now) ?t)) = int (card (flight (th_att S) i))"
    using looked_up_ok(1) [OF inv, of i order now p] by (auto simp: entry_ok_def forgetStaleLocked_def)
  have ip: "flight (th_att S) i = {c. \<exists>p'. th_att S c = AttPending p' i}" if "i \<noteq> []"
    using that assms(3) v(2) pair_not_ip by (fastforce simp: flight_def)
  have neg: "0 \<le> te_failures (entry_of p ?t)" using looked_up_ok(1) [OF inv, of p order now p] by (simp add: entry_ok_def)
  show ?thesis
  proof (cases rule: Reserve_cases [of order now p i "th_entries S"])
    case (wait w)
    then have "\<not> te_lockedUntil (entry_of p ?t) \<le> now \<or> \<not> te_inFlight (entry_of p ?t) < maxInFlightPerPair"
      using go_Sub_gt_iff [of 0 "te_lockedUntil (entry_of p ?t)" now] by auto
    then show ?thesis using wait(1) assms(5) lk fl f0 by auto
  next
    case busy
    then show ?thesis using assms(5) f0 ip ipf pi by (auto simp: maxInFlightPerIP_def)
  next
    case ok
    have t: "te_failures (entry_of p t) = te_failures (entry_of p ?t)" using ok(1) assms(5) pi by auto
    have "te_failures (entry_of p ?t) = 0 \<or> i = [] \<or> card {c. \<exists>p'. th_att S c = AttPending p' i} < 4"
    proof (rule ccontr)
      assume n: "\<not> ?thesis"
      then have "te_failures (entry_of p (change i (forgetStaleLocked now) ?t)) > 0" using pi neg by auto
      moreover have "maxInFlightPerIP \<le> te_inFlight (entry_of i (change i (forgetStaleLocked now) ?t))" unfolding ipf using n ip by (auto simp: maxInFlightPerIP_def)
      moreover have "\<not> 0 < go_Sub (te_lockedUntil (entry_of p ?t)) now" using ok(2) go_Sub_gt_iff [of 0 "te_lockedUntil (entry_of p ?t)" now] by simp
      ultimately have "fst (Reserve order now p i (th_entries S)) \<noteq> None"
        using n ok(3) unfolding Reserve_def Let_def looked_up_def by simp
      then show False using ok(1) by simp
    qed
    then show ?thesis using ok lk fl t f0 assms(5) by auto
  qed
qed

text \<open>Five failures of one pair at time 0, one after the other.\<close>

definition sample_pair :: string where "sample_pair = ''login|a|b''"

fun failed_rounds :: "nat \<Rightarrow> throttle_state" where
  "failed_rounds 0 = \<lparr>th_entries = [], th_att = (\<lambda>_. AttNone)\<rparr>"
| "failed_rounds (Suc n) = (let S = failed_rounds n in
     set_att n AttOver (Failed 0 sample_pair [] (snd (Reserve [] 0 sample_pair [] (th_entries S)))) S)"

lemma sample_pair_key: "isPairKey sample_pair" by (simp add: isPairKey_def sample_pair_def)

lemma failed_rounds_att: "n \<le> m \<Longrightarrow> th_att (failed_rounds n) m = AttNone"
  by (induction n) (auto simp: Let_def set_att_def)

lemma failed_rounds_reach:
  assumes "throttle_reach (failed_rounds n)" "fst (Reserve [] 0 sample_pair [] (th_entries (failed_rounds n))) = None"
  shows "throttle_reach (failed_rounds (Suc n))"
proof -
  let ?S = "failed_rounds n"
  obtain t where t: "Reserve [] 0 sample_pair [] (th_entries ?S) = (None, t)" using assms(2) by (metis prod.collapse)
  let ?S1 = "set_att n (AttPending sample_pair []) t ?S"
  have 1: "throttle_step 0 ?S ?S1" by (rule TReserve [OF failed_rounds_att [OF order_refl] sample_pair_key _ t]) simp
  have "th_att ?S1 n = AttPending sample_pair []" by (simp add: set_att_def)
  then have 2: "throttle_step 0 ?S1 (set_att n AttOver (Failed 0 sample_pair [] (th_entries ?S1)) ?S1)" by (rule TFail)
  have "set_att n AttOver (Failed 0 sample_pair [] (th_entries ?S1)) ?S1 = failed_rounds (Suc n)"
    using t by (simp add: Let_def set_att_def)
  with throttle_next [OF throttle_next [OF assms(1) 1] 2] show ?thesis by simp
qed

lemmas throttle_eval = Reserve_def Failed_def releaseLocked_def release_one_def change_def put_def entry_of_def pruneLocked_def
  forgetStaleLocked_def lock_pair_def fail_entry_def dec_in_flight_def new_entry_def Let_def throttle_policy
  go_Sub_def sat64_def zero_time_def go_units maxTrackedKeys_def

definition after_failures :: "int \<Rightarrow> entries" where
  "after_failures n = [(sample_pair, new_entry\<lparr>te_failures := n, te_lastFailure := 0\<rparr>)]"

lemma first_round: "Reserve [] 0 k [] [] = (None, [(k, new_entry\<lparr>te_inFlight := 1\<rparr>)])"
  "Failed 0 k [] [(k, new_entry\<lparr>te_inFlight := 1\<rparr>)] = [(k, new_entry\<lparr>te_failures := 1, te_lastFailure := 0\<rparr>)]"
  by (simp_all add: throttle_eval)

lemma next_round:
  "Reserve [] 0 k [] [(k, new_entry\<lparr>te_failures := n, te_lastFailure := 0\<rparr>)]
    = (None, [(k, new_entry\<lparr>te_failures := n, te_lastFailure := 0, te_inFlight := 1\<rparr>)])"
  "n < 4 \<Longrightarrow> Failed 0 k [] [(k, new_entry\<lparr>te_failures := n, te_lastFailure := 0, te_inFlight := 1\<rparr>)]
    = [(k, new_entry\<lparr>te_failures := n + 1, te_lastFailure := 0\<rparr>)]"
  "Failed 0 k [] [(k, new_entry\<lparr>te_failures := 4, te_lastFailure := 0, te_inFlight := 1\<rparr>)]
    = [(k, new_entry\<lparr>te_failures := 5, te_lastFailure := 0, te_lockedUntil := 30 * go_Second\<rparr>)]"
  by (simp_all add: throttle_eval lockoutFor_closed)

lemma failed_rounds_entries:
  "n < 4 \<Longrightarrow> throttle_reach (failed_rounds (Suc n)) \<and> th_entries (failed_rounds (Suc n)) = after_failures (int n + 1)"
proof (induction n)
  case 0
  have "throttle_reach (failed_rounds (Suc 0))"
    by (rule failed_rounds_reach) (use throttle_init in \<open>simp_all add: first_round\<close>)
  then show ?case by (simp add: Let_def set_att_def first_round after_failures_def)
next
  case (Suc n)
  then have IH: "throttle_reach (failed_rounds (Suc n))" "th_entries (failed_rounds (Suc n)) = after_failures (int n + 1)" by simp_all
  have "throttle_reach (failed_rounds (Suc (Suc n)))"
    by (rule failed_rounds_reach [OF IH(1)]) (simp add: IH(2) after_failures_def next_round del: failed_rounds.simps)
  moreover have "th_entries (failed_rounds (Suc (Suc n))) = Failed 0 sample_pair [] (snd (Reserve [] 0 sample_pair [] (th_entries (failed_rounds (Suc n)))))"
    by (subst failed_rounds.simps(2)) (simp add: Let_def set_att_def del: failed_rounds.simps)
  then have "th_entries (failed_rounds (Suc (Suc n))) = after_failures (int (Suc n) + 1)"
    unfolding IH(2) using Suc.prems by (simp add: after_failures_def next_round algebra_simps)
  ultimately show ?case by blast
qed

definition fifth_try :: throttle_state where
  "fifth_try = set_att 4 (AttPending sample_pair []) (snd (Reserve [] 0 sample_pair [] (th_entries (failed_rounds 4)))) (failed_rounds 4)"

lemma fifth_try_facts:
  "throttle_reach fifth_try" "th_att fifth_try 4 = AttPending sample_pair []"
  "Failed 0 sample_pair [] (th_entries fifth_try) = [(sample_pair, new_entry\<lparr>te_failures := 5, te_lastFailure := 0, te_lockedUntil := 30 * go_Second\<rparr>)]"
proof -
  have 4: "throttle_reach (failed_rounds 4)" "th_entries (failed_rounds 4) = after_failures 4"
    using failed_rounds_entries [of 3] by (simp_all add: eval_nat_numeral del: failed_rounds.simps)
  have r: "Reserve [] 0 sample_pair [] (th_entries (failed_rounds 4)) = (None, [(sample_pair, new_entry\<lparr>te_failures := 4, te_lastFailure := 0, te_inFlight := 1\<rparr>)])"
    unfolding 4(2) by (simp add: after_failures_def next_round)
  have "throttle_step 0 (failed_rounds 4) fifth_try"
    unfolding fifth_try_def r snd_conv by (rule TReserve [OF failed_rounds_att [OF order_refl] sample_pair_key _ r]) simp
  then show "throttle_reach fifth_try" by (rule throttle_next [OF 4(1)])
  show "th_att fifth_try 4 = AttPending sample_pair []"
    "Failed 0 sample_pair [] (th_entries fifth_try) = [(sample_pair, new_entry\<lparr>te_failures := 5, te_lastFailure := 0, te_lockedUntil := 30 * go_Second\<rparr>)]"
    unfolding fifth_try_def r by (simp_all add: set_att_def next_round)
qed

theorem throttle_lockout_holds_witness:
  "\<exists>t'. Reserve [] (10 * go_Second) sample_pair ''ip|z'' (Failed 0 sample_pair [] (th_entries fifth_try)) = (Some (20 * go_Second), t')"
proof -
  let ?t = "Failed 0 sample_pair [] (th_entries fifth_try)" and ?S = "set_att 4 AttOver (Failed 0 sample_pair [] (th_entries fifth_try)) fifth_try"
  have e: "te_failures (entry_of sample_pair ?t) = 5" by (simp add: fifth_try_facts entry_of_def)
  have u: "30 * go_Second = 0 + min (2 ^ nat (te_failures (entry_of sample_pair ?t) - FreeAttempts) * LockoutBase) MaxLockout"
    unfolding e by (simp add: throttle_policy go_units)
  have "\<exists>t'. Reserve [] (10 * go_Second) sample_pair ''ip|z'' (th_entries ?S) = (Some (go_Sub (30 * go_Second) (10 * go_Second)), t')"
    using throttle_lockout_holds [OF fifth_try_facts(1,2) refl _ _ u rtranclp.rtrancl_refl, of "10 * go_Second" "[]" "''ip|z''"] e
    by (simp add: FreeAttempts_def go_units)
  then show ?thesis by (simp add: set_att_def go_Sub_def sat64_def go_units)
qed

text \<open>Four attempts of other users are in flight behind one address.\<close>

definition user_pair :: "nat \<Rightarrow> string" where "user_pair n = ''login|'' @ replicate n (CHR ''u'')"

fun busy_address :: "nat \<Rightarrow> throttle_state" where
  "busy_address 0 = \<lparr>th_entries = [], th_att = (\<lambda>_. AttNone)\<rparr>"
| "busy_address (Suc n) = (let S = busy_address n in
     set_att n (AttPending (user_pair n) ''ip|x'') (snd (Reserve [] 0 (user_pair n) ''ip|x'' (th_entries S))) S)"

lemma user_pair_key: "isPairKey (user_pair n)" by (simp add: isPairKey_def user_pair_def)

lemma user_pair_eq: "user_pair n = user_pair m \<longleftrightarrow> n = m" "user_pair n \<noteq> ''ip|x''"
  by (auto simp: user_pair_def)

lemma busy_att: "n \<le> m \<Longrightarrow> th_att (busy_address n) m = AttNone"
  by (induction n) (auto simp: Let_def set_att_def)

lemma busy_reach:
  assumes "throttle_reach (busy_address n)" "fst (Reserve [] 0 (user_pair n) ''ip|x'' (th_entries (busy_address n))) = None"
  shows "throttle_reach (busy_address (Suc n))"
proof -
  obtain t where t: "Reserve [] 0 (user_pair n) ''ip|x'' (th_entries (busy_address n)) = (None, t)" using assms(2) by (metis prod.collapse)
  have "throttle_step 0 (busy_address n) (set_att n (AttPending (user_pair n) ''ip|x'') t (busy_address n))"
    by (rule TReserve [OF busy_att [OF order_refl] user_pair_key _ t]) (simp add: isIPKey_def)
  then show ?thesis using throttle_next [OF assms(1)] t by (simp add: Let_def)
qed

lemma busy_pending: "th_att (busy_address n) c = (if c < n then AttPending (user_pair c) ''ip|x'' else AttNone)"
  by (induction n) (auto simp: Let_def set_att_def)

lemma clean_looked_up:
  assumes "distinct (map fst t)" "\<forall>k. te_failures (entry_of k t) = 0 \<and> te_lockedUntil (entry_of k t) = zero_time"
  shows "te_failures (entry_of k (looked_up order now p t)) = 0 \<and> te_lockedUntil (entry_of k (looked_up order now p t)) = zero_time"
  using assms(2) entry_of_prune [OF assms(1), of k order now] entry_of_prune [OF assms(1), of p order now]
  by (auto simp: looked_up_def forgetStaleLocked_def new_entry_def)

lemma busy_address_facts:
  "throttle_reach (busy_address n) \<and> (\<forall>k. te_failures (entry_of k (th_entries (busy_address n))) = 0
     \<and> te_lockedUntil (entry_of k (th_entries (busy_address n))) = zero_time)"
proof (induction n)
  case 0
  show ?case using throttle_init by (simp add: entry_of_def new_entry_def)
next
  case (Suc n)
  let ?S = "busy_address n" and ?a = "''ip|x''"
  have inv: "throttle_inv ?S" using throttle_reach_inv Suc by blast
  note clean = clean_looked_up [OF throttle_invD(1) [OF inv] conjunct2 [OF Suc], where order = "[]" and now = 0 and p = "user_pair n"]
  have "flight (th_att ?S) (user_pair n) = {}" by (auto simp: flight_def busy_pending user_pair_eq split: if_splits)
  then have fl: "te_inFlight (entry_of (user_pair n) (looked_up [] 0 (user_pair n) (th_entries ?S))) = 0"
    using looked_up_ok(1) [OF inv, of "user_pair n" "[]" 0 "user_pair n"] by (simp add: entry_ok_def)
  show ?case
  proof (cases rule: Reserve_cases [of "[]" 0 "user_pair n" ?a "th_entries ?S"])
    case (wait w)
    then show ?thesis using fl clean [of "user_pair n"] by (simp add: maxInFlightPerPair_def zero_time_def go_Sub_def sat64_def)
  next
    case busy
    then show ?thesis using clean [of "user_pair n"] user_pair_eq(2) [of n] by simp
  next
    case ok
    have r: "throttle_reach (busy_address (Suc n))" by (rule busy_reach) (use Suc ok(1) in simp_all)
    have "te_failures (entry_of k (snd (Reserve [] 0 (user_pair n) ?a (th_entries ?S)))) = 0
        \<and> te_lockedUntil (entry_of k (snd (Reserve [] 0 (user_pair n) ?a (th_entries ?S)))) = zero_time" for k
      using clean [of k] clean [of ?a] clean [of "user_pair n"] user_pair_eq(2) [of n] unfolding ok(1) by (auto simp: forgetStaleLocked_def)
    then show ?thesis using r by (simp add: Let_def set_att_def)
  qed
qed

theorem reserve_admits_iff_witness:
  "card {c. \<exists>p'. th_att (busy_address 4) c = AttPending p' ''ip|x''} = 4
   \<and> fst (Reserve [] 0 (user_pair 9) ''ip|x'' (th_entries (busy_address 4))) = None"
proof -
  obtain r t where rt: "Reserve [] 0 (user_pair 9) ''ip|x'' (th_entries (busy_address 4)) = (r, t)" by fastforce
  have "{c. \<exists>p'. th_att (busy_address 4) c = AttPending p' ''ip|x''} = {..<4}" by (auto simp: busy_pending split: if_splits)
  moreover have "\<forall>c i'. th_att (busy_address 4) c \<noteq> AttPending (user_pair 9) i'" by (auto simp: busy_pending user_pair_eq)
  moreover note f = busy_address_facts [of 4]
  ultimately show ?thesis
    using reserve_admits_iff [OF conjunct1 [OF f] user_pair_key [of 9] _ _ rt] rt by (simp add: isIPKey_def zero_time_def)
qed

end
