(* ===== verification/Ratelimit.thy ===== *)
theory Ratelimit
  imports Mr_Prelude "HOL-Library.AList"
begin

text \<open>
  The per-key rate limiter and the log gate, \<open>src/internal/ratelimit/ratelimit.go\<close>. The token bucket itself is the
  library \<open>golang.org/x/time/rate\<close>: its operations are the fields of the parameter \<open>rate_api\<close>. What is modelled is the
  book-keeping around it: which buckets exist, when one is made, changed or evicted, and what a request is answered.
\<close>

section \<open>Limits and buckets\<close>

record Limit_cfg =
  lc_PerMinute :: int
  lc_Burst :: int

definition limit_Enabled :: "Limit_cfg \<Rightarrow> bool" where
  "limit_Enabled l \<longleftrightarrow> lc_PerMinute l > 0"

definition limit_size :: "Limit_cfg \<Rightarrow> int" where
  "limit_size l = max (lc_Burst l) 1"

definition DefaultMaxKeys :: nat where "DefaultMaxKeys = 100000"
definition sweepSize :: nat where "sweepSize = 1024"

text \<open>The library: a new bucket (a rate per minute and a size), a bucket under another rate and size, taking one token
  (whether it can ever be had, the delay, the bucket with the token taken) and whether a bucket is full.\<close>

record 'b rate_api =
  ra_new :: "int \<Rightarrow> int \<Rightarrow> 'b"
  ra_set :: "go_time \<Rightarrow> int \<Rightarrow> int \<Rightarrow> 'b \<Rightarrow> 'b"
  ra_reserve :: "go_time \<Rightarrow> 'b \<Rightarrow> (duration option) \<times> 'b"
  ra_cancel :: "go_time \<Rightarrow> 'b \<Rightarrow> 'b"
  ra_full :: "go_time \<Rightarrow> int \<Rightarrow> 'b \<Rightarrow> bool"

record 'b bucket =
  bu_lim :: 'b
  bu_limit :: Limit_cfg
  bu_used :: "64 word"

record 'b Limiter =
  li_maxKeys :: nat
  li_buckets :: "(string \<times> 'b bucket) list"
  li_nextSweep :: nat
  li_uses :: "64 word"

definition new_Limiter :: "nat \<Rightarrow> 'b Limiter" where
  "new_Limiter maxKeys = \<lparr>li_maxKeys = maxKeys, li_buckets = [], li_nextSweep = sweepSize, li_uses = 0\<rparr>"

section \<open>Making room\<close>

definition not_full :: "'b rate_api \<Rightarrow> go_time \<Rightarrow> string \<times> 'b bucket \<Rightarrow> bool" where
  "not_full api now kb \<longleftrightarrow> \<not> ra_full api now (limit_size (bu_limit (snd kb))) (bu_lim (snd kb))"

definition evict_oldest :: "nat \<Rightarrow> (string \<times> 'b bucket) list \<Rightarrow> (string \<times> 'b bucket) list" where
  "evict_oldest n bs =
     (let gone = map fst (take n (sort_key (bu_used \<circ> snd) bs)) in filter (\<lambda>kb. fst kb \<notin> set gone) bs)"

definition makeRoom :: "'b rate_api \<Rightarrow> go_time \<Rightarrow> 'b Limiter \<Rightarrow> 'b Limiter" where
  "makeRoom api now l =
     (if length (li_buckets l) < li_nextSweep l \<and> length (li_buckets l) < li_maxKeys l then l
      else let kept = filter (not_full api now) (li_buckets l);
               left = (if length kept \<ge> li_maxKeys l then evict_oldest (max (li_maxKeys l div 8) 1) kept else kept)
           in l\<lparr>li_buckets := left, li_nextSweep := min (max sweepSize (2 * length left)) (li_maxKeys l)\<rparr>)"

section \<open>Requests\<close>

definition find_bucket :: "'b rate_api \<Rightarrow> go_time \<Rightarrow> string \<Rightarrow> Limit_cfg \<Rightarrow> 'b Limiter \<Rightarrow> 'b bucket \<times> 'b Limiter" where
  "find_bucket api now key limit l = (case map_of (li_buckets l) key of
     None \<Rightarrow> (\<lparr>bu_lim = ra_new api (lc_PerMinute limit) (limit_size limit), bu_limit = limit, bu_used = 0\<rparr>, makeRoom api now l)
   | Some b \<Rightarrow> (if bu_limit b \<noteq> limit
       then b\<lparr>bu_lim := ra_set api now (lc_PerMinute limit) (limit_size limit) (bu_lim b), bu_limit := limit\<rparr> else b, l))"

definition Allow :: "'b rate_api \<Rightarrow> go_time \<Rightarrow> string \<Rightarrow> Limit_cfg \<Rightarrow> 'b Limiter \<Rightarrow> (bool \<times> duration) \<times> 'b Limiter" where
  "Allow api now key limit l =
     (if \<not> limit_Enabled limit then ((True, 0), l)
      else case find_bucket api now key limit l of (b, l1) \<Rightarrow>
        (let uses = li_uses l1 + 1;
             store = (\<lambda>lim. l1\<lparr>li_buckets := AList.update key (b\<lparr>bu_lim := lim, bu_used := uses\<rparr>) (li_buckets l1), li_uses := uses\<rparr>)
         in case ra_reserve api now (bu_lim b) of
              (None, lim) \<Rightarrow> ((False, go_Minute), store lim)
            | (Some delay, lim) \<Rightarrow> if delay > 0 then ((False, delay), store (ra_cancel api now lim)) else ((True, 0), store lim)))"

section \<open>The gate\<close>

record Gate =
  ga_interval :: duration
  ga_last :: "(string \<times> go_time) list"
  ga_nextSweep :: nat

definition NewGate :: "duration \<Rightarrow> Gate" where
  "NewGate interval = \<lparr>ga_interval = interval, ga_last = [], ga_nextSweep = sweepSize\<rparr>"

text \<open>The second loop deletes keys, in the order \<open>order\<close> the map yields them, until there is room.\<close>

fun gate_evict :: "string list \<Rightarrow> (string \<times> go_time) list \<Rightarrow> (string \<times> go_time) list" where
  "gate_evict [] m = m"
| "gate_evict (k # ks) m = (if length m < DefaultMaxKeys then m else gate_evict ks (AList.delete k m))"

definition gate_Pass :: "string list \<Rightarrow> go_time \<Rightarrow> string \<Rightarrow> Gate \<Rightarrow> bool \<times> Gate" where
  "gate_Pass order now key g =
     (if (case map_of (ga_last g) key of Some at \<Rightarrow> go_Sub now at < ga_interval g | None \<Rightarrow> False) then (False, g)
      else let swept = (if length (ga_last g) \<ge> ga_nextSweep g
                 then filter (\<lambda>ka. \<not> go_Sub now (snd ka) \<ge> ga_interval g) (ga_last g) else ga_last g);
               ns = (if length (ga_last g) \<ge> ga_nextSweep g then max sweepSize (2 * length swept) else ga_nextSweep g);
               room = gate_evict order swept
           in (True, g\<lparr>ga_last := AList.update key now room, ga_nextSweep := ns\<rparr>))"

section \<open>Bounded memory\<close>

lemma length_alist_update: "length (AList.update k v m) = (if k \<in> fst ` set m then length m else Suc (length m))"
  by (induction m) auto

definition limiter_inv :: "'b Limiter \<Rightarrow> bool" where
  "limiter_inv l \<longleftrightarrow> distinct (map fst (li_buckets l)) \<and> length (li_buckets l) \<le> li_maxKeys l \<and> 0 < li_maxKeys l"

lemma evict_oldest_length:
  assumes "distinct (map fst bs)" "n \<le> length bs"
  shows "length (evict_oldest n bs) = length bs - n"
proof -
  let ?s = "sort_key (bu_used \<circ> snd) bs"
  let ?P = "\<lambda>kb. fst kb \<notin> set (map fst (take n ?s))"
  have m: "mset ?s = mset bs" by simp
  have "mset (map fst ?s) = mset (map fst bs)" by simp
  then have d: "distinct (map fst ?s)" using assms(1) mset_eq_imp_distinct_iff by blast
  have "filter ?P ?s = drop n ?s"
  proof -
    have "filter ?P (take n ?s) = []" by (auto simp: filter_empty_conv)
    moreover have "filter ?P (drop n ?s) = drop n ?s"
    proof (rule filter_True, rule ballI)
      fix x assume x: "x \<in> set (drop n ?s)"
      have "distinct (map fst (take n ?s) @ map fst (drop n ?s))" using d by (metis append_take_drop_id map_append)
      then show "?P x" using x by (auto simp: image_iff)
    qed
    ultimately show ?thesis by (metis append_take_drop_id filter_append append_Nil)
  qed
  moreover have "length (filter ?P bs) = length (filter ?P ?s)" unfolding filter_sort by simp
  ultimately show ?thesis by (simp add: evict_oldest_def Let_def)
qed

lemma makeRoom_inv:
  assumes "limiter_inv l"
  shows "distinct (map fst (li_buckets (makeRoom api now l)))" "length (li_buckets (makeRoom api now l)) < li_maxKeys l"
    "li_maxKeys (makeRoom api now l) = li_maxKeys l" "li_uses (makeRoom api now l) = li_uses l"
proof -
  let ?kept = "filter (not_full api now) (li_buckets l)"
  have d: "distinct (map fst ?kept)" using assms by (simp add: limiter_inv_def distinct_map_filter)
  have le: "length ?kept \<le> li_maxKeys l" using assms unfolding limiter_inv_def by (meson le_trans length_filter_le)
  have ev: "length (evict_oldest (max (li_maxKeys l div 8) 1) ?kept) < li_maxKeys l" if "li_maxKeys l \<le> length ?kept"
  proof -
    have pos: "0 < li_maxKeys l" using assms by (simp add: limiter_inv_def)
    then have n: "max (li_maxKeys l div 8) 1 \<le> length ?kept" using that by linarith
    have "1 \<le> max (li_maxKeys l div 8) 1" by simp
    then show ?thesis using evict_oldest_length [OF d n] le pos by linarith
  qed
  show "length (li_buckets (makeRoom api now l)) < li_maxKeys l" using ev by (auto simp: makeRoom_def Let_def)
  show "distinct (map fst (li_buckets (makeRoom api now l)))"
    using assms d by (auto simp: makeRoom_def Let_def limiter_inv_def evict_oldest_def distinct_map_filter)
qed (simp_all add: makeRoom_def Let_def)

text \<open>C39: A flood of new keys does not reset a busy one: making room drops buckets that are full again, and others only
  when as many as the cap are not full; then it drops the least recently used ones, at most an eighth of the cap (or
  one), so a bucket that stays has been used no earlier than any dropped one that was not full.\<close>

theorem eviction_spares_recent:
  assumes "limiter_inv l" "x \<in> set (li_buckets l)" "x \<notin> set (li_buckets (makeRoom api now l))" "not_full api now x"
  shows "length (filter (not_full api now) (li_buckets l)) = li_maxKeys l
    \<and> length (li_buckets (makeRoom api now l)) = li_maxKeys l - max (li_maxKeys l div 8) 1
    \<and> (\<forall>y \<in> set (li_buckets (makeRoom api now l)). bu_used (snd x) \<le> bu_used (snd y))"
proof -
  let ?kept = "filter (not_full api now) (li_buckets l)"
  let ?n = "max (li_maxKeys l div 8) 1"
  let ?s = "sort_key (bu_used \<circ> snd) ?kept"
  have d: "distinct (map fst ?kept)" using assms(1) by (simp add: limiter_inv_def distinct_map_filter)
  have le: "length ?kept \<le> li_maxKeys l" using assms(1) unfolding limiter_inv_def by (meson le_trans length_filter_le)
  have x: "x \<in> set ?kept" using assms(2,4) by simp
  have full: "li_maxKeys l \<le> length ?kept" and left: "li_buckets (makeRoom api now l) = evict_oldest ?n ?kept"
    using assms(2,3,4) by (auto simp: makeRoom_def Let_def split: if_splits)
  have "0 < li_maxKeys l" using assms(1) by (simp add: limiter_inv_def)
  then have n: "?n \<le> length ?kept" using full by linarith
  have "fst x \<in> set (map fst (take ?n ?s))" using assms(3) x unfolding left by (auto simp: evict_oldest_def Let_def)
  then obtain x' where x': "x' \<in> set (take ?n ?s)" "fst x' = fst x" by auto
  have "x' \<in> set ?kept" using x'(1) by (auto dest: in_set_takeD)
  then have "x' = x" using x x'(2) d by (metis distinct_map inj_onD)
  then have xin: "x \<in> set (take ?n ?s)" using x'(1) by simp
  have "bu_used (snd x) \<le> bu_used (snd y)" if y: "y \<in> set (evict_oldest ?n ?kept)" for y
  proof -
    have "y \<in> set ?s" "y \<notin> set (take ?n ?s)" using y by (auto simp: evict_oldest_def Let_def)
    then have "y \<in> set (drop ?n ?s)" by (metis append_take_drop_id Un_iff set_append)
    moreover have "sorted (map (bu_used \<circ> snd) (take ?n ?s @ drop ?n ?s))" by simp
    ultimately show ?thesis using xin unfolding map_append sorted_append by auto
  qed
  then show ?thesis using left full le evict_oldest_length [OF d n] by auto
qed

text \<open>The limiter's memory is bounded: whatever keys are asked for, it never keeps more buckets than its cap, and a
  request under a disabled limit is allowed and keeps none.\<close>

theorem limiter_bounded:
  assumes "limiter_inv l"
  shows "limiter_inv (snd (Allow api now key limit l)) \<and> li_maxKeys (snd (Allow api now key limit l)) = li_maxKeys l
    \<and> (\<not> limit_Enabled limit \<longrightarrow> Allow api now key limit l = ((True, 0), l))"
proof -
  obtain b l1 where f: "find_bucket api now key limit l = (b, l1)" by (cases "find_bucket api now key limit l")
  have l1: "distinct (map fst (li_buckets l1))" "li_maxKeys l1 = li_maxKeys l"
    "length (li_buckets (l1\<lparr>li_buckets := AList.update key x (li_buckets l1)\<rparr>)) \<le> li_maxKeys l" for x
  proof -
    show "distinct (map fst (li_buckets l1))" "li_maxKeys l1 = li_maxKeys l"
      using f assms makeRoom_inv [OF assms] by (auto simp: find_bucket_def limiter_inv_def split: option.splits)
    show "length (li_buckets (l1\<lparr>li_buckets := AList.update key x (li_buckets l1)\<rparr>)) \<le> li_maxKeys l"
    proof (cases "map_of (li_buckets l) key")
      case None
      then have "l1 = makeRoom api now l" using f by (simp add: find_bucket_def)
      then have "length (li_buckets l1) < li_maxKeys l" using makeRoom_inv(2) [OF assms] by simp
      then show ?thesis by (simp add: length_alist_update)
    next
      case (Some y)
      then have "l1 = l" using f by (auto simp: find_bucket_def split: if_splits)
      moreover have "key \<in> fst ` set (li_buckets l)" using Some map_of_SomeD by force
      ultimately show ?thesis using assms by (simp add: length_alist_update limiter_inv_def)
    qed
  qed
  then show ?thesis using assms f
    by (auto simp: Allow_def Let_def limiter_inv_def distinct_update split: prod.splits option.splits)
qed

section \<open>The gate passes once\<close>

text \<open>The events of a gate, each with the order the map is walked in, the time and the key; \<open>gate_run\<close> answers them.\<close>

fun gate_run :: "Gate \<Rightarrow> (string list \<times> go_time \<times> string) list \<Rightarrow> bool list" where
  "gate_run g [] = []"
| "gate_run g ((order, now, key) # es) = (case gate_Pass order now key g of (b, g') \<Rightarrow> b # gate_run g' es)"

definition passes :: "string \<Rightarrow> Gate \<Rightarrow> (string list \<times> go_time \<times> string) list \<Rightarrow> nat" where
  "passes key g es = length (filter (\<lambda>(e, b). b \<and> snd (snd e) = key) (zip es (gate_run g es)))"

lemma passes_simps [simp]:
  "passes key g [] = 0"
  "passes key g ((order, now, k) # es) =
    (if fst (gate_Pass order now k g) \<and> k = key then 1 else 0) + passes key (snd (gate_Pass order now k g)) es"
  by (auto simp: passes_def split: prod.splits)

lemma gate_evict_small: "length m < DefaultMaxKeys \<Longrightarrow> gate_evict ks m = m"
  by (cases ks) simp_all

lemma gate_Pass_small:
  assumes "length (ga_last g) < DefaultMaxKeys"
  shows "ga_interval (snd (gate_Pass order now key g)) = ga_interval g"
    "length (ga_last (snd (gate_Pass order now key g))) \<le> length (ga_last g) + 1"
    "fst (gate_Pass order now key g) \<Longrightarrow> map_of (ga_last (snd (gate_Pass order now key g))) key = Some now"
proof -
  let ?swept = "if length (ga_last g) \<ge> ga_nextSweep g
    then filter (\<lambda>ka. \<not> go_Sub now (snd ka) \<ge> ga_interval g) (ga_last g) else ga_last g"
  have "length ?swept \<le> length (ga_last g)" by (simp add: length_filter_le)
  moreover from this have "gate_evict order ?swept = ?swept" using assms by (intro gate_evict_small) linarith
  ultimately show "length (ga_last (snd (gate_Pass order now key g))) \<le> length (ga_last g) + 1"
    by (auto simp: gate_Pass_def Let_def length_alist_update simp del: length_filter_le)
qed (auto simp: gate_Pass_def Let_def update_conv split: if_splits)

lemma map_of_filter_snd:
  "map_of m k = Some v \<Longrightarrow> P v \<Longrightarrow> \<exists>v'. map_of (filter (\<lambda>ka. P (snd ka)) m) k = Some v' \<and> P v'"
  by (induction m) (auto split: if_splits)

text \<open>A key that passed is remembered while the clock stays within the interval.\<close>

lemma gate_remembers:
  assumes small: "length (ga_last g) < DefaultMaxKeys" and k: "map_of (ga_last g) key = Some at"
    and d: "distinct (map fst (ga_last g))" and recent: "go_Sub now at < ga_interval g"
  shows "map_of (ga_last (snd (gate_Pass order now k' g))) key = (if k' = key \<and> fst (gate_Pass order now k' g) then Some now else Some at)"
proof -
  let ?swept = "if length (ga_last g) \<ge> ga_nextSweep g
    then filter (\<lambda>ka. \<not> go_Sub now (snd ka) \<ge> ga_interval g) (ga_last g) else ga_last g"
  have "map_of (filter (\<lambda>ka. \<not> go_Sub now (snd ka) \<ge> ga_interval g) (ga_last g)) key = Some at"
  proof -
    have "(key, at) \<in> set (ga_last g)" using k by (rule map_of_SomeD)
    then have "(key, at) \<in> set (filter (\<lambda>ka. \<not> go_Sub now (snd ka) \<ge> ga_interval g) (ga_last g))" using recent by simp
    moreover have "distinct (map fst (filter (\<lambda>ka. \<not> go_Sub now (snd ka) \<ge> ga_interval g) (ga_last g)))"
      using d by (rule distinct_map_filter)
    ultimately show ?thesis by simp
  qed
  then have sw: "map_of ?swept key = Some at" using k by simp
  have "length ?swept \<le> length (ga_last g)" by (simp add: length_filter_le)
  then have "gate_evict order ?swept = ?swept" using small by (intro gate_evict_small) linarith
  then show ?thesis using sw k recent by (auto simp: gate_Pass_def Let_def update_conv)
qed

lemma distinct_gate_evict: "distinct (map fst m) \<Longrightarrow> distinct (map fst (gate_evict ks m))"
  by (induction ks m rule: gate_evict.induct) (auto simp: distinct_delete)

lemma distinct_gate_Pass: "distinct (map fst (ga_last g)) \<Longrightarrow> distinct (map fst (ga_last (snd (gate_Pass order now k g))))"
  by (auto simp: gate_Pass_def Let_def intro!: distinct_update distinct_gate_evict distinct_map_filter)

lemma gate_evict_keys: "fst ` set (gate_evict ks m) \<subseteq> fst ` set m"
  by (induction ks m rule: gate_evict.induct) (auto simp: AList.delete_eq)

lemma gate_Pass_keys: "fst ` set (ga_last (snd (gate_Pass order now k g))) \<subseteq> insert k (fst ` set (ga_last g))"
proof (cases "case map_of (ga_last g) k of Some at \<Rightarrow> go_Sub now at < ga_interval g | None \<Rightarrow> False")
  case True
  have "gate_Pass order now k g = (False, g)" unfolding gate_Pass_def if_P [OF True] ..
  then show ?thesis by auto
next
  case False
  define swept where "swept = (if length (ga_last g) \<ge> ga_nextSweep g then filter (\<lambda>ka. \<not> go_Sub now (snd ka) \<ge> ga_interval g) (ga_last g) else ga_last g)"
  have "set swept \<subseteq> set (ga_last g)" unfolding swept_def by (cases "length (ga_last g) \<ge> ga_nextSweep g") auto
  then have "fst ` set (gate_evict order swept) \<subseteq> fst ` set (ga_last g)" using gate_evict_keys [of order swept] by (meson image_mono subset_trans)
  moreover have "ga_last (snd (gate_Pass order now k g)) = AList.update k now (gate_evict order swept)"
    unfolding gate_Pass_def if_not_P [OF False] swept_def [symmetric] Let_def by simp
  ultimately show ?thesis by (auto simp: dom_update)
qed

text \<open>The gate keeps only keys of a set \<open>K\<close>, which is smaller than the cap.\<close>

definition few_keys :: "string set \<Rightarrow> Gate \<Rightarrow> bool" where
  "few_keys K g \<longleftrightarrow> finite K \<and> card K < DefaultMaxKeys \<and> fst ` set (ga_last g) \<subseteq> K \<and> distinct (map fst (ga_last g))"

lemma few_keys_small:
  assumes "few_keys K g"
  shows "length (ga_last g) < DefaultMaxKeys"
proof -
  have "length (ga_last g) = card (fst ` set (ga_last g))" using distinct_card [of "map fst (ga_last g)"] assms by (simp add: few_keys_def)
  also have "\<dots> \<le> card K" using assms by (intro card_mono) (simp_all add: few_keys_def)
  finally show ?thesis using assms by (simp add: few_keys_def)
qed

lemma few_keys_Pass:
  assumes "few_keys K g" "k \<in> K"
  shows "few_keys K (snd (gate_Pass order now k g))"
proof -
  have "insert k (fst ` set (ga_last g)) \<subseteq> K" using assms by (simp add: few_keys_def)
  then show ?thesis using subset_trans [OF gate_Pass_keys [of order now k g]] distinct_gate_Pass [of g order now k] assms(1) by (simp add: few_keys_def)
qed

lemma gate_quiet:
  assumes "map_of (ga_last g) key = Some at" "few_keys K g" "\<forall>e \<in> set es. snd (snd e) \<in> K"
    and "start \<le> at" "\<forall>e \<in> set es. start \<le> fst (snd e) \<and> fst (snd e) < start + ga_interval g" "0 < ga_interval g" "ga_interval g < 2 ^ 63"
  shows "passes key g es = 0"
  using assms
proof (induction es arbitrary: g)
  case (Cons e es)
  obtain order now k where e: "e = (order, now, k)" by (cases e)
  have now: "start \<le> now" "now < start + ga_interval g" using Cons.prems(5) e by auto
  have recent: "go_Sub now at < ga_interval g"
    using now Cons.prems(4,6,7) go_Sub_ge_iff [of "ga_interval g" now at] by linarith
  let ?g = "snd (gate_Pass order now k g)"
  note small = few_keys_small [OF Cons.prems(2)]
  have d: "distinct (map fst (ga_last g))" and k: "k \<in> K" using Cons.prems(2,3) e by (simp_all add: few_keys_def)
  have no: "\<not> (k = key \<and> fst (gate_Pass order now k g))" using Cons.prems(1) recent by (auto simp: gate_Pass_def Let_def)
  then have m: "map_of (ga_last ?g) key = Some at" using gate_remembers [OF small Cons.prems(1) d recent, of order k] by auto
  have "passes key ?g es = 0"
    by (rule Cons.IH [OF m few_keys_Pass [OF Cons.prems(2) k] _ Cons.prems(4)])
      (use gate_Pass_small(1) [OF small, of order now k] Cons.prems in auto)
  then show ?case using no e by auto
qed simp

text \<open>C38: The gate lets a key through once per interval: among any number of events whose times lie within one interval, at most
  one of a given key passes, in whatever order the map is walked, while the keys stored and the keys of the events are together
  fewer than 100000. At that number the gate forgets keys to make room, and a forgotten key passes again.\<close>

theorem gate_once_per_interval:
  assumes "distinct (map fst (ga_last g))" "card (fst ` set (ga_last g) \<union> (\<lambda>e. snd (snd e)) ` set es) < DefaultMaxKeys"
    and "\<forall>e \<in> set es. start \<le> fst (snd e) \<and> fst (snd e) < start + ga_interval g" "0 < ga_interval g" "ga_interval g < 2 ^ 63"
  shows "passes key g es \<le> 1"
proof -
  have "passes key g es \<le> 1"
    if "few_keys K g" "\<forall>e \<in> set es. snd (snd e) \<in> K" "\<forall>e \<in> set es. start \<le> fst (snd e) \<and> fst (snd e) < start + ga_interval g"
      "0 < ga_interval g" "ga_interval g < 2 ^ 63" for K
    using that
  proof (induction es arbitrary: g)
    case (Cons e es)
    obtain order now k where e: "e = (order, now, k)" by (cases e)
    let ?g = "snd (gate_Pass order now k g)"
    note s = gate_Pass_small [OF few_keys_small [OF Cons.prems(1)], of order now k]
    have k: "k \<in> K" "\<forall>e \<in> set es. snd (snd e) \<in> K" using Cons.prems(2) e by auto
    have t: "\<forall>x \<in> set es. start \<le> fst (snd x) \<and> fst (snd x) < start + ga_interval ?g" using Cons.prems(3) s(1) by simp
    note f = few_keys_Pass [OF Cons.prems(1) k(1), of order now]
    show ?case
    proof (cases "fst (gate_Pass order now k g) \<and> k = key")
      case True
      then have "map_of (ga_last ?g) key = Some now" using s(3) by blast
      then have "passes key ?g es = 0"
        by (rule gate_quiet [OF _ f k(2), where start = start]) (use Cons.prems(3-5) e t s(1) in auto)
      then show ?thesis using True e by simp
    next
      case False
      have "passes key ?g es \<le> 1" by (rule Cons.IH [OF f k(2) t]) (use Cons.prems(4,5) s(1) in auto)
      then show ?thesis using False e by auto
    qed
  qed simp
  from this [of "fst ` set (ga_last g) \<union> (\<lambda>e. snd (snd e)) ` set es"] show ?thesis using assms by (simp add: few_keys_def)
qed

theorem gate_once_per_interval_witness: "passes ''a'' (NewGate 10) [([], 0, ''a''), ([], 3, ''b''), ([], 9, ''a'')] \<le> 1"
  by (rule gate_once_per_interval [where start = 0]) (simp_all add: NewGate_def DefaultMaxKeys_def card_insert_if)

text \<open>A bucket library that counts requests, to run the limiter on.\<close>

definition counter_api :: "nat rate_api" where
  "counter_api = \<lparr>ra_new = (\<lambda>r s. nat s), ra_set = (\<lambda>now r s b. b), ra_reserve = (\<lambda>now b. (Some (if b = 0 then 1 else 0), b - 1)),
     ra_cancel = (\<lambda>now b. b), ra_full = (\<lambda>now s b. b \<ge> nat s)\<rparr>"

definition two_buckets :: "nat Limiter" where
  "two_buckets = \<lparr>li_maxKeys = 2, li_buckets = [(''a'', \<lparr>bu_lim = 0, bu_limit = \<lparr>lc_PerMinute = 1, lc_Burst = 1\<rparr>, bu_used = 1\<rparr>),
     (''b'', \<lparr>bu_lim = 0, bu_limit = \<lparr>lc_PerMinute = 1, lc_Burst = 1\<rparr>, bu_used = 2\<rparr>)], li_nextSweep = 2, li_uses = 2\<rparr>"

theorem limiter_bounded_witness:
  "limiter_inv (new_Limiter 5 :: nat Limiter) \<and> limiter_inv (snd (Allow counter_api 0 ''k'' \<lparr>lc_PerMinute = 1, lc_Burst = 1\<rparr> (new_Limiter 5)))"
proof -
  have i: "limiter_inv (new_Limiter 5 :: nat Limiter)" by (simp add: limiter_inv_def new_Limiter_def)
  then show ?thesis using limiter_bounded [OF i, of counter_api 0 "''k''" "\<lparr>lc_PerMinute = 1, lc_Burst = 1\<rparr>"] by blast
qed

theorem eviction_spares_recent_witness:
  "length (li_buckets (makeRoom counter_api 0 two_buckets)) = 1"
proof -
  let ?x = "(''a'', \<lparr>bu_lim = 0 :: nat, bu_limit = \<lparr>lc_PerMinute = 1, lc_Burst = 1\<rparr>, bu_used = 1\<rparr>)"
  have "limiter_inv two_buckets" by (simp add: limiter_inv_def two_buckets_def)
  moreover have "?x \<in> set (li_buckets two_buckets)" by (simp add: two_buckets_def)
  moreover have "?x \<notin> set (li_buckets (makeRoom counter_api 0 two_buckets))"
    by (simp add: makeRoom_def two_buckets_def Let_def not_full_def counter_api_def limit_size_def evict_oldest_def)
  moreover have "not_full counter_api 0 ?x" by (simp add: not_full_def counter_api_def limit_size_def)
  ultimately have "length (li_buckets (makeRoom counter_api 0 two_buckets)) = li_maxKeys two_buckets - max (li_maxKeys two_buckets div 8) 1"
    using eviction_spares_recent by blast
  then show ?thesis by (simp add: two_buckets_def)
qed

end
