(* ===== verification/Pitr_Retention.thy ===== *)
theory Pitr_Retention
  imports Pitr_Windows "HOL-Library.AList"
begin

text \<open>
  Retention of base backups and oplog chunks: the pins of restores in flight (\<open>src/internal/pitr/pins.go\<close>), the
  decision what to delete and its application to the tables (\<open>src/internal/pitr/collector/retention.go\<close>). The maps of
  a snapshot are the lists of their keys. What removing an object from its storage target ends with is an argument.
\<close>

section \<open>Pins\<close>

definition DefaultPinMaxAge :: duration where "DefaultPinMaxAge = go_Hour"

type_synonym ArchiveRef = "string \<times> string"

record PinTarget =
  pt_Bases :: "string list"
  pt_Chunks :: "string list"
  pt_Archives :: "ArchiveRef list"

record pinEntry =
  pe_owner :: string
  pe_refreshed :: go_time
  pe_what :: PinTarget

record PinSet =
  pin_maxAge :: duration
  pin_seq :: "64 word"
  pin_pins :: "(64 word \<times> pinEntry) list"

definition NewPinSet :: "duration \<Rightarrow> PinSet" where
  "NewPinSet maxAge = \<lparr>pin_maxAge = (if maxAge \<le> 0 then DefaultPinMaxAge else maxAge), pin_seq = 0, pin_pins = []\<rparr>"

definition pin_Pin :: "go_time \<Rightarrow> string \<Rightarrow> PinTarget \<Rightarrow> PinSet \<Rightarrow> 64 word \<times> PinSet" where
  "pin_Pin now owner what p =
     (let n = pin_seq p + 1 in
      (n, p\<lparr>pin_seq := n, pin_pins := AList.update n \<lparr>pe_owner = owner, pe_refreshed = now, pe_what = what\<rparr> (pin_pins p)\<rparr>))"

definition pin_Release :: "64 word \<Rightarrow> PinSet \<Rightarrow> PinSet" where
  "pin_Release n p = p\<lparr>pin_pins := AList.delete n (pin_pins p)\<rparr>"

definition pin_Refresh :: "go_time \<Rightarrow> 64 word \<Rightarrow> PinSet \<Rightarrow> bool \<times> PinSet" where
  "pin_Refresh now n p = (case map_of (pin_pins p) n of
     None \<Rightarrow> (False, p)
   | Some e \<Rightarrow> (True, p\<lparr>pin_pins := AList.update n (e\<lparr>pe_refreshed := now\<rparr>) (pin_pins p)\<rparr>))"

record PinSnapshot =
  sn_bases :: "string list"
  sn_chunks :: "string list"
  sn_archives :: "ArchiveRef list"
  sn_Expired :: "(string \<times> duration) list"

definition no_pins :: PinSnapshot where
  "no_pins = \<lparr>sn_bases = [], sn_chunks = [], sn_archives = [], sn_Expired = []\<rparr>"

definition pin_expired :: "go_time \<Rightarrow> PinSet \<Rightarrow> pinEntry \<Rightarrow> bool" where
  "pin_expired now p e \<longleftrightarrow> go_Sub now (pe_refreshed e) > pin_maxAge p"

definition pin_Snapshot :: "go_time \<Rightarrow> PinSet \<Rightarrow> PinSnapshot \<times> PinSet" where
  "pin_Snapshot now p =
     (let live = map snd (filter (\<lambda>ne. \<not> pin_expired now p (snd ne)) (pin_pins p));
          gone = map snd (filter (\<lambda>ne. pin_expired now p (snd ne)) (pin_pins p))
      in (\<lparr>sn_bases = concat (map (pt_Bases \<circ> pe_what) live), sn_chunks = concat (map (pt_Chunks \<circ> pe_what) live),
           sn_archives = concat (map (pt_Archives \<circ> pe_what) live),
           sn_Expired = map (\<lambda>e. (pe_owner e, go_Sub now (pe_refreshed e))) gone\<rparr>,
          p\<lparr>pin_pins := filter (\<lambda>ne. \<not> pin_expired now p (snd ne)) (pin_pins p)\<rparr>))"

definition snapshot_Empty :: "PinSnapshot \<Rightarrow> bool" where
  "snapshot_Empty s \<longleftrightarrow> sn_bases s = [] \<and> sn_chunks s = [] \<and> sn_archives s = []"

definition pinned_Base :: "PinSnapshot \<Rightarrow> string \<Rightarrow> bool" where "pinned_Base s i \<longleftrightarrow> i \<in> set (sn_bases s)"
definition pinned_Chunk :: "PinSnapshot \<Rightarrow> string \<Rightarrow> bool" where "pinned_Chunk s i \<longleftrightarrow> i \<in> set (sn_chunks s)"
definition pinned_Archive :: "PinSnapshot \<Rightarrow> string \<Rightarrow> string \<Rightarrow> bool" where
  "pinned_Archive s targetID key \<longleftrightarrow> (targetID, key) \<in> set (sn_archives s)"

section \<open>The plan\<close>

record RetentionPlan =
  rt_DeleteBases :: "string list"
  rt_DeleteChunks :: "string list"

definition days :: "int \<Rightarrow> duration" where
  "days n = wrap64 (wrap64 (n * 24) * go_Hour)"

definition chainOf :: "Chain list \<Rightarrow> (string \<Rightarrow> Chunk list) \<Rightarrow> BackupRecord \<Rightarrow> string" where
  "chainOf chns chunks b =
     (case find (\<lambda>c. coveringSegment (fst (segments (chunks (cn_ChainID c)))) b \<noteq> None) chns of
        Some c \<Rightarrow> cn_ChainID c | None \<Rightarrow> [])"

definition completed_bases :: "BackupRecord list \<Rightarrow> BackupRecord list" where
  "completed_bases bases =
     sort_key (\<lambda>b. - br_StartedAt b) (filter (\<lambda>b. br_Status b = StatusCompleted \<and> InstanceScope b) bases)"

definition newestEligible :: "(BackupRecord \<Rightarrow> string) \<Rightarrow> BackupRecord list \<Rightarrow> string" where
  "newestEligible chain_of completed =
     (case find (\<lambda>b. eligibleBase b \<and> chain_of b \<noteq> []) completed of Some b \<Rightarrow> br_ID b | None \<Rightarrow> [])"

definition keep_base :: "go_time \<Rightarrow> Stream \<Rightarrow> PinSnapshot \<Rightarrow> string \<Rightarrow> nat \<Rightarrow> BackupRecord \<Rightarrow> bool" where
  "keep_base now st pins newest i b \<longleftrightarrow>
     int i < st_BaseKeepCount st \<or> br_Pinned b \<or> pinned_Base pins (br_ID b) \<or> br_ID b = newest
     \<or> st_BaseKeepDays st > 0 \<and> go_Sub now (br_StartedAt b) < days (st_BaseKeepDays st)"

fun baseLoop :: "(nat \<Rightarrow> BackupRecord \<Rightarrow> bool) \<Rightarrow> (BackupRecord \<Rightarrow> string) \<Rightarrow> nat \<Rightarrow> string list \<Rightarrow> (string \<rightharpoonup> Timestamp)
    \<Rightarrow> BackupRecord list \<Rightarrow> string list \<times> (string \<rightharpoonup> Timestamp)" where
  "baseLoop keep chain_of i del before [] = (del, before)"
| "baseLoop keep chain_of i del before (b # bs) =
     (if \<not> keep i b then baseLoop keep chain_of (i + 1) (del @ [br_ID b]) before bs
      else let chain = chain_of b; tb = ot_TS (the (br_TBefore b)) in
        if chain \<noteq> [] \<and> eligibleBase b \<and> (case before chain of None \<Rightarrow> True | Some cur \<Rightarrow> Compare tb cur < 0)
        then baseLoop keep chain_of (i + 1) del (before(chain \<mapsto> tb)) bs
        else baseLoop keep chain_of (i + 1) del before bs)"

definition oplog_max_age :: "go_time \<Rightarrow> Stream \<Rightarrow> Timestamp" where
  "oplog_max_age now st =
     (if st_OplogMaxDays st > 0
      then Timestamp (word_of_int (go_Unix (now + wrap64 (wrap64 (- st_OplogMaxDays st * 24) * go_Hour)))) 0 else ts_zero)"

definition delete_chunk :: "Timestamp \<Rightarrow> (string \<rightharpoonup> Timestamp) \<Rightarrow> PinSnapshot \<Rightarrow> Chain \<Rightarrow> Chunk \<Rightarrow> bool" where
  "delete_chunk maxAge before pins c ch \<longleftrightarrow>
     \<not> (ck_DeletedAt ch \<noteq> None \<or> ck_Status ch = ChunkPruned \<or> pinned_Chunk pins (ck_ID ch))
     \<and> (ck_Status ch = ChunkSuperseded
        \<or> (case before (cn_ChainID c) of Some cutoff \<Rightarrow> Compare (ck_To ch) cutoff < 0 | None \<Rightarrow> \<not> chain_Open c)
        \<or> \<not> ts_IsZero maxAge \<and> Compare (ck_To ch) maxAge < 0)"

definition planRetention :: "go_time \<Rightarrow> Stream \<Rightarrow> BackupRecord list \<Rightarrow> Chain list \<Rightarrow> (string \<Rightarrow> Chunk list) \<Rightarrow> PinSnapshot \<Rightarrow> RetentionPlan" where
  "planRetention now st bases chns chunks pins =
     (let completed = completed_bases bases;
          newest = newestEligible (chainOf chns chunks) completed;
          (del, before) = baseLoop (keep_base now st pins newest) (chainOf chns chunks) 0 [] Map.empty completed
      in \<lparr>rt_DeleteBases = del,
          rt_DeleteChunks = concat (map (\<lambda>c. map ck_ID (filter (delete_chunk (oplog_max_age now st) before pins c) (chunks (cn_ChainID c)))) chns)\<rparr>)"

definition PlanRetention :: "go_time \<Rightarrow> Stream \<Rightarrow> BackupRecord list \<Rightarrow> Chain list \<Rightarrow> (string \<Rightarrow> Chunk list) \<Rightarrow> RetentionPlan" where
  "PlanRetention now st bases chns chunks = planRetention now st bases chns chunks no_pins"

section \<open>Applying it\<close>

definition RetentionActor :: string where "RetentionActor = ''pitr-retention''"
definition purgeBatch :: int where "purgeBatch = 1000"

text \<open>How removing an object ended: with an error, with the time its lock ends, or gone (also when it was not there).\<close>

datatype purge_result = PurgeFailed | PurgeLocked go_time | PurgeGone

definition purgeChunk :: "(Chunk \<Rightarrow> purge_result) \<Rightarrow> Chunk \<Rightarrow> pitr_db \<Rightarrow> bool \<times> pitr_db" where
  "purgeChunk purge c db = (case purge c of
     PurgeFailed \<Rightarrow> (False, db)
   | PurgeLocked until \<Rightarrow> (case SetChunkRetainUntil (ck_ID c) until db of Inl e \<Rightarrow> (False, db) | Inr db' \<Rightarrow> (True, db'))
   | PurgeGone \<Rightarrow> (case MarkChunkPruned (ck_ID c) db of Inl e \<Rightarrow> (e = ErrNotFound, db) | Inr db' \<Rightarrow> (True, db')))"

fun purgeLoop :: "(Chunk \<Rightarrow> purge_result) \<Rightarrow> PinSnapshot \<Rightarrow> Chunk list \<Rightarrow> bool \<times> pitr_db \<Rightarrow> bool \<times> pitr_db" where
  "purgeLoop purge pins [] (ok, db) = (ok, db)"
| "purgeLoop purge pins (c # cs) (ok, db) =
     (if pinned_Chunk pins (ck_ID c) then purgeLoop purge pins cs (ok, db)
      else case purgeChunk purge c db of (ok', db') \<Rightarrow> purgeLoop purge pins cs (ok \<and> ok', db'))"

definition purgeChunks :: "(Chunk \<Rightarrow> purge_result) \<Rightarrow> string \<Rightarrow> go_time \<Rightarrow> PinSnapshot \<Rightarrow> pitr_db \<Rightarrow> bool \<times> pitr_db" where
  "purgeChunks purge sid now pins db = purgeLoop purge pins (ListPurgeableChunks sid now purgeBatch db) (True, db)"

text \<open>The deletion of one base record: it is skipped when it changed or was pinned since the plan.\<close>

definition retire_base :: "go_time \<Rightarrow> go_time \<Rightarrow> PinSnapshot \<Rightarrow> string \<Rightarrow> BackupRecord \<Rightarrow> BackupRecord" where
  "retire_base now purgeAfter pins sid r =
     (if br_Pinned r \<or> br_Status r \<noteq> StatusCompleted \<or> pinned_Base pins (br_ID r) then r
      else MarkDeleted \<lparr>sd_At = now, sd_PurgeAfter = purgeAfter, sd_By = RetentionActor, sd_ApprovedBy = [],
             sd_Reason = ''PITR base retention of stream '' @ sid\<rparr> r)"

definition all_chunks :: "string \<Rightarrow> pitr_db \<Rightarrow> string \<Rightarrow> Chunk list" where
  "all_chunks sid db cid = (case ListChunks (chain_query sid cid) db of Inl e \<Rightarrow> [] | Inr cks \<Rightarrow> cks)"

definition chunks_listed :: "string \<Rightarrow> pitr_db \<Rightarrow> string \<Rightarrow> bool" where
  "chunks_listed sid db cid \<longleftrightarrow> (case ListChunks (chain_query sid cid) db of Inl e \<Rightarrow> False | Inr cks \<Rightarrow> True)"

text \<open>The deletions of the bases, in the order of the plan. \<open>later bid\<close> is the snapshot of the pins taken while the record
  \<open>bid\<close> is updated, and \<open>fails bid\<close> says that updating it ended with an error other than the skip: the loop returns at once.\<close>

fun retireLoop :: "(string \<Rightarrow> bool) \<Rightarrow> (string \<Rightarrow> PinSnapshot) \<Rightarrow> go_time \<Rightarrow> go_time \<Rightarrow> string \<Rightarrow> string list \<Rightarrow> BackupRecord list
    \<Rightarrow> bool \<times> BackupRecord list" where
  "retireLoop fails later now purgeAfter sid [] recs = (True, recs)"
| "retireLoop fails later now purgeAfter sid (bid # bids) recs =
     (if fails bid then (False, recs)
      else retireLoop fails later now purgeAfter sid bids
        (map (\<lambda>r. if br_ID r = bid then retire_base now purgeAfter (later bid) sid r else r) recs))"

text \<open>What \<open>cfg.Bases\<close> gives: the service has no source of base backups, listing them fails, or their records.\<close>

datatype base_source = NoBases | BasesFailed | Bases "BackupRecord list"

text \<open>\<open>RetainStream\<close> with the snapshot \<open>pins\<close> it takes at its start, the pins \<open>later\<close> at the deletion of each base, the
  updater of the records (\<open>None\<close> when the service has none) and the delete grace period. It reports whether the pass ended
  without an error, the records and the tables. After an error of the purge it decides nothing, and after a failing
  update of a base it deletes no chunk. The sweep of orphan objects that runs first changes no row and is left out.\<close>

definition RetainStream :: "(Chunk \<Rightarrow> purge_result) \<Rightarrow> go_time \<Rightarrow> duration \<Rightarrow> PinSnapshot \<Rightarrow> (string \<Rightarrow> PinSnapshot)
    \<Rightarrow> (string \<Rightarrow> bool) option \<Rightarrow> Stream \<Rightarrow> base_source \<Rightarrow> pitr_db \<Rightarrow> bool \<times> base_source \<times> pitr_db" where
  "RetainStream purge now grace pins later UpdateBase st bases db =
     (case purgeChunks purge (st_ID st) now pins db of (ok, db1) \<Rightarrow>
        if \<not> ok then (False, bases, db1)
        else case bases of
          NoBases \<Rightarrow> (True, bases, db1)
        | BasesFailed \<Rightarrow> (False, bases, db1)
        | Bases recs \<Rightarrow>
          if \<not> list_all (\<lambda>c. chunks_listed (st_ID st) db1 (cn_ChainID c)) (ListChains (st_ID st) db1) then (False, bases, db1)
          else
          (let plan = planRetention now st recs (ListChains (st_ID st) db1) (all_chunks (st_ID st) db1) pins;
               purgeAfter = now + grace;
               (done, recs') = (case UpdateBase of None \<Rightarrow> (True, recs)
                 | Some fails \<Rightarrow> retireLoop fails later now purgeAfter (st_ID st) (rt_DeleteBases plan) recs)
           in if \<not> done then (False, Bases recs', db1)
              else (True, Bases recs',
                if rt_DeleteChunks plan = [] then db1 else fst (DeleteChunks (rt_DeleteChunks plan) now purgeAfter db1))))"

section \<open>What the plan keeps\<close>

text \<open>The bases that are kept, with the numbers the loop gives them.\<close>

lemma baseLoop_del:
  "set (fst (baseLoop keep chain_of i del before bs)) = set del \<union> {br_ID b |b j. j < length bs \<and> b = bs ! j \<and> \<not> keep (i + j) b}"
proof (induction bs arbitrary: i del before)
  case (Cons b bs)
  have split: "{br_ID x |x j. j < length (b # bs) \<and> x = (b # bs) ! j \<and> \<not> keep (i + j) x}
    = (if keep i b then {} else {br_ID b}) \<union> {br_ID x |x j. j < length bs \<and> x = bs ! j \<and> \<not> keep (i + 1 + j) x}"
    (is "?L = ?A \<union> ?B")
  proof
    show "?L \<subseteq> ?A \<union> ?B"
    proof
      fix y assume "y \<in> ?L"
      then obtain j where j: "j < length (b # bs)" "y = br_ID ((b # bs) ! j)" "\<not> keep (i + j) ((b # bs) ! j)" by auto
      then show "y \<in> ?A \<union> ?B" by (cases j) auto
    qed
    have "?B \<subseteq> ?L" by (auto intro!: exI [of _ "Suc _"])
    moreover have "?A \<subseteq> ?L" by (auto intro!: exI [of _ 0])
    ultimately show "?A \<union> ?B \<subseteq> ?L" by blast
  qed
  have "\<exists>before'. fst (baseLoop keep chain_of i del before (b # bs))
      = fst (baseLoop keep chain_of (i + 1) (if keep i b then del else del @ [br_ID b]) before' bs)"
    by (cases "keep i b") (auto simp: Let_def)
  then obtain before' where b: "fst (baseLoop keep chain_of i del before (b # bs))
      = fst (baseLoop keep chain_of (i + 1) (if keep i b then del else del @ [br_ID b]) before' bs)" ..
  have "set (if keep i b then del else del @ [br_ID b]) = set del \<union> (if keep i b then {} else {br_ID b})" by simp
  then show ?case unfolding split b Cons.IH by blast
qed simp

lemma baseLoop_before_le:
  "before c = Some t \<Longrightarrow> \<exists>t'. snd (baseLoop keep chain_of i del before bs) c = Some t' \<and> t' \<le> t"
proof (induction keep chain_of i del before bs arbitrary: t rule: baseLoop.induct)
  case (2 keep chain_of i del before b bs)
  let ?tb = "ot_TS (the (br_TBefore b))"
  show ?case
  proof (cases "keep i b \<and> chain_of b \<noteq> [] \<and> eligibleBase b \<and> (case before (chain_of b) of None \<Rightarrow> True | Some cur \<Rightarrow> Compare ?tb cur < 0)")
    case True
    show ?thesis
    proof (cases "chain_of b = c")
      case same: True
      then have lt: "?tb < t" using True "2.prems" by simp
      have "\<exists>t'. snd (baseLoop keep chain_of (i + 1) del (before(chain_of b \<mapsto> ?tb)) bs) c = Some t' \<and> t' \<le> ?tb"
        by (rule "2.IH"(2)) (use True same in auto)
      then show ?thesis using True lt by (auto simp: Let_def intro: order_trans less_imp_le)
    next
      case False
      have "\<exists>t'. snd (baseLoop keep chain_of (i + 1) del (before(chain_of b \<mapsto> ?tb)) bs) c = Some t' \<and> t' \<le> t"
        by (rule "2.IH"(2)) (use True False "2.prems" in auto)
      then show ?thesis using True by (auto simp: Let_def)
    qed
  next
    case False
    show ?thesis
    proof (cases "keep i b")
      case True
      have "\<exists>t'. snd (baseLoop keep chain_of (i + 1) del before bs) c = Some t' \<and> t' \<le> t"
        by (rule "2.IH"(3)) (use True False "2.prems" in auto)
      then show ?thesis using True False by (auto simp: Let_def)
    next
      case no: False
      then show ?thesis using "2.IH"(1) [OF no "2.prems"] by simp
    qed
  qed
qed auto

lemma baseLoop_cutoff:
  assumes "j < length bs" "b = bs ! j" "keep (i + j) b" "chain_of b \<noteq> []" "eligibleBase b"
  shows "\<exists>t. snd (baseLoop keep chain_of i del before bs) (chain_of b) = Some t \<and> t \<le> ot_TS (the (br_TBefore b))"
  using assms
proof (induction bs arbitrary: i del before j)
  case (Cons x bs)
  let ?tx = "ot_TS (the (br_TBefore x))"
  show ?case
  proof (cases j)
    case 0
    then have x: "b = x" "keep i x" using Cons.prems by auto
    show ?thesis
    proof (cases "case before (chain_of x) of None \<Rightarrow> True | Some cur \<Rightarrow> Compare ?tx cur < 0")
      case True
      have "\<exists>t'. snd (baseLoop keep chain_of (i + 1) del (before(chain_of x \<mapsto> ?tx)) bs) (chain_of x) = Some t' \<and> t' \<le> ?tx"
        by (rule baseLoop_before_le) simp
      then show ?thesis using x True Cons.prems(4,5) by (simp add: Let_def)
    next
      case False
      then obtain cur where cur: "before (chain_of x) = Some cur" "cur \<le> ?tx" by (auto split: option.splits)
      have "\<exists>t'. snd (baseLoop keep chain_of (i + 1) del before bs) (chain_of x) = Some t' \<and> t' \<le> cur"
        by (rule baseLoop_before_le) (rule cur(1))
      then obtain t' where "snd (baseLoop keep chain_of (i + 1) del before bs) (chain_of x) = Some t'" "t' \<le> cur" by blast
      then show ?thesis using x False cur(2) by (auto simp: Let_def intro: order_trans)
    qed
  next
    case (Suc m)
    then have m: "m < length bs" "b = bs ! m" "keep (i + 1 + m) b" using Cons.prems by auto
    have ih: "\<exists>t. snd (baseLoop keep chain_of (Suc i) del' before' bs) (chain_of b) = Some t \<and> t \<le> ot_TS (the (br_TBefore b))" for del' before'
      using Cons.IH [of m "Suc i", OF m(1,2) _ Cons.prems(4,5)] m(3) by simp
    show ?thesis by (simp add: Let_def ih)
  qed
qed simp

text \<open>A base of the plan is kept when the loop keeps it at some place.\<close>

definition kept_base :: "go_time \<Rightarrow> Stream \<Rightarrow> BackupRecord list \<Rightarrow> Chain list \<Rightarrow> (string \<Rightarrow> Chunk list) \<Rightarrow> PinSnapshot \<Rightarrow> BackupRecord \<Rightarrow> bool" where
  "kept_base now st bases chns chunks pins b \<longleftrightarrow>
     b \<in> set (completed_bases bases) \<and> br_ID b \<notin> set (rt_DeleteBases (planRetention now st bases chns chunks pins))"

lemma plan_DeleteBases:
  "set (rt_DeleteBases (planRetention now st bases chns chunks pins)) =
    {br_ID b |b j. j < length (completed_bases bases) \<and> b = completed_bases bases ! j
      \<and> \<not> keep_base now st pins (newestEligible (chainOf chns chunks) (completed_bases bases)) j b}"
  using baseLoop_del [of "keep_base now st pins (newestEligible (chainOf chns chunks) (completed_bases bases))" "chainOf chns chunks" 0 "[]"]
  by (simp add: planRetention_def Let_def case_prod_beta)

lemma kept_cutoff:
  assumes "kept_base now st bases chns chunks pins b" "eligibleBase b" "chainOf chns chunks b \<noteq> []"
  shows "\<exists>t. snd (baseLoop (keep_base now st pins (newestEligible (chainOf chns chunks) (completed_bases bases)))
      (chainOf chns chunks) 0 [] Map.empty (completed_bases bases)) (chainOf chns chunks b) = Some t \<and> t \<le> ot_TS (the (br_TBefore b))"
proof -
  from assms(1) obtain j where j: "j < length (completed_bases bases)" "b = completed_bases bases ! j"
    by (auto simp: kept_base_def in_set_conv_nth)
  have "keep_base now st pins (newestEligible (chainOf chns chunks) (completed_bases bases)) j b"
    using assms(1) j unfolding kept_base_def plan_DeleteBases by blast
  then show ?thesis using j assms(2,3) by (intro baseLoop_cutoff [of j]) simp_all
qed

text \<open>A live chunk that a kept base needs is not among the chunks the plan deletes.\<close>

lemma needed_chunk_not_planned:
  assumes b: "kept_base now st bases chns chunks pins b" "eligibleBase b"
    and c: "c \<in> set chns" "chainOf chns chunks b = cn_ChainID c" "cn_ChainID c \<noteq> []"
    and ch: "Live ch" "ot_TS (the (br_TBefore b)) \<le> ck_To ch" "oplog_max_age now st \<le> ck_To ch"
    and ids: "\<forall>d \<in> set chns. \<forall>k \<in> set (chunks (cn_ChainID d)). ck_ID k = ck_ID ch \<longrightarrow> k = ch \<and> cn_ChainID d = cn_ChainID c"
  shows "ck_ID ch \<notin> set (rt_DeleteChunks (planRetention now st bases chns chunks pins))"
proof
  assume "ck_ID ch \<in> set (rt_DeleteChunks (planRetention now st bases chns chunks pins))"
  then obtain d k where d: "d \<in> set chns" "k \<in> set (chunks (cn_ChainID d))" "ck_ID k = ck_ID ch"
    "delete_chunk (oplog_max_age now st) (snd (baseLoop (keep_base now st pins (newestEligible (chainOf chns chunks) (completed_bases bases)))
      (chainOf chns chunks) 0 [] Map.empty (completed_bases bases))) pins d k"
    by (auto simp: planRetention_def Let_def case_prod_beta)
  have k: "k = ch" "cn_ChainID d = cn_ChainID c" using ids d(1-3) by blast+
  obtain t where t: "snd (baseLoop (keep_base now st pins (newestEligible (chainOf chns chunks) (completed_bases bases)))
      (chainOf chns chunks) 0 [] Map.empty (completed_bases bases)) (cn_ChainID c) = Some t" "t \<le> ot_TS (the (br_TBefore b))"
    using kept_cutoff [OF b] c(2,3) by auto
  have "t \<le> ck_To ch" using t(2) ch(2) by (rule order_trans)
  then show False using d(4) ch(1,3) unfolding delete_chunk_def k t(1) by (auto simp: Live_def)
qed

section \<open>The purge touches deleted rows only\<close>

definition same_live :: "pitr_db \<Rightarrow> pitr_db \<Rightarrow> bool" where
  "same_live db db' \<longleftrightarrow> filter Live (db_chunks db') = filter Live (db_chunks db) \<and> db_chains db' = db_chains db"

lemma update_rows_live:
  assumes "\<And>c. c \<in> set cs \<Longrightarrow> P c \<Longrightarrow> \<not> Live c \<and> \<not> Live (f c)"
  shows "filter Live (update_rows P f cs) = filter Live cs"
  using assms by (induction cs) (auto simp: update_rows_def)

abbreviation chunk_marks :: "pitr_db \<Rightarrow> (string \<times> go_time option) list" where
  "chunk_marks db \<equiv> map (\<lambda>k. (ck_ID k, ck_DeletedAt k)) (db_chunks db)"

text \<open>Every row of the listed IDs is deleted.\<close>

definition marked_deleted :: "Chunk list \<Rightarrow> pitr_db \<Rightarrow> bool" where
  "marked_deleted cs db \<longleftrightarrow> (\<forall>c \<in> set cs. \<forall>m \<in> set (chunk_marks db). fst m = ck_ID c \<longrightarrow> snd m \<noteq> None)"

lemma purgeChunk_live:
  assumes "pitr_inv db" "marked_deleted [c] db"
  shows "same_live db (snd (purgeChunk purge c db))" "pitr_inv (snd (purgeChunk purge c db))"
    "chunk_marks (snd (purgeChunk purge c db)) = chunk_marks db"
proof -
  show "same_live db (snd (purgeChunk purge c db))"
    using assms(2) by (auto simp: marked_deleted_def purgeChunk_def same_live_def SetChunkRetainUntil_def MarkChunkPruned_def update_chunk_def Live_def
      intro!: update_rows_live split: purge_result.splits sum.splits if_splits)
  show "pitr_inv (snd (purgeChunk purge c db))"
    using assms(1) by (auto simp: purgeChunk_def split: purge_result.splits sum.splits intro: inv_SetChunkRetainUntil inv_MarkChunkPruned)
  show "chunk_marks (snd (purgeChunk purge c db)) = chunk_marks db"
    by (auto simp: purgeChunk_def SetChunkRetainUntil_def MarkChunkPruned_def update_chunk_def map_update_rows
      split: purge_result.splits sum.splits if_splits)
qed

lemma same_live_trans: "same_live db db' \<Longrightarrow> same_live db' db'' \<Longrightarrow> same_live db db''"
  by (simp add: same_live_def)

lemma purgeLoop_live:
  assumes "pitr_inv db" "marked_deleted cs db"
  shows "same_live db (snd (purgeLoop purge pins cs (ok, db))) \<and> pitr_inv (snd (purgeLoop purge pins cs (ok, db)))"
  using assms
proof (induction cs arbitrary: ok db)
  case (Cons c cs)
  have cs: "marked_deleted cs db" "marked_deleted [c] db" using Cons.prems(2) by (simp_all add: marked_deleted_def)
  show ?case
  proof (cases "pinned_Chunk pins (ck_ID c)")
    case True
    then show ?thesis using Cons.IH [OF Cons.prems(1) cs(1), of ok] by simp
  next
    case False
    obtain ok' db' where d: "purgeChunk purge c db = (ok', db')" by (cases "purgeChunk purge c db")
    note p = purgeChunk_live [OF Cons.prems(1) cs(2), of purge, unfolded d snd_conv]
    have "marked_deleted cs db'" using cs(1) unfolding marked_deleted_def p(3) .
    from Cons.IH [OF p(2) this, of "ok \<and> ok'"] False d same_live_trans [OF p(1)] show ?thesis by simp
  qed
qed (simp add: same_live_def)

lemma purgeChunks_live:
  assumes inv: "pitr_inv db"
  shows "same_live db (snd (purgeChunks purge sid now pins db))" "pitr_inv (snd (purgeChunks purge sid now pins db))"
proof -
  have "marked_deleted (ListPurgeableChunks sid now purgeBatch db) db"
    unfolding marked_deleted_def
  proof (intro ballI impI)
    fix c m assume c: "c \<in> set (ListPurgeableChunks sid now purgeBatch db)" and m: "m \<in> set (chunk_marks db)" "fst m = ck_ID c"
    from c have c': "c \<in> set (db_chunks db)" "purgeable sid now c"
      by (auto simp: ListPurgeableChunks_def sql_page_def Let_def dest: in_set_dropD in_set_takeD split: if_splits)
    from m obtain k where k: "k \<in> set (db_chunks db)" "m = (ck_ID k, ck_DeletedAt k)" by auto
    have "k = c" using inv k m(2) c'(1) by (auto simp: pitr_inv_def inv_chunks_def distinct_map inj_on_def)
    moreover have "ck_PurgeAfter c \<noteq> None" using c'(2) by (auto simp: purgeable_def split: option.splits)
    moreover have "chunk_life c" using inv c'(1) by (simp add: pitr_inv_def inv_life_def)
    ultimately show "snd m \<noteq> None" using k(2) by (simp add: chunk_life_def)
  qed
  from purgeLoop_live [OF inv this] show "same_live db (snd (purgeChunks purge sid now pins db))"
    "pitr_inv (snd (purgeChunks purge sid now pins db))" by (simp_all add: purgeChunks_def)
qed

section \<open>Restores survive retention\<close>

lemma segLoop_live: "segLoop cur out n cs = segLoop cur out n (filter Live cs)"
  by (induction cs arbitrary: cur out n) auto

lemma segments_live: "segments cs = segments (filter Live cs)"
  using segLoop_live by (simp add: segments_def)

lemma all_chunks_rows:
  assumes "chunks_listed sid db cid"
  shows "all_chunks sid db cid = sort_key chunk_order (rows_of sid cid (db_chunks db))"
proof -
  have "sid \<noteq> []" "cid \<noteq> []" using assms by (auto simp: chunks_listed_def ListChunks_def chain_query_def split: if_splits)
  then show ?thesis by (simp add: all_chunks_def ListChunks_chain)
qed

lemma all_chunks_live: "chunks_listed sid db cid \<Longrightarrow> filter Live (all_chunks sid db cid) = live_listing sid cid db"
  by (simp add: all_chunks_rows live_listing_rows)

lemma same_live_listing: "same_live db db' \<Longrightarrow> live_listing sid cid db' = live_listing sid cid db"
proof -
  assume s: "same_live db db'"
  have *: "live_rows sid cid d = filter (\<lambda>c. ck_StreamID c = sid \<and> ck_ChainID c = cid) (filter Live (db_chunks d))" for d
    by (auto simp: live_rows_def intro: filter_cong)
  show "live_listing sid cid db' = live_listing sid cid db" using s by (simp add: live_listing_def * same_live_def)
qed

lemma chainOf_live:
  assumes "\<forall>c \<in> set chns. filter Live (chunks (cn_ChainID c)) = filter Live (chunks' (cn_ChainID c))"
  shows "chainOf chns chunks b = chainOf chns chunks' b"
proof -
  have "find (\<lambda>c. coveringSegment (fst (segments (chunks (cn_ChainID c)))) b \<noteq> None) chns
    = find (\<lambda>c. coveringSegment (fst (segments (chunks' (cn_ChainID c)))) b \<noteq> None) chns"
    using assms by (intro find_cong refl) (simp add: segments_live [of "chunks _"] segments_live [of "chunks' _"])
  then show ?thesis by (simp add: chainOf_def)
qed

lemma DeleteChunks_listing:
  "live_listing sid cid (fst (DeleteChunks ids at pa db)) = filter (\<lambda>k. ck_ID k \<notin> set ids) (live_listing sid cid db)"
proof -
  let ?f = "\<lambda>c. c\<lparr>ck_DeletedAt := Some (timeKey at), ck_PurgeAfter := Some (timeKey pa)\<rparr>"
  let ?P = "\<lambda>c. ck_StreamID c = sid \<and> ck_ChainID c = cid \<and> Live c"
  have "filter ?P (update_rows (\<lambda>c. ck_ID c \<in> set ids \<and> deletable c) ?f cs) = filter (\<lambda>k. ck_ID k \<notin> set ids) (filter ?P cs)" for cs
    by (induction cs) (auto simp: update_rows_def Live_def deletable_def)
  then show ?thesis by (simp add: live_listing_def live_rows_def DeleteChunks_rows filter_sort)
qed

text \<open>After the loop a record is untouched or marked deleted, and a completed record that was planned and is still there
  was pinned by then.\<close>

lemma retireLoop_untouched:
  "retireLoop fails later now pa sid bids recs = (True, recs') \<Longrightarrow> r \<in> set recs' \<Longrightarrow> br_Status r = StatusCompleted \<Longrightarrow>
   r \<in> set recs \<and> (br_ID r \<in> set bids \<longrightarrow> br_Pinned r \<or> pinned_Base (later (br_ID r)) (br_ID r))"
proof (induction bids arbitrary: recs)
  case (Cons bid bids)
  let ?f = "\<lambda>r. if br_ID r = bid then retire_base now pa (later bid) sid r else r"
  from Cons.prems(1) have "retireLoop fails later now pa sid bids (map ?f recs) = (True, recs')" by (auto split: if_splits)
  from Cons.IH [OF this Cons.prems(2,3)] obtain x where x: "x \<in> set recs" "r = ?f x"
    and ids: "br_ID r \<in> set bids \<longrightarrow> br_Pinned r \<or> pinned_Base (later (br_ID r)) (br_ID r)" by auto
  have "?f x = x \<and> (br_ID x = bid \<longrightarrow> br_Pinned x \<or> pinned_Base (later bid) bid)"
    using Cons.prems(3) x(2) by (auto simp: retire_base_def MarkDeleted_def split: if_splits)
  then show ?case using x ids by auto
qed simp

text \<open>An eligible base whose record is still there after the deletions was kept by the plan.\<close>

lemma unchanged_base_kept:
  assumes ids: "distinct (map br_ID recs)"
    and loop: "retireLoop fails later now pa sid (rt_DeleteBases (planRetention now st recs chns chunks pins)) recs = (True, recs')"
    and b: "b \<in> set recs'" "eligibleBase b"
    and pin: "pinned_Base (later (br_ID b)) (br_ID b) \<longrightarrow> pinned_Base pins (br_ID b)"
  shows "b \<in> set recs \<and> kept_base now st recs chns chunks pins b"
proof -
  let ?plan = "planRetention now st recs chns chunks pins"
  have st: "br_Status b = StatusCompleted" "InstanceScope b" using b(2) by (auto simp: eligibleBase_def)
  note u = retireLoop_untouched [OF loop b(1) st(1)]
  then have comp: "b \<in> set (completed_bases recs)" using st by (simp add: completed_bases_def)
  have "br_ID b \<notin> set (rt_DeleteBases ?plan)"
  proof
    assume del: "br_ID b \<in> set (rt_DeleteBases ?plan)"
    with u pin have p: "br_Pinned b \<or> pinned_Base pins (br_ID b)" by blast
    from del obtain b' j where j: "br_ID b = br_ID b'" "j < length (completed_bases recs)" "b' = completed_bases recs ! j"
      "\<not> keep_base now st pins (newestEligible (chainOf chns chunks) (completed_bases recs)) j b'"
      unfolding plan_DeleteBases by auto
    have "b' \<in> set recs" using j(2,3) nth_mem [OF j(2)] by (auto simp: completed_bases_def)
    then have "b' = b" using ids u j(1) by (auto simp: distinct_map inj_on_def)
    then show False using j(4) p by (simp add: keep_base_def)
  qed
  then show ?thesis using u comp by (simp add: kept_base_def)
qed

text \<open>A pass that ends without an error, taken apart.\<close>

lemma RetainStream_Ok:
  assumes "RetainStream purge now grace pins later (Some fails) st (Bases recs) db = (True, Bases recs', db')"
    "db1 = snd (purgeChunks purge (st_ID st) now pins db)"
    "plan = planRetention now st recs (ListChains (st_ID st) db1) (all_chunks (st_ID st) db1) pins"
  shows "\<forall>c \<in> set (ListChains (st_ID st) db1). chunks_listed (st_ID st) db1 (cn_ChainID c)"
    and "retireLoop fails later now (now + grace) (st_ID st) (rt_DeleteBases plan) recs = (True, recs')"
    and "live_listing sid cid db' = filter (\<lambda>k. ck_ID k \<notin> set (rt_DeleteChunks plan)) (live_listing sid cid db1)"
proof -
  obtain ok where "purgeChunks purge (st_ID st) now pins db = (ok, db1)" by (metis assms(2) prod.collapse)
  moreover obtain fin recs2 where loop: "retireLoop fails later now (now + grace) (st_ID st) (rt_DeleteBases plan) recs = (fin, recs2)"
    by fastforce
  ultimately have r: "list_all (\<lambda>c. chunks_listed (st_ID st) db1 (cn_ChainID c)) (ListChains (st_ID st) db1)" "fin" "recs2 = recs'"
    "db' = (if rt_DeleteChunks plan = [] then db1 else fst (DeleteChunks (rt_DeleteChunks plan) now (now + grace) db1))"
    using assms(1,3) by (auto simp: RetainStream_def Let_def split: if_splits)
  then show "\<forall>c \<in> set (ListChains (st_ID st) db1). chunks_listed (st_ID st) db1 (cn_ChainID c)"
    "retireLoop fails later now (now + grace) (st_ID st) (rt_DeleteBases plan) recs = (True, recs')"
    using loop by (simp_all add: list_all_iff)
  show "live_listing sid cid db' = filter (\<lambda>k. ck_ID k \<notin> set (rt_DeleteChunks plan)) (live_listing sid cid db1)"
    unfolding r(4) by (simp add: DeleteChunks_listing)
qed

text \<open>C14: retention keeps the oplog of the bases it keeps. Take a pass over a reachable stream that ends without an error,
  and an eligible base whose record is still completed after it, covered by a chain, and not pinned by a restore that
  started between the snapshot of the pins and the deletion of that base. Then the live chunks of the chain that end at or
  after the base's T_before, and not before the configured maximum age of the oplog when there is one, are exactly those
  that were live before the pass.\<close>

theorem retention_keeps_restores:
  assumes reach: "repo_reachable db"
    and pass: "RetainStream purge now grace pins later (Some fails) st (Bases recs) db = (True, Bases recs', db')"
    and ids: "distinct (map br_ID recs)"
    and b: "b \<in> set recs'" "eligibleBase b" "pinned_Base (later (br_ID b)) (br_ID b) \<longrightarrow> pinned_Base pins (br_ID b)"
    and cid: "chainOf (ListChains (st_ID st) db) (all_chunks (st_ID st) db) b = cid" "cid \<noteq> []"
    and need: "need = (\<lambda>k. ot_TS (the (br_TBefore b)) \<le> ck_To k \<and> oplog_max_age now st \<le> ck_To k)"
  shows "filter need (live_listing (st_ID st) cid db') = filter need (live_listing (st_ID st) cid db)"
proof -
  let ?sid = "st_ID st"
  define db1 where "db1 = snd (purgeChunks purge (st_ID st) now pins db)"
  let ?chns = "ListChains ?sid db1"
  let ?plan = "planRetention now st recs ?chns (all_chunks ?sid db1) pins"
  note inv = repo_reachable_inv [OF reach]
  note pl = purgeChunks_live [OF inv, of purge ?sid now pins, folded db1_def]
  note ok = RetainStream_Ok [OF pass db1_def refl]
  have same: "?chns = ListChains ?sid db" using pl(1) by (simp add: ListChains_def same_live_def)
  have kept: "kept_base now st recs ?chns (all_chunks ?sid db1) pins b"
    using unchanged_base_kept [OF ids ok(2) b] by blast
  have lst: "chunks_listed ?sid db1 x \<longleftrightarrow> chunks_listed ?sid db x" for x
    by (simp add: chunks_listed_def ListChunks_def)
  have "chainOf ?chns (all_chunks ?sid db1) b = chainOf ?chns (all_chunks ?sid db) b"
    using ok(1) lst same_live_listing [OF pl(1)] by (intro chainOf_live) (simp add: all_chunks_live)
  then have chain: "chainOf ?chns (all_chunks ?sid db1) b = cid" using cid(1) same by simp
  then obtain c where c: "c \<in> set ?chns" "cn_ChainID c = cid"
    using cid(2) by (auto simp: chainOf_def split: option.splits dest: find_Some_in)
  have needed: "ck_ID ch \<notin> set (rt_DeleteChunks ?plan)"
    if ch: "ch \<in> set (live_listing ?sid cid db1)" "need ch" for ch
  proof (rule needed_chunk_not_planned [OF kept b(2) c(1)])
    show "chainOf ?chns (all_chunks ?sid db1) b = cn_ChainID c" "cn_ChainID c \<noteq> []" using chain c(2) cid(2) by simp_all
    show "ot_TS (the (br_TBefore b)) \<le> ck_To ch" "oplog_max_age now st \<le> ck_To ch" using ch(2) by (simp_all add: need)
    have row: "Live ch" "ch \<in> set (db_chunks db1)" "ck_ChainID ch = cid" using ch(1) by (simp_all add: in_live_listing)
    then show "Live ch" by simp
    show "\<forall>d \<in> set ?chns. \<forall>k \<in> set (all_chunks ?sid db1 (cn_ChainID d)). ck_ID k = ck_ID ch \<longrightarrow> k = ch \<and> cn_ChainID d = cn_ChainID c"
    proof (intro ballI impI)
      fix d k assume "d \<in> set ?chns" "k \<in> set (all_chunks ?sid db1 (cn_ChainID d))" "ck_ID k = ck_ID ch"
      then have "k \<in> set (db_chunks db1)" "ck_ChainID k = cn_ChainID d" "ck_ID k = ck_ID ch"
        using ok(1) by (auto simp: all_chunks_rows rows_of_def)
      moreover from this have "k = ch" using pl(2) row(2) by (auto simp: pitr_inv_def inv_chunks_def distinct_map inj_on_def)
      ultimately show "k = ch \<and> cn_ChainID d = cn_ChainID c" using row(3) c(2) by simp
    qed
  qed
  have "filter need (live_listing ?sid cid db') = filter need (live_listing ?sid cid db1)"
    unfolding ok(3) filter_filter using needed by (intro filter_cong refl) blast
  then show ?thesis using same_live_listing [OF pl(1)] by simp
qed

text \<open>C37: Retention never plans to delete what it must keep: a pinned base (by its owner or by a restore in flight), one of
  the configured number of newest completed bases, the newest base its chain covers, and a chunk a restore in flight
  pinned.\<close>

theorem retention_spares:
  assumes "distinct (map br_ID bases)" and plan: "planRetention now st bases chns chunks pins = plan"
  shows "(\<forall>b \<in> set bases. br_Pinned b \<or> pinned_Base pins (br_ID b) \<longrightarrow> br_ID b \<notin> set (rt_DeleteBases plan))
    \<and> (\<forall>j < length (completed_bases bases). int j < st_BaseKeepCount st \<longrightarrow> br_ID (completed_bases bases ! j) \<notin> set (rt_DeleteBases plan))
    \<and> (\<forall>j < length (completed_bases bases). eligibleBase (completed_bases bases ! j) \<and> chainOf chns chunks (completed_bases bases ! j) \<noteq> []
         \<and> (\<forall>i < j. \<not> (eligibleBase (completed_bases bases ! i) \<and> chainOf chns chunks (completed_bases bases ! i) \<noteq> []))
         \<longrightarrow> br_ID (completed_bases bases ! j) \<notin> set (rt_DeleteBases plan))
    \<and> (\<forall>i. pinned_Chunk pins i \<longrightarrow> i \<notin> set (rt_DeleteChunks plan))"
proof -
  let ?cs = "completed_bases bases"
  let ?E = "\<lambda>b. eligibleBase b \<and> chainOf chns chunks b \<noteq> []"
  have sub: "set ?cs \<subseteq> set bases" by (auto simp: completed_bases_def)
  have inj: "x = y" if "x \<in> set bases" "y \<in> set bases" "br_ID x = br_ID y" for x y
    using assms(1) that by (auto simp: distinct_map inj_on_def)
  have "mset (map br_ID ?cs) = mset (map br_ID (filter (\<lambda>b. br_Status b = StatusCompleted \<and> InstanceScope b) bases))"
    by (simp add: completed_bases_def)
  then have dc: "distinct (map br_ID ?cs)" using assms(1) by (metis distinct_map_filter mset_eq_imp_distinct_iff)
  have del: "\<exists>j < length ?cs. x = br_ID (?cs ! j) \<and> \<not> keep_base now st pins (newestEligible (chainOf chns chunks) ?cs) j (?cs ! j)"
    if "x \<in> set (rt_DeleteBases plan)" for x using that unfolding plan [symmetric] plan_DeleteBases by blast
  have at: "i = j" if "i < length ?cs" "j < length ?cs" "br_ID (?cs ! i) = br_ID (?cs ! j)" for i j
    using dc that by (metis distinct_conv_nth length_map nth_map)
  have 1: "br_ID b \<notin> set (rt_DeleteBases plan)" if b: "b \<in> set bases" "br_Pinned b \<or> pinned_Base pins (br_ID b)" for b
  proof
    assume "br_ID b \<in> set (rt_DeleteBases plan)"
    from del [OF this] obtain j where j: "j < length ?cs" "br_ID b = br_ID (?cs ! j)"
      "\<not> keep_base now st pins (newestEligible (chainOf chns chunks) ?cs) j (?cs ! j)" by blast
    have "?cs ! j = b" using inj b(1) sub j(1,2) nth_mem by (metis subsetD)
    then show False using j(3) b(2) by (simp add: keep_base_def)
  qed
  have 2: "br_ID (?cs ! j) \<notin> set (rt_DeleteBases plan)" if j: "j < length ?cs" "int j < st_BaseKeepCount st" for j
  proof
    assume "br_ID (?cs ! j) \<in> set (rt_DeleteBases plan)"
    from del [OF this] at j(1) have "\<not> keep_base now st pins (newestEligible (chainOf chns chunks) ?cs) j (?cs ! j)" by metis
    then show False using j(2) by (simp add: keep_base_def)
  qed
  have 3: "br_ID (?cs ! j) \<notin> set (rt_DeleteBases plan)" if j: "j < length ?cs" "?E (?cs ! j)" "\<forall>i < j. \<not> ?E (?cs ! i)" for j
  proof
    assume "br_ID (?cs ! j) \<in> set (rt_DeleteBases plan)"
    from del [OF this] at j(1) have "\<not> keep_base now st pins (newestEligible (chainOf chns chunks) ?cs) j (?cs ! j)" by metis
    moreover have "find ?E ?cs = Some (?cs ! j)" unfolding find_Some_iff using j by blast
    ultimately show False by (simp add: keep_base_def newestEligible_def)
  qed
  have 4: "i \<notin> set (rt_DeleteChunks plan)" if "pinned_Chunk pins i" for i
    using that by (auto simp: plan [symmetric] planRetention_def Let_def case_prod_beta delete_chunk_def)
  show ?thesis using 1 2 3 4 by blast
qed

text \<open>A pin holds while it is refreshed: every snapshot taken within the maximum age of the pin's last refresh names all
  the pin names and keeps the pin, and a refresh restarts the age; a snapshot after that drops the pin and reports it.\<close>

theorem pin_holds:
  assumes "distinct (map fst (pin_pins p))" "map_of (pin_pins p) n = Some e"
  shows "(go_Sub now (pe_refreshed e) \<le> pin_maxAge p \<longrightarrow>
      (\<forall>i \<in> set (pt_Bases (pe_what e)). pinned_Base (fst (pin_Snapshot now p)) i)
      \<and> (\<forall>i \<in> set (pt_Chunks (pe_what e)). pinned_Chunk (fst (pin_Snapshot now p)) i)
      \<and> (\<forall>(t, k) \<in> set (pt_Archives (pe_what e)). pinned_Archive (fst (pin_Snapshot now p)) t k)
      \<and> map_of (pin_pins (snd (pin_Snapshot now p))) n = Some e)
    \<and> (go_Sub now (pe_refreshed e) > pin_maxAge p \<longrightarrow> map_of (pin_pins (snd (pin_Snapshot now p))) n = None
      \<and> (pe_owner e, go_Sub now (pe_refreshed e)) \<in> set (sn_Expired (fst (pin_Snapshot now p))))
    \<and> fst (pin_Refresh now n p) \<and> map_of (pin_pins (snd (pin_Refresh now n p))) n = Some (e\<lparr>pe_refreshed := now\<rparr>)"
proof -
  have e: "(n, e) \<in> set (pin_pins p)" using assms(2) by (rule map_of_SomeD)
  let ?live = "filter (\<lambda>ne. \<not> pin_expired now p (snd ne)) (pin_pins p)"
  have d: "distinct (map fst ?live)" using assms(1) by (rule distinct_map_filter)
  have in_live: "(n, e) \<in> set ?live" if "\<not> pin_expired now p e" using e that by simp
  have live: "map_of ?live n = Some e" if "\<not> pin_expired now p e"
    by (rule map_of_is_SomeI [OF d in_live [OF that]])
  have gone: "map_of ?live n = None" if "pin_expired now p e"
  proof (rule ccontr)
    assume "map_of ?live n \<noteq> None"
    then obtain e' where e': "(n, e') \<in> set ?live" by (auto dest: map_of_SomeD)
    then have "(n, e') \<in> set (pin_pins p)" by simp
    then have "e' = e" using assms map_of_is_SomeI by (metis option.inject)
    with e' that show False by simp
  qed
  have r: "fst (pin_Refresh now n p)" "map_of (pin_pins (snd (pin_Refresh now n p))) n = Some (e\<lparr>pe_refreshed := now\<rparr>)"
    using assms(2) by (simp_all add: pin_Refresh_def update_conv)
  show ?thesis
  proof (cases "pin_expired now p e")
    case True
    have "e \<in> snd ` {x \<in> set (pin_pins p). pin_expired now p (snd x)}" using e True by force
    then show ?thesis using True gone r by (auto simp: pin_expired_def pin_Snapshot_def Let_def)
  next
    case False
    then show ?thesis using live r e
      by (auto simp: pin_expired_def pin_Snapshot_def Let_def pinned_Base_def pinned_Chunk_def pinned_Archive_def)
  qed
qed

section \<open>Samples\<close>

definition keep_one :: Stream where "keep_one = sample_stream\<lparr>st_BaseKeepCount := 1, st_OplogMaxDays := 0\<rparr>"

lemma keep_one_ID [simp]: "st_ID keep_one = ''s''" by (simp add: keep_one_def sample_stream_def)

lemma sample_purge: "purgeChunks purge ''s'' now pins sample_db2 = (True, sample_db2)"
proof -
  have "filter (purgeable ''s'' now) (db_chunks sample_db2) = []"
    by (simp add: sample_db_def purgeable_def sample_chunk_def)
  then show ?thesis by (simp add: purgeChunks_def ListPurgeableChunks_def sql_page_def)
qed

lemma sample_pass:
  "\<exists>db'. RetainStream purge now grace no_pins (\<lambda>_. no_pins) (Some (\<lambda>_. False)) keep_one (Bases [sample_pitr_record]) sample_db2
     = (True, Bases [sample_pitr_record], db')"
proof -
  have c: "completed_bases [sample_pitr_record] = [sample_pitr_record]"
    by (simp add: completed_bases_def InstanceScope_def)
  have "rt_DeleteBases (planRetention now keep_one [sample_pitr_record] chns chunks no_pins) = []" for chns chunks
  proof -
    have "set (rt_DeleteBases (planRetention now keep_one [sample_pitr_record] chns chunks no_pins)) = {}"
      unfolding plan_DeleteBases c by (auto simp: keep_base_def keep_one_def)
    then show ?thesis by simp
  qed
  moreover have "chunks_listed ''s'' sample_db2 (cn_ChainID sample_chain)"
    by (simp add: chunks_listed_def ListChunks_chain sample_chain_def)
  ultimately show ?thesis by (simp add: RetainStream_def Let_def sample_purge sample_ListChains)
qed

lemma sample_chainOf: "chainOf (ListChains ''s'' sample_db2) (all_chunks ''s'' sample_db2) sample_pitr_record = ''c''"
proof -
  have cid: "cn_ChainID sample_chain = ''c''" by (simp add: sample_chain_def)
  have terms: "ck_FirstTerm (sample_chunk i f t) = 1" "ck_LastTerm (sample_chunk i f t) = 1" for i f t
    by (simp_all add: sample_chunk_def)
  have l: "chunks_listed ''s'' sample_db2 ''c''" by (simp add: chunks_listed_def ListChunks_chain)
  have "segments (all_chunks ''s'' sample_db2 ''c'') = segments [chunk1, chunk2]"
    by (subst segments_live) (simp add: all_chunks_live [OF l] sample_listing)
  then show ?thesis
    by (simp add: chainOf_def sample_ListChains cid segments_def coveringSegment_def covers_def seg_extend_def seg_flush_def
      termAt_def terms less_Timestamp_def less_eq_Timestamp_def)
qed

theorem retention_keeps_restores_witness:
  "\<exists>db'. RetainStream (\<lambda>_. PurgeGone) 0 0 no_pins (\<lambda>_. no_pins) (Some (\<lambda>_. False)) keep_one (Bases [sample_pitr_record]) sample_db2
      = (True, Bases [sample_pitr_record], db')
    \<and> filter (\<lambda>k. Timestamp 120 1 \<le> ck_To k) (live_listing ''s'' ''c'' db') = filter (\<lambda>k. Timestamp 120 1 \<le> ck_To k) [chunk1, chunk2]"
proof -
  obtain db' where p: "RetainStream (\<lambda>_. PurgeGone) 0 0 no_pins (\<lambda>_. no_pins) (Some (\<lambda>_. False)) keep_one (Bases [sample_pitr_record]) sample_db2
      = (True, Bases [sample_pitr_record], db')"
    using sample_pass by blast
  have e: "eligibleBase sample_pitr_record" by (simp add: eligibleBase_def InstanceScope_def)
  have need: "(\<lambda>k. Timestamp 120 1 \<le> ck_To k) = (\<lambda>k. ot_TS (the (br_TBefore sample_pitr_record)) \<le> ck_To k \<and> oplog_max_age 0 keep_one \<le> ck_To k)"
  proof
    fix k show "(Timestamp 120 1 \<le> ck_To k) = (ot_TS (the (br_TBefore sample_pitr_record)) \<le> ck_To k \<and> oplog_max_age 0 keep_one \<le> ck_To k)"
      by (cases "ck_To k") (auto simp: oplog_max_age_def keep_one_def less_eq_Timestamp_def less_Timestamp_def word_neq_0_conv)
  qed
  have "filter (\<lambda>k. Timestamp 120 1 \<le> ck_To k) (live_listing (st_ID keep_one) ''c'' db')
    = filter (\<lambda>k. Timestamp 120 1 \<le> ck_To k) (live_listing (st_ID keep_one) ''c'' sample_db2)"
    by (rule retention_keeps_restores [OF sample_reachable(3) p _ _ e _ _ _ need]) (use sample_chainOf in simp_all)
  then show ?thesis using p by (auto simp: sample_listing)
qed

theorem retention_spares_witness:
  "br_ID sample_pitr_record \<notin> set (rt_DeleteBases (planRetention 0 keep_one [sample_pitr_record] [] (\<lambda>_. []) no_pins))"
proof -
  have c: "completed_bases [sample_pitr_record] = [sample_pitr_record]" by (simp add: completed_bases_def InstanceScope_def)
  have "\<forall>j < length (completed_bases [sample_pitr_record]). int j < st_BaseKeepCount keep_one \<longrightarrow>
      br_ID (completed_bases [sample_pitr_record] ! j) \<notin> set (rt_DeleteBases (planRetention 0 keep_one [sample_pitr_record] [] (\<lambda>_. []) no_pins))"
    using retention_spares [OF _ refl, where bases = "[sample_pitr_record]" and now = 0 and st = keep_one and chns = "[]"
      and chunks = "\<lambda>_. []" and pins = no_pins] by simp
  then show ?thesis unfolding c by (simp add: keep_one_def)
qed

theorem pin_holds_witness:
  "pinned_Chunk (fst (pin_Snapshot 5 (snd (pin_Pin 0 ''r'' \<lparr>pt_Bases = [], pt_Chunks = [''k''], pt_Archives = []\<rparr> (NewPinSet 0))))) ''k''"
proof -
  let ?p = "snd (pin_Pin 0 ''r'' \<lparr>pt_Bases = [], pt_Chunks = [''k''], pt_Archives = []\<rparr> (NewPinSet 0))"
  let ?e = "\<lparr>pe_owner = ''r'', pe_refreshed = 0, pe_what = \<lparr>pt_Bases = [], pt_Chunks = [''k''], pt_Archives = []\<rparr>\<rparr>"
  have "distinct (map fst (pin_pins ?p))" "map_of (pin_pins ?p) 1 = Some ?e"
    by (simp_all add: pin_Pin_def NewPinSet_def Let_def)
  from pin_holds [OF this, of 5] show ?thesis
    by (simp add: go_Sub_def sat64_def pin_Pin_def NewPinSet_def Let_def DefaultPinMaxAge_def go_units)
qed

end
