(* ===== verification/Oplog_Scanner.thy ===== *)
theory Oplog_Scanner
  imports Pitr_Types
begin

text \<open>
  The oplog codec's framing, \<open>src/internal/oplog/oplog.go\<close> and \<open>scanner.go\<close>: length-prefixed BSON documents, the
  \<open>Reader\<close> that reads them one at a time and the \<open>Scanner\<close> that walks them as they are written, whatever the write
  boundaries. The BSON codec of the MongoDB driver is a parameter (\<open>bson_codec\<close>): whether a document is valid and what
  its fields \<open>ts\<close> and \<open>t\<close> hold. The theory shows that the \<open>Scanner\<close>, fed a stream in any pieces, sees exactly the
  documents the \<open>Reader\<close> later reads back from it.
\<close>

section \<open>Documents\<close>

type_synonym byte = "8 word"

record bson_codec =
  bc_Validate :: "byte list \<Rightarrow> bool"
  bc_TS :: "byte list \<Rightarrow> Timestamp option"
  bc_Term :: "byte list \<Rightarrow> int option"

definition MaxEntrySize :: nat where "MaxEntrySize = 16 * 1024 * 1024 + 16 * 1024"

definition minDocumentSize :: nat where "minDocumentSize = 5"

datatype oplog_error = ErrTruncated | ErrMalformed | ErrSink | ErrReadFailed

text \<open>\<open>binary.LittleEndian.Uint32\<close> of the four bytes of a prefix.\<close>

definition le_uint32 :: "byte list \<Rightarrow> nat" where
  "le_uint32 p = unat (p ! 0) + 256 * unat (p ! 1) + 65536 * unat (p ! 2) + 16777216 * unat (p ! 3)"

definition documentSize :: "byte list \<Rightarrow> oplog_error + nat" where
  "documentSize prefix = (let n = le_uint32 prefix in
     if n < minDocumentSize \<or> n > MaxEntrySize then Err ErrMalformed else Ok n)"

definition entryTerm :: "bson_codec \<Rightarrow> byte list \<Rightarrow> int" where
  "entryTerm b doc = (case bc_Term b doc of Some t \<Rightarrow> t | None \<Rightarrow> - 1)"

definition entryOpTime :: "bson_codec \<Rightarrow> byte list \<Rightarrow> oplog_error + OpTime" where
  "entryOpTime b doc =
     (if \<not> bc_Validate b doc then Err ErrMalformed
      else case bc_TS b doc of
        None \<Rightarrow> Err ErrMalformed
      | Some ts \<Rightarrow> Ok \<lparr>ot_TS = ts, ot_Term = entryTerm b doc\<rparr>)"

section \<open>Reading a stream back\<close>

text \<open>
  A reader over a stream: the bytes it still delivers, and whether it then fails instead of ending. \<open>io.ReadFull\<close>
  delivers fewer bytes than asked for only at the end of the stream.
\<close>

record oplog_Reader =
  rd_bytes :: "byte list"
  rd_fails :: bool

datatype next_result = NextEOF | NextErr oplog_error | NextDoc "byte list"

definition reader_Next :: "oplog_Reader \<Rightarrow> next_result \<times> oplog_Reader" where
  "reader_Next r = (let bs = rd_bytes r; over = r\<lparr>rd_bytes := []\<rparr> in
     if length bs < 4
     then (if rd_fails r then NextErr ErrReadFailed else if bs = [] then NextEOF else NextErr ErrTruncated, over)
     else case documentSize (take 4 bs) of
       Inl e \<Rightarrow> (NextErr e, r\<lparr>rd_bytes := drop 4 bs\<rparr>)
     | Inr sz \<Rightarrow>
         if length bs < sz
         then (if rd_fails r then NextErr ErrReadFailed else NextErr ErrTruncated, over)
         else (NextDoc (take sz bs), r\<lparr>rd_bytes := drop sz bs\<rparr>))"

text \<open>Reading until the end of the stream, as every consumer of a \<open>Reader\<close> does.\<close>

lemma documentSize_Ok: "documentSize p = Ok n \<Longrightarrow> 5 \<le> n \<and> n \<le> MaxEntrySize \<and> n = le_uint32 p"
  by (auto simp: documentSize_def Let_def minDocumentSize_def split: if_splits)

lemma documentSize_Err: "documentSize p = Err e \<Longrightarrow> e = ErrMalformed"
  by (auto simp: documentSize_def Let_def split: if_splits)

lemma reader_Next_shorter: "reader_Next r = (NextDoc d, r') \<Longrightarrow> length (rd_bytes r') < length (rd_bytes r)"
  using documentSize_Ok by (fastforce simp: reader_Next_def Let_def split: if_splits sum.splits)

function read_all :: "oplog_Reader \<Rightarrow> byte list list \<times> oplog_error option" where
  "read_all r = (case reader_Next r of
     (NextEOF, _) \<Rightarrow> ([], None)
   | (NextErr e, _) \<Rightarrow> ([], Some e)
   | (NextDoc d, r') \<Rightarrow> (case read_all r' of (ds, e) \<Rightarrow> (d # ds, e)))"
  by pat_completeness auto
termination
  by (relation "measure (\<lambda>r. length (rd_bytes r))") (auto dest: reader_Next_shorter [OF sym])

declare read_all.simps [simp del]

section \<open>The scanner\<close>

text \<open>
  The bytes of the current length prefix (\<open>prefixN\<close> is their number), those of the current document (\<open>docN\<close>) and its
  size (\<open>len(doc)\<close>); the count and the first and last positions; the error that stopped it; and the bytes passed on to
  the underlying writer.
\<close>

record Scanner =
  sc_prefix :: "byte list"
  sc_doc :: "byte list"
  sc_size :: nat
  sc_count :: nat
  sc_first :: OpTime
  sc_last :: OpTime
  sc_err :: "oplog_error option"
  sc_out :: "byte list"

definition optime_zero :: OpTime where "optime_zero = \<lparr>ot_TS = ts_zero, ot_Term = 0\<rparr>"

definition NewScanner :: Scanner where
  "NewScanner = \<lparr>sc_prefix = [], sc_doc = [], sc_size = 0, sc_count = 0, sc_first = optime_zero,
     sc_last = optime_zero, sc_err = None, sc_out = []\<rparr>"

definition scanner_entry :: "bson_codec \<Rightarrow> byte list \<Rightarrow> Scanner \<Rightarrow> oplog_error + Scanner" where
  "scanner_entry b doc s = (case entryOpTime b doc of
     Inl e \<Rightarrow> Err e
   | Inr pos \<Rightarrow> Ok (s\<lparr>sc_first := (if sc_count s = 0 then pos else sc_first s), sc_last := pos,
       sc_count := sc_count s + 1\<rparr>))"

text \<open>One turn of the loop of \<open>scan\<close>: fill the prefix, then the document, then record it. \<open>ScanMore\<close> goes on with the
  bytes left.\<close>

datatype scan_turn = ScanDone Scanner | ScanErr oplog_error Scanner | ScanMore Scanner "byte list"

definition fill_doc :: "bson_codec \<Rightarrow> Scanner \<Rightarrow> byte list \<Rightarrow> scan_turn" where
  "fill_doc b s p =
     (let n = min (sc_size s - length (sc_doc s)) (length p);
          s1 = s\<lparr>sc_doc := sc_doc s @ take n p\<rparr>; p1 = drop n p
      in if length (sc_doc s1) < sc_size s1 then ScanDone s1
         else case scanner_entry b (sc_doc s1) s1 of
           Inl e \<Rightarrow> ScanErr e s1
         | Inr s2 \<Rightarrow> ScanMore (s2\<lparr>sc_prefix := [], sc_doc := []\<rparr>) p1)"

definition scan_once :: "bson_codec \<Rightarrow> Scanner \<Rightarrow> byte list \<Rightarrow> scan_turn" where
  "scan_once b s p =
     (if length (sc_prefix s) < 4
      then let n = min (4 - length (sc_prefix s)) (length p);
               s1 = s\<lparr>sc_prefix := sc_prefix s @ take n p\<rparr>; p1 = drop n p
           in if length (sc_prefix s1) < 4 then ScanDone s1
              else case documentSize (sc_prefix s1) of
                Inl e \<Rightarrow> ScanErr e s1
              | Inr sz \<Rightarrow> fill_doc b (s1\<lparr>sc_size := sz, sc_doc := sc_prefix s1\<rparr>) p1
      else fill_doc b s p)"

lemma fill_doc_More: "fill_doc b s p = ScanMore s' q \<Longrightarrow> sc_prefix s' = [] \<and> q = drop (min (sc_size s - length (sc_doc s)) (length p)) p"
  by (auto simp: fill_doc_def Let_def split: if_splits sum.splits)

lemma scan_once_shorter:
  assumes "scan_once b s p = ScanMore s' q" "p \<noteq> []"
  shows "length q < length p \<or> length q = length p \<and> sc_prefix s' = [] \<and> 4 \<le> length (sc_prefix s)"
proof (cases "length (sc_prefix s) < 4")
  case True
  then show ?thesis using assms by (auto simp: scan_once_def Let_def split: if_splits sum.splits dest!: fill_doc_More)
next
  case False
  with assms have "fill_doc b s p = ScanMore s' q" by (simp add: scan_once_def)
  from fill_doc_More [OF this] False assms(2) show ?thesis by auto
qed

function scan :: "bson_codec \<Rightarrow> Scanner \<Rightarrow> byte list \<Rightarrow> oplog_error option \<times> Scanner" where
  "scan b s p = (if p = [] then (None, s)
     else case scan_once b s p of
       ScanDone s' \<Rightarrow> (None, s')
     | ScanErr e s' \<Rightarrow> (Some e, s')
     | ScanMore s' q \<Rightarrow> scan b s' q)"
  by pat_completeness auto
termination
  by (relation "measures [\<lambda>(b, s, p). length p, \<lambda>(b, s, p). length (sc_prefix s)]") (auto dest!: scan_once_shorter)

declare scan.simps [simp del]

text \<open>\<open>Write\<close>: the underlying writer takes all bytes, or fails after some of them (\<open>sink\<close>).\<close>

definition scanner_Write :: "bson_codec \<Rightarrow> nat option \<Rightarrow> byte list \<Rightarrow> Scanner \<Rightarrow> (nat \<times> oplog_error option) \<times> Scanner" where
  "scanner_Write b sink p s =
     (case sc_err s of
        Some e \<Rightarrow> ((0, Some e), s)
      | None \<Rightarrow>
          (case scan b s p of
             (Some e, s1) \<Rightarrow> ((0, Some e), s1\<lparr>sc_err := Some e\<rparr>)
           | (None, s1) \<Rightarrow>
               (case sink of
                  None \<Rightarrow> ((length p, None), s1\<lparr>sc_out := sc_out s1 @ p\<rparr>)
                | Some n \<Rightarrow> ((min n (length p), Some ErrSink),
                    s1\<lparr>sc_err := Some ErrSink, sc_out := sc_out s1 @ take n p\<rparr>))))"

definition scanner_Finish :: "Scanner \<Rightarrow> oplog_error option" where
  "scanner_Finish s = (case sc_err s of Some e \<Rightarrow> Some e
     | None \<Rightarrow> if 0 < length (sc_prefix s) then Some ErrTruncated else None)"

section \<open>The walk does not depend on the write boundaries\<close>

text \<open>What the scanner still needs more bytes for.\<close>

definition pending :: "Scanner \<Rightarrow> byte list" where
  "pending s = (if length (sc_prefix s) < 4 then sc_prefix s else sc_doc s)"

definition sc_inv :: "Scanner \<Rightarrow> bool" where
  "sc_inv s \<longleftrightarrow> length (sc_prefix s) < 4
     \<or> length (sc_prefix s) = 4 \<and> take 4 (sc_doc s) = sc_prefix s \<and> 4 \<le> length (sc_doc s)
       \<and> length (sc_doc s) < sc_size s \<and> documentSize (sc_prefix s) = Ok (sc_size s)"

text \<open>The walk of a whole stream: the documents it holds, up to the first bad one, and the bytes of an unfinished one.\<close>

function walk :: "bson_codec \<Rightarrow> byte list \<Rightarrow> OpTime list \<times> (oplog_error + byte list)" where
  "walk b bs =
     (if length bs < 4 then ([], Ok bs)
      else case documentSize (take 4 bs) of
        Inl e \<Rightarrow> ([], Err e)
      | Inr sz \<Rightarrow>
          if length bs < sz then ([], Ok bs)
          else case entryOpTime b (take sz bs) of
            Inl e \<Rightarrow> ([], Err e)
          | Inr pos \<Rightarrow> (case walk b (drop sz bs) of (ps, r) \<Rightarrow> (pos # ps, r)))"
  by pat_completeness auto
termination
  by (relation "measure (\<lambda>(b, bs). length bs)") (auto dest!: documentSize_Ok)

declare walk.simps [simp del]

definition counted :: "OpTime list \<Rightarrow> Scanner \<Rightarrow> Scanner" where
  "counted ps s = s\<lparr>sc_count := sc_count s + length ps,
     sc_first := (if sc_count s = 0 \<and> ps \<noteq> [] then hd ps else sc_first s),
     sc_last := (if ps = [] then sc_last s else last ps)\<rparr>"

abbreviation scan_full :: "Scanner \<Rightarrow> bool" where
  "scan_full s \<equiv> length (sc_prefix s) = 4 \<and> take 4 (sc_doc s) = sc_prefix s \<and> 4 \<le> length (sc_doc s)
     \<and> length (sc_doc s) < sc_size s \<and> documentSize (sc_prefix s) = Ok (sc_size s)"

text \<open>What one turn of the loop does to the walk of the pending bytes and the new ones.\<close>

definition turn_ok :: "bson_codec \<Rightarrow> Scanner \<Rightarrow> byte list \<Rightarrow> scan_turn \<Rightarrow> bool" where
  "turn_ok b s u t = (case t of
     ScanDone s' \<Rightarrow> walk b u = ([], Ok (pending s')) \<and> sc_inv s' \<and> (\<exists>px dc z. s' = s\<lparr>sc_prefix := px, sc_doc := dc, sc_size := z\<rparr>)
   | ScanErr e s' \<Rightarrow> walk b u = ([], Err e) \<and> sc_count s' = sc_count s \<and> sc_out s' = sc_out s
   | ScanMore s' q \<Rightarrow> \<exists>pos px dc z. s' = (counted [pos] s)\<lparr>sc_prefix := px, sc_doc := dc, sc_size := z\<rparr> \<and> px = []
       \<and> walk b u = (case walk b q of (ps, r) \<Rightarrow> (pos # ps, r)))"

lemma fill_doc_turn:
  assumes "scan_full s"
  shows "turn_ok b s (sc_doc s @ p) (fill_doc b s p)"
proof (cases "length (sc_doc s) + length p < sc_size s")
  case True
  then have "fill_doc b s p = ScanDone (s\<lparr>sc_doc := sc_doc s @ p\<rparr>)" using assms by (simp add: fill_doc_def Let_def)
  moreover have "walk b (sc_doc s @ p) = ([], Ok (sc_doc s @ p))" using True assms by (simp add: walk.simps)
  moreover have "\<exists>px dc z. s\<lparr>sc_doc := sc_doc s @ p\<rparr> = s\<lparr>sc_prefix := px, sc_doc := dc, sc_size := z\<rparr>"
    by (rule exI [of _ "sc_prefix s"], rule exI [of _ "sc_doc s @ p"], rule exI [of _ "sc_size s"]) simp
  ultimately show ?thesis using True assms by (simp add: turn_ok_def pending_def sc_inv_def)
next
  case False
  let ?n = "sc_size s - length (sc_doc s)"
  let ?d = "sc_doc s @ take ?n p"
  have n: "min ?n (length p) = ?n" using False by simp
  have d: "take (sc_size s) (sc_doc s @ p) = ?d" "drop (sc_size s) (sc_doc s @ p) = drop ?n p" using assms by simp_all
  have w: "walk b (sc_doc s @ p) = (case entryOpTime b ?d of Inl e \<Rightarrow> ([], Err e)
      | Inr pos \<Rightarrow> (case walk b (drop ?n p) of (ps, r) \<Rightarrow> (pos # ps, r)))"
    unfolding d(2) [symmetric] using False assms d(1) by (subst walk.simps) simp
  show ?thesis
  proof (cases "entryOpTime b ?d")
    case (Inl e)
    then show ?thesis using False n w by (simp add: turn_ok_def fill_doc_def Let_def scanner_entry_def)
  next
    case (Inr pos)
    have "fill_doc b s p = ScanMore ((counted [pos] s)\<lparr>sc_prefix := [], sc_doc := [], sc_size := sc_size s\<rparr>) (drop ?n p)"
      using Inr False n by (simp add: fill_doc_def Let_def scanner_entry_def counted_def)
    with Inr w show ?thesis unfolding turn_ok_def by auto
  qed
qed

lemma counted_frame: "(counted ps (s\<lparr>sc_prefix := a, sc_size := c, sc_doc := d\<rparr>))\<lparr>sc_prefix := px, sc_doc := dc, sc_size := z\<rparr>
    = (counted ps s)\<lparr>sc_prefix := px, sc_doc := dc, sc_size := z\<rparr>"
  by (simp add: counted_def)

lemma turn_ok_frame: "turn_ok b (s\<lparr>sc_prefix := a, sc_size := c, sc_doc := d\<rparr>) u t = turn_ok b s u t"
  unfolding turn_ok_def counted_frame by (simp split: scan_turn.split)

lemma take_of_append: "zs = xs @ ys \<Longrightarrow> length xs = n \<Longrightarrow> take n zs = xs \<and> n \<le> length zs"
  by auto

lemma scan_once_turn:
  assumes "sc_inv s"
  shows "turn_ok b s (pending s @ p) (scan_once b s p)"
proof (cases "length (sc_prefix s) < 4")
  case False
  then show ?thesis using assms fill_doc_turn [of s b p] by (simp add: sc_inv_def pending_def scan_once_def)
next
  case True
  let ?n = "min (4 - length (sc_prefix s)) (length p)"
  let ?px = "sc_prefix s @ take ?n p"
  have pend: "pending s @ p = ?px @ drop ?n p" using True by (simp add: pending_def)
  show ?thesis
  proof (cases "length (sc_prefix s) + length p < 4")
    case short: True
    then have "scan_once b s p = ScanDone (s\<lparr>sc_prefix := sc_prefix s @ p\<rparr>)" by (simp add: scan_once_def Let_def)
    moreover have "\<exists>px dc z. s\<lparr>sc_prefix := sc_prefix s @ p\<rparr> = s\<lparr>sc_prefix := px, sc_doc := dc, sc_size := z\<rparr>"
      by (rule exI [of _ "sc_prefix s @ p"], rule exI [of _ "sc_doc s"], rule exI [of _ "sc_size s"]) simp
    ultimately show ?thesis using short True by (simp add: turn_ok_def pending_def sc_inv_def walk.simps)
  next
    case long: False
    then have len: "length ?px = 4" using True by simp
    note t4 = take_of_append [OF pend len, THEN conjunct1] and l4 = take_of_append [OF pend len, THEN conjunct2]
    show ?thesis
    proof (cases "documentSize ?px")
      case (Inl e)
      then have "walk b (pending s @ p) = ([], Err e)" using t4 l4 by (subst walk.simps) simp
      with Inl len True show ?thesis by (simp add: turn_ok_def scan_once_def Let_def)
    next
      case (Inr z)
      let ?s1 = "s\<lparr>sc_prefix := ?px, sc_size := z, sc_doc := ?px\<rparr>"
      have full: "scan_full ?s1" using len Inr documentSize_Ok [OF Inr] by simp
      have o: "scan_once b s p = fill_doc b ?s1 (drop ?n p)" using len Inr True by (simp add: scan_once_def Let_def)
      have "turn_ok b ?s1 (pending s @ p) (scan_once b s p)" using fill_doc_turn [OF full, of b "drop ?n p"] unfolding o pend by simp
      then show ?thesis unfolding turn_ok_frame .
    qed
  qed
qed

lemma scan_walk:
  assumes "sc_inv s"
  shows "case walk b (pending s @ p) of
     (ps, Inl e) \<Rightarrow> fst (scan b s p) = Some e
   | (ps, Inr rest) \<Rightarrow> \<exists>s' px dc z. scan b s p = (None, s') \<and> s' = (counted ps s)\<lparr>sc_prefix := px, sc_doc := dc, sc_size := z\<rparr>
       \<and> sc_inv s' \<and> pending s' = rest"
  using assms
proof (induction b s p rule: scan.induct)
  case (1 b s p)
  show ?case
  proof (cases "p = []")
    case True
    have "walk b (pending s) = ([], Ok (pending s))" using 1(2) by (auto simp: sc_inv_def pending_def walk.simps)
    moreover have "\<exists>px dc z. s = (counted [] s)\<lparr>sc_prefix := px, sc_doc := dc, sc_size := z\<rparr>"
      by (rule exI [of _ "sc_prefix s"], rule exI [of _ "sc_doc s"], rule exI [of _ "sc_size s"]) (simp add: counted_def)
    ultimately show ?thesis using True 1(2) by (simp add: scan.simps)
  next
    case False
    note t = scan_once_turn [OF 1(2), of b p]
    show ?thesis
    proof (cases "scan_once b s p")
      case (ScanDone s')
      then show ?thesis using t False by (auto simp: turn_ok_def scan.simps [of b s p] counted_def)
    next
      case (ScanErr e s')
      then show ?thesis using t False by (auto simp: turn_ok_def scan.simps [of b s p])
    next
      case (ScanMore s' q)
      with t obtain pos dc z where s': "s' = (counted [pos] s)\<lparr>sc_prefix := [], sc_doc := dc, sc_size := z\<rparr>"
        and w: "walk b (pending s @ p) = (case walk b q of (ps, r) \<Rightarrow> (pos # ps, r))" by (auto simp: turn_ok_def)
      have c: "(counted ps s')\<lparr>sc_prefix := px, sc_doc := dc', sc_size := z'\<rparr>
          = (counted (pos # ps) s)\<lparr>sc_prefix := px, sc_doc := dc', sc_size := z'\<rparr>" for ps px dc' z'
        using s' by (simp add: counted_def)
      have inv: "sc_inv s'" and pend: "pending s' = []" using s' by (simp_all add: sc_inv_def pending_def)
      have IH: "case walk b q of (ps, Inl e) \<Rightarrow> fst (scan b s' q) = Some e
         | (ps, Inr rest) \<Rightarrow> \<exists>s'' px dc z. scan b s' q = (None, s'')
             \<and> s'' = (counted (pos # ps) s)\<lparr>sc_prefix := px, sc_doc := dc, sc_size := z\<rparr> \<and> sc_inv s'' \<and> pending s'' = rest"
        using 1(1) [OF False ScanMore inv] unfolding c pend append_Nil .
      have "scan b s p = scan b s' q" using False ScanMore by (simp add: scan.simps [of b s p])
      with IH w show ?thesis by (auto split: prod.splits sum.splits)
    qed
  qed
qed

lemma walk_append_Ok: "walk b bs = (ps, Ok rest) \<Longrightarrow> walk b (bs @ q) = (case walk b (rest @ q) of (qs, r) \<Rightarrow> (ps @ qs, r))"
proof (induction b bs arbitrary: ps rule: walk.induct)
  case (1 b bs)
  show ?case
  proof (cases "length bs < 4")
    case True
    with 1(2) show ?thesis by (simp add: walk.simps [of b bs] split: prod.splits)
  next
    case long: False
    then obtain z where z: "documentSize (take 4 bs) = Ok z" using 1(2) by (cases "documentSize (take 4 bs)") (auto simp: walk.simps [of b bs])
    show ?thesis
    proof (cases "length bs < z")
      case True
      with 1(2) long z show ?thesis by (simp add: walk.simps [of b bs] split: prod.splits)
    next
      case False
      then obtain pos where pos: "entryOpTime b (take z bs) = Ok pos"
        using 1(2) long z by (cases "entryOpTime b (take z bs)") (auto simp: walk.simps [of b bs])
      then obtain ps' where w: "walk b (drop z bs) = (ps', Ok rest)" "ps = pos # ps'"
        using 1(2) long z False by (cases "walk b (drop z bs)") (auto simp: walk.simps [of b bs])
      have IH: "walk b (drop z bs @ q) = (case walk b (rest @ q) of (qs, r) \<Rightarrow> (ps' @ qs, r))"
        by (rule 1(1) [OF long z False pos w(1)])
      have "walk b (bs @ q) = (case walk b (drop z bs @ q) of (ps, r) \<Rightarrow> (pos # ps, r))"
        using long z False pos by (subst walk.simps) simp
      with IH w(2) show ?thesis by (simp split: prod.splits)
    qed
  qed
qed

lemma walk_append_Err: "walk b bs = (ps, Err e) \<Longrightarrow> walk b (bs @ q) = (ps, Err e)"
proof (induction b bs arbitrary: ps rule: walk.induct)
  case (1 b bs)
  have long: "\<not> length bs < 4" using 1(2) by (auto simp: walk.simps [of b bs])
  show ?case
  proof (cases "documentSize (take 4 bs)")
    case (Inl e')
    then show ?thesis using 1(2) long by (simp add: walk.simps [of b bs] walk.simps [of b "bs @ q"])
  next
    case (Inr z)
    then have full: "\<not> length bs < z" using 1(2) long by (auto simp: walk.simps [of b bs])
    show ?thesis
    proof (cases "entryOpTime b (take z bs)")
      case (Inl e')
      then show ?thesis using 1(2) long Inr full by (simp add: walk.simps [of b bs] walk.simps [of b "bs @ q"])
    next
      case pos: (Inr pos)
      then obtain ps' where w: "walk b (drop z bs) = (ps', Err e)" "ps = pos # ps'"
        using 1(2) long Inr full by (cases "walk b (drop z bs)") (auto simp: walk.simps [of b bs])
      show ?thesis using 1(1) [OF long Inr full pos w(1)] w(2) long Inr full pos by (simp add: walk.simps [of b "bs @ q"])
    qed
  qed
qed

text \<open>Writing a stream in pieces to a scanner whose underlying writer takes everything.\<close>

definition writes :: "bson_codec \<Rightarrow> byte list list \<Rightarrow> Scanner \<Rightarrow> Scanner" where
  "writes b ps s = fold (\<lambda>p s. snd (scanner_Write b None p s)) ps s"

lemma writes_stopped: "sc_err s = Some e \<Longrightarrow> writes b ps s = s"
  by (induction ps) (simp_all add: writes_def scanner_Write_def)

lemma writes_Cons: "writes b (p # ps) s = writes b ps (snd (scanner_Write b None p s))"
  by (simp add: writes_def)

lemma writes_walk:
  assumes "sc_inv s" "sc_err s = None"
  shows "case walk b (pending s @ concat chunks) of
     (ps, Inl e) \<Rightarrow> sc_err (writes b chunks s) = Some e
   | (ps, Inr rest) \<Rightarrow> \<exists>px dc z. writes b chunks s
         = (counted ps s)\<lparr>sc_prefix := px, sc_doc := dc, sc_size := z, sc_out := sc_out s @ concat chunks\<rparr>
       \<and> pending (writes b chunks s) = rest \<and> sc_inv (writes b chunks s)"
  using assms
proof (induction chunks arbitrary: s)
  case Nil
  have "walk b (pending s) = ([], Ok (pending s))" using Nil(1) by (auto simp: sc_inv_def pending_def walk.simps)
  moreover have "\<exists>px dc z. s = (counted [] s)\<lparr>sc_prefix := px, sc_doc := dc, sc_size := z, sc_out := sc_out s\<rparr>"
    by (rule exI [of _ "sc_prefix s"], rule exI [of _ "sc_doc s"], rule exI [of _ "sc_size s"]) (simp add: counted_def)
  ultimately show ?case using Nil by (simp add: writes_def)
next
  case (Cons p chunks)
  note w = scan_walk [OF Cons.prems(1), of b p]
  obtain ps r where pr: "walk b (pending s @ p) = (ps, r)" by (cases "walk b (pending s @ p)")
  show ?case
  proof (cases r)
    case (Inl e)
    then have "fst (scan b s p) = Some e" using w pr by simp
    then have "sc_err (snd (scanner_Write b None p s)) = Some e"
      using Cons.prems(2) by (cases "scan b s p") (simp add: scanner_Write_def)
    then have "sc_err (writes b (p # chunks) s) = Some e" unfolding writes_Cons using writes_stopped by simp
    moreover have "walk b ((pending s @ p) @ concat chunks) = (ps, Err e)" using walk_append_Err pr Inl by blast
    ultimately show ?thesis by simp
  next
    case (Inr rest)
    from w pr Inr obtain s1 px dc z where s1: "scan b s p = (None, s1)"
      "s1 = (counted ps s)\<lparr>sc_prefix := px, sc_doc := dc, sc_size := z\<rparr>" "sc_inv s1" "pending s1 = rest" by auto
    let ?s2 = "s1\<lparr>sc_out := sc_out s1 @ p\<rparr>"
    have s2: "snd (scanner_Write b None p s) = ?s2" using s1(1) Cons.prems(2) by (simp add: scanner_Write_def)
    have i1: "sc_inv ?s2" using s1(3) by (simp add: sc_inv_def)
    have i2: "sc_err ?s2 = None" using s1(2) Cons.prems(2) by (simp add: counted_def)
    have i3: "pending ?s2 = rest" using s1(4) by (simp add: pending_def split: if_splits)
    note inv = i1 i2 i3
    have c: "(counted qs ?s2)\<lparr>sc_prefix := a, sc_doc := c, sc_size := d, sc_out := sc_out ?s2 @ concat chunks\<rparr>
        = (counted (ps @ qs) s)\<lparr>sc_prefix := a, sc_doc := c, sc_size := d, sc_out := sc_out s @ concat (p # chunks)\<rparr>" for qs a c d
      using s1(2) by (cases ps) (auto simp: counted_def)
    have "walk b (pending s @ concat (p # chunks)) = (case walk b (rest @ concat chunks) of (qs, r) \<Rightarrow> (ps @ qs, r))"
      using walk_append_Ok [of b "pending s @ p" ps rest "concat chunks"] pr Inr by simp
    with Cons.IH [OF inv(1,2)] inv(3) show ?thesis unfolding writes_Cons s2 c by (auto split: prod.splits sum.splits)
  qed
qed

text \<open>The reader of the same bytes.\<close>

lemma walk_read_all:
  "case walk b bs of (ps, r) \<Rightarrow> case read_all \<lparr>rd_bytes = bs, rd_fails = False\<rparr> of (docs, e) \<Rightarrow>
     (r = Ok [] \<longleftrightarrow> e = None \<and> (\<forall>d \<in> set docs. \<exists>pos. entryOpTime b d = Ok pos))
     \<and> (r = Ok [] \<longrightarrow> map (entryOpTime b) docs = map Inr ps)"
proof (induction b bs rule: walk.induct)
  case (1 b bs)
  show ?case
  proof (cases "length bs < 4")
    case True
    then show ?thesis by (auto simp: walk.simps [of b bs] read_all.simps [of "\<lparr>rd_bytes = bs, rd_fails = False\<rparr>"] reader_Next_def Let_def)
  next
    case long: False
    show ?thesis
    proof (cases "documentSize (take 4 bs)")
      case (Inl e)
      then show ?thesis using long by (simp add: walk.simps [of b bs] read_all.simps [of "\<lparr>rd_bytes = bs, rd_fails = False\<rparr>"] reader_Next_def Let_def)
    next
      case (Inr z)
      show ?thesis
      proof (cases "length bs < z")
        case True
        then show ?thesis using long Inr by (auto simp: walk.simps [of b bs] read_all.simps [of "\<lparr>rd_bytes = bs, rd_fails = False\<rparr>"] reader_Next_def Let_def)
      next
        case full: False
        obtain docs e where rd: "read_all \<lparr>rd_bytes = drop z bs, rd_fails = False\<rparr> = (docs, e)"
          by (cases "read_all \<lparr>rd_bytes = drop z bs, rd_fails = False\<rparr>")
        have r: "read_all \<lparr>rd_bytes = bs, rd_fails = False\<rparr> = (take z bs # docs, e)"
          using long Inr full rd by (simp add: read_all.simps [of "\<lparr>rd_bytes = bs, rd_fails = False\<rparr>"] reader_Next_def Let_def)
        show ?thesis
        proof (cases "entryOpTime b (take z bs)")
          case (Inl e')
          then have "walk b bs = ([], Err e')" using long Inr full by (simp add: walk.simps [of b bs])
          with Inl r show ?thesis by simp
        next
          case pos: (Inr pos)
          obtain ps q where w: "walk b (drop z bs) = (ps, q)" by (cases "walk b (drop z bs)")
          then have "walk b bs = (pos # ps, q)" using long Inr full pos by (simp add: walk.simps [of b bs])
          with 1(1) [OF long Inr full pos] w rd r pos show ?thesis by simp
        qed
      qed
    qed
  qed
qed

lemma scanner_sees_what_reader_reads_lemma:
  assumes "s = writes b chunks NewScanner" "read_all \<lparr>rd_bytes = concat chunks, rd_fails = False\<rparr> = (docs, e)"
  shows "(scanner_Finish s = None \<longleftrightarrow> e = None \<and> (\<forall>d \<in> set docs. \<exists>pos. entryOpTime b d = Ok pos))
    \<and> (scanner_Finish s = None \<longrightarrow> sc_out s = concat chunks \<and> sc_count s = length docs
        \<and> (docs \<noteq> [] \<longrightarrow> entryOpTime b (hd docs) = Ok (sc_first s) \<and> entryOpTime b (last docs) = Ok (sc_last s)))"
proof -
  have new: "sc_inv NewScanner" "sc_err NewScanner = None" "pending NewScanner = []"
    by (simp_all add: NewScanner_def sc_inv_def pending_def)
  obtain ps r where w: "walk b (concat chunks) = (ps, r)" by (cases "walk b (concat chunks)")
  from walk_read_all [of b "concat chunks"] w assms(2)
  have rd: "(r = Ok [] \<longleftrightarrow> e = None \<and> (\<forall>d \<in> set docs. \<exists>pos. entryOpTime b d = Ok pos))
     \<and> (r = Ok [] \<longrightarrow> map (entryOpTime b) docs = map Inr ps)" by simp
  from writes_walk [OF new(1,2), of b chunks] new(3) w assms(1)
  have ws: "case r of Inl e' \<Rightarrow> sc_err s = Some e' | Inr rest \<Rightarrow> \<exists>px dc z. s
         = (counted ps NewScanner)\<lparr>sc_prefix := px, sc_doc := dc, sc_size := z, sc_out := concat chunks\<rparr>
       \<and> pending s = rest \<and> sc_inv s" by (simp add: NewScanner_def split: sum.splits)
  have fin: "scanner_Finish s = None \<longleftrightarrow> r = Ok []"
  proof (cases r)
    case (Inr rest)
    with ws have "sc_err s = None" "pending s = rest" "sc_inv s" by (auto simp: counted_def NewScanner_def)
    then show ?thesis using Inr by (auto simp: scanner_Finish_def pending_def sc_inv_def split: if_splits)
  qed (use ws in \<open>simp add: scanner_Finish_def\<close>)
  have "sc_out s = concat chunks \<and> sc_count s = length docs
        \<and> (docs \<noteq> [] \<longrightarrow> entryOpTime b (hd docs) = Ok (sc_first s) \<and> entryOpTime b (last docs) = Ok (sc_last s))" if ok: "r = Ok []"
  proof -
    have m: "map (entryOpTime b) docs = map Inr ps" using rd ok by blast
    then have len: "length docs = length ps" by (rule map_eq_imp_length_eq)
    from ws ok have s: "sc_out s = concat chunks" "sc_count s = length ps" "ps \<noteq> [] \<Longrightarrow> sc_first s = hd ps" "ps \<noteq> [] \<Longrightarrow> sc_last s = last ps"
      by (auto simp: counted_def NewScanner_def)
    have "entryOpTime b (hd docs) = Ok (hd ps)" "entryOpTime b (last docs) = Ok (last ps)" if "docs \<noteq> []"
      using that m len by (metis hd_map length_0_conv) (metis that m len last_map length_0_conv)
    moreover have "docs \<noteq> [] \<longleftrightarrow> ps \<noteq> []" using len by auto
    ultimately show ?thesis using s len by auto
  qed
  with fin rd show ?thesis by blast
qed

text \<open>C13: The scanner sees what the reader reads: however a stream is cut into writes, the scanner ends without an error
  exactly when the reader reads the whole stream back and every document of it is a valid entry; then all bytes were passed on,
  the count is the number of documents, and the first and last positions are those of the first and last document.\<close>

theorem scanner_sees_what_reader_reads:
  assumes "s = writes b chunks NewScanner" "read_all \<lparr>rd_bytes = concat chunks, rd_fails = False\<rparr> = (docs, e)"
  shows "(scanner_Finish s = None \<longleftrightarrow> e = None \<and> (\<forall>d \<in> set docs. \<exists>pos. entryOpTime b d = Ok pos))
    \<and> (scanner_Finish s = None \<longrightarrow> sc_out s = concat chunks \<and> sc_count s = length docs
        \<and> (docs \<noteq> [] \<longrightarrow> entryOpTime b (hd docs) = Ok (sc_first s) \<and> entryOpTime b (last docs) = Ok (sc_last s)))"
  by (rule scanner_sees_what_reader_reads_lemma [OF assms])

definition sample_codec :: bson_codec where
  "sample_codec = \<lparr>bc_Validate = (\<lambda>d. length d = 5), bc_TS = (\<lambda>d. Some (Timestamp (ucast (d ! 4)) 0)), bc_Term = (\<lambda>_. Some 1)\<rparr>"

definition sample_pieces :: "byte list list" where
  "sample_pieces = [[5, 0], [0, 0, 1, 5], [0, 0, 0, 2]]"

lemma sample_size: "documentSize [5, 0, 0, 0] = Ok 5"
  by (simp add: documentSize_def le_uint32_def minDocumentSize_def MaxEntrySize_def)

theorem scanner_sees_what_reader_reads_witness:
  "scanner_Finish (writes sample_codec sample_pieces NewScanner) = None
    \<and> sc_count (writes sample_codec sample_pieces NewScanner) = length (fst (read_all \<lparr>rd_bytes = concat sample_pieces, rd_fails = False\<rparr>))
    \<and> read_all \<lparr>rd_bytes = concat sample_pieces, rd_fails = False\<rparr> = ([[5, 0, 0, 0, 1], [5, 0, 0, 0, 2]], None)"
proof -
  have r: "read_all \<lparr>rd_bytes = concat sample_pieces, rd_fails = False\<rparr> = ([[5, 0, 0, 0, 1], [5, 0, 0, 0, 2]], None)"
    by (simp add: sample_pieces_def read_all.simps reader_Next_def Let_def sample_size)
  have f: "scanner_Finish (writes sample_codec sample_pieces NewScanner) = None"
    by (simp add: sample_pieces_def sample_codec_def writes_def scanner_Write_def NewScanner_def scanner_Finish_def scan.simps
      scan_once_def fill_doc_def Let_def sample_size scanner_entry_def entryOpTime_def)
  from scanner_sees_what_reader_reads [OF refl r, of sample_codec] r f show ?thesis by simp
qed

end
