(* ===== verification/Oplog_Copy.thy ===== *)
theory Oplog_Copy
  imports Oplog_Scanner
begin

text \<open>
  Reading a range of the oplog, \<open>src/internal/mongoconn/oplog.go\<close>: which member a collector's tick is pinned to
  (\<open>Pin\<close>), the range read that proves its own continuity (\<open>ReadOplog\<close>, \<open>copyOplog\<close>) and the privilege check. The server's
  answers are parameters: what \<open>hello\<close> says, and the cursor of the range query, a list of documents followed by the
  end or an error. The writer is a state-passing function, so the theory composes it with the scanner of the chunk
  pipeline.
\<close>

section \<open>Pinning a member\<close>

text \<open>A reader: the client it reads through (the session's, or one of the member's own), its read preference, whether it
  reads with read concern majority, and the address it names. A direct connection reaches one member only, so there the
  driver answers a read of the primary from that member, whatever its state.\<close>

datatype mongo_client = SessionClient | MemberClient string
datatype read_pref = ReadPrimary | ReadNearest

record OplogMember =
  om_client :: mongo_client
  om_rp :: read_pref
  om_majority :: bool
  om_host :: string

datatype pin_error = ErrNotReplicaSet | ErrHello

text \<open>The part of \<open>hello\<close> a session uses.\<close>

record oplogHello =
  oh_SetName :: string
  oh_Me :: string
  oh_IsWritablePrimary :: bool
  oh_LastWrite :: Timestamp

definition hello_checked :: "oplogHello option \<Rightarrow> pin_error + oplogHello" where
  "hello_checked h = (case h of None \<Rightarrow> Err ErrHello
     | Some x \<Rightarrow> if oh_SetName x = [] then Err ErrNotReplicaSet else Ok x)"

definition session_Primary :: OplogMember where
  "session_Primary = \<lparr>om_client = SessionClient, om_rp = ReadPrimary, om_majority = True, om_host = []\<rparr>"

definition memberAddress :: "string \<Rightarrow> string \<Rightarrow> string \<times> bool" where
  "memberAddress directHost me = (if directHost \<noteq> [] then (directHost, False) else (me, True))"

definition primaryMember :: "oplogHello option \<Rightarrow> pin_error + OplogMember" where
  "primaryMember primaryHello = (case hello_checked primaryHello of Inl e \<Rightarrow> Err e | Inr h \<Rightarrow>
     Ok \<lparr>om_client = SessionClient, om_rp = ReadPrimary, om_majority = False, om_host = oh_Me h\<rparr>)"

text \<open>\<open>connects\<close> says whether a client of a host's own can be made.\<close>

definition session_Pin :: "string \<Rightarrow> (string \<Rightarrow> bool) \<Rightarrow> oplogHello option \<Rightarrow> oplogHello option \<Rightarrow> Timestamp
    \<Rightarrow> pin_error + OplogMember" where
  "session_Pin directHost connects hello primaryHello notBefore =
     (case hello_checked hello of
        Inl e \<Rightarrow> Err e
      | Inr h \<Rightarrow>
          (let stale = (\<not> ts_IsZero notBefore \<and> Compare (oh_LastWrite h) notBefore < 0)
           in if oh_IsWritablePrimary h \<or> stale then primaryMember primaryHello
              else case memberAddress directHost (oh_Me h) of (host, own) \<Rightarrow>
                if \<not> own then Ok \<lparr>om_client = SessionClient, om_rp = ReadNearest, om_majority = False, om_host = host\<rparr>
                else if host = [] then primaryMember primaryHello
                else if \<not> connects host then primaryMember primaryHello
                else Ok \<lparr>om_client = MemberClient host, om_rp = ReadNearest, om_majority = False, om_host = host\<rparr>))"

record privilege =
  pv_AnyResource :: bool
  pv_DB :: "string option"
  pv_Collection :: "string option"
  pv_Actions :: "string list"

definition oplogDB :: string where "oplogDB = ''local''"
definition oplogColl :: string where "oplogColl = ''oplog.rs''"

fun grantsOplogFind :: "privilege list \<Rightarrow> bool" where
  "grantsOplogFind [] = False"
| "grantsOplogFind (p # ps) =
     (let covers = (pv_AnyResource p \<or> (case (pv_DB p, pv_Collection p) of
            (Some d, Some c) \<Rightarrow> d = oplogDB \<and> (c = [] \<or> c = oplogColl) | _ \<Rightarrow> False))
      in if covers \<and> ''find'' \<in> set (pv_Actions p) then True else grantsOplogFind ps)"

definition CanReadOplog :: "nat \<Rightarrow> privilege list \<Rightarrow> bool" where
  "CanReadOplog users privs \<longleftrightarrow> users = 0 \<or> grantsOplogFind privs"

section \<open>The range read\<close>

datatype copy_error = ErrNoTS | ErrOplogGap | ErrNotAfter | ErrWriteEntry | ErrReadEntries | ErrOplogBehind | ErrInvalidRange | ErrFind

record oplogCursor =
  cu_docs :: "byte list list"
  cu_fails :: bool

record copy_state =
  cy_stats :: OplogStats
  cy_prev :: Timestamp
  cy_started :: bool

definition copy_new :: copy_state where
  "copy_new = \<lparr>cy_stats = \<lparr>os_Entries = 0, os_First = optime_zero, os_Last = optime_zero\<rparr>, cy_prev = ts_zero, cy_started = False\<rparr>"

text \<open>The part of the loop's body that writes an entry and counts it.\<close>

definition copy_entry :: "(byte list \<Rightarrow> 'w \<Rightarrow> bool \<times> 'w) \<Rightarrow> OpTime \<Rightarrow> byte list \<Rightarrow> copy_state \<Rightarrow> 'w
    \<Rightarrow> (copy_error + copy_state) \<times> 'w" where
  "copy_entry write op doc st w = (case write doc w of
     (False, w') \<Rightarrow> (Err ErrWriteEntry, w')
   | (True, w') \<Rightarrow>
       (let stats = cy_stats st;
            stats' = stats\<lparr>os_First := (if os_Entries stats = 0 then op else os_First stats), os_Last := op,
                           os_Entries := os_Entries stats + 1\<rparr>
        in (Ok (st\<lparr>cy_stats := stats', cy_prev := ot_TS op\<rparr>), w')))"

definition copy_doc :: "bson_codec \<Rightarrow> (byte list \<Rightarrow> 'w \<Rightarrow> bool \<times> 'w) \<Rightarrow> OplogRange \<Rightarrow> byte list \<Rightarrow> copy_state \<Rightarrow> 'w
    \<Rightarrow> (copy_error + copy_state) \<times> 'w" where
  "copy_doc b write r doc st w = (case bc_TS b doc of
     None \<Rightarrow> (Err ErrNoTS, w)
   | Some ts \<Rightarrow>
       (let op = \<lparr>ot_TS = ts, ot_Term = entryTerm b doc\<rparr>
        in if \<not> cy_started st
           then (if ts \<noteq> or_From r then (Err ErrOplogGap, w)
                 else if or_CheckTerm r \<and> ot_Term op \<noteq> or_FromTerm r then (Err ErrOplogGap, w)
                 else let st1 = st\<lparr>cy_started := True, cy_prev := ts\<rparr>
                      in if \<not> or_StartInclusive r then (Ok st1, w) else copy_entry write op doc st1 w)
           else if Compare ts (cy_prev st) \<le> 0 then (Err ErrNotAfter, w)
           else copy_entry write op doc st w))"

fun copyLoop :: "bson_codec \<Rightarrow> (byte list \<Rightarrow> 'w \<Rightarrow> bool \<times> 'w) \<Rightarrow> OplogRange \<Rightarrow> byte list list \<Rightarrow> copy_state \<Rightarrow> 'w
    \<Rightarrow> (copy_error + copy_state) \<times> 'w" where
  "copyLoop b write r [] st w = (Ok st, w)"
| "copyLoop b write r (doc # docs) st w = (case copy_doc b write r doc st w of
     (Inl e, w') \<Rightarrow> (Err e, w')
   | (Inr st', w') \<Rightarrow> copyLoop b write r docs st' w')"

definition copyOplog :: "bson_codec \<Rightarrow> (byte list \<Rightarrow> 'w \<Rightarrow> bool \<times> 'w) \<Rightarrow> oplogCursor \<Rightarrow> OplogRange \<Rightarrow> 'w
    \<Rightarrow> (copy_error + OplogStats) \<times> 'w" where
  "copyOplog b write cur r w = (case copyLoop b write r (cu_docs cur) copy_new w of
     (Inl e, w') \<Rightarrow> (Err e, w')
   | (Inr st, w') \<Rightarrow>
       (if cu_fails cur then Err ErrReadEntries
        else if \<not> cy_started st then Err ErrOplogGap
        else if cy_prev st \<noteq> or_To r then Err ErrOplogBehind
        else Ok (cy_stats st), w'))"

definition ReadOplog :: "bson_codec \<Rightarrow> (byte list \<Rightarrow> 'w \<Rightarrow> bool \<times> 'w) \<Rightarrow> (Timestamp \<Rightarrow> Timestamp \<Rightarrow> oplogCursor option)
    \<Rightarrow> OplogRange \<Rightarrow> 'w \<Rightarrow> (copy_error + OplogStats) \<times> 'w" where
  "ReadOplog b write query r w =
     (if Compare (or_To r) (or_From r) < 0 then (Err ErrInvalidRange, w)
      else case query (or_From r) (or_To r) of
        None \<Rightarrow> (Err ErrFind, w)
      | Some cur \<Rightarrow> copyOplog b write cur r w)"

section \<open>What a successful read has seen and written\<close>

text \<open>What a writer has received: \<open>got ds w\<close> says that its state \<open>w\<close> is that after the documents \<open>ds\<close>.\<close>

definition receives :: "(byte list \<Rightarrow> 'w \<Rightarrow> bool \<times> 'w) \<Rightarrow> (byte list list \<Rightarrow> 'w \<Rightarrow> bool) \<Rightarrow> bool" where
  "receives write got \<longleftrightarrow> (\<forall>ds d w w'. got ds w \<longrightarrow> write d w = (True, w') \<longrightarrow> got (ds @ [d]) w')"

definition doc_pos :: "bson_codec \<Rightarrow> byte list \<Rightarrow> OpTime" where
  "doc_pos b d = \<lparr>ot_TS = the (bc_TS b d), ot_Term = entryTerm b d\<rparr>"

definition doc_ts :: "bson_codec \<Rightarrow> byte list \<Rightarrow> Timestamp" where
  "doc_ts b d = the (bc_TS b d)"

lemma ot_TS_doc_pos [simp]: "ot_TS (doc_pos b d) = doc_ts b d"
  by (simp add: doc_pos_def doc_ts_def)

definition stats_of :: "OpTime list \<Rightarrow> OplogStats" where
  "stats_of ps = \<lparr>os_Entries = int (length ps), os_First = (if ps = [] then optime_zero else hd ps),
     os_Last = (if ps = [] then optime_zero else last ps)\<rparr>"

lemma stats_of_snoc:
  "stats_of (ps @ [p]) = (stats_of ps)\<lparr>os_First := (if os_Entries (stats_of ps) = 0 then p else os_First (stats_of ps)),
     os_Last := p, os_Entries := os_Entries (stats_of ps) + 1\<rparr>"
  by (simp add: stats_of_def)

lemma copy_entry_Ok:
  assumes "copy_entry write (doc_pos b doc) doc st w = (Ok st', w')" "receives write got" "cy_stats st = stats_of (map (doc_pos b) ds)" "got ds w"
  shows "cy_stats st' = stats_of (map (doc_pos b) (ds @ [doc])) \<and> got (ds @ [doc]) w' \<and> cy_prev st' = doc_ts b doc \<and> cy_started st' = cy_started st"
proof -
  from assms(1) have w: "write doc w = (True, w')" and st: "st' = st\<lparr>cy_stats := (cy_stats st)\<lparr>os_First := (if os_Entries (cy_stats st) = 0 then doc_pos b doc else os_First (cy_stats st)),
      os_Last := doc_pos b doc, os_Entries := os_Entries (cy_stats st) + 1\<rparr>, cy_prev := doc_ts b doc\<rparr>"
    by (auto simp: copy_entry_def Let_def split: prod.splits bool.splits)
  have "got (ds @ [doc]) w'" using w assms(2,4) unfolding receives_def by blast
  then show ?thesis using st assms(3,4) stats_of_snoc [of "map (doc_pos b) ds" "doc_pos b doc"] by simp
qed

text \<open>The rest of the loop, once the entry at the start was seen.\<close>

lemma copyLoop_started:
  assumes "copyLoop b write r docs st w = (Ok st', w')" "receives write got" "cy_started st"
    and "cy_stats st = stats_of (map (doc_pos b) ds)" "got ds w"
  shows "cy_stats st' = stats_of (map (doc_pos b) (ds @ docs)) \<and> got (ds @ docs) w' \<and> cy_started st'
    \<and> (\<forall>d \<in> set docs. bc_TS b d \<noteq> None) \<and> sorted_wrt (<) (cy_prev st # map (doc_ts b) docs)
    \<and> cy_prev st' = last (cy_prev st # map (doc_ts b) docs)"
  using assms
proof (induction docs arbitrary: st w ds)
  case (Cons doc docs)
  obtain x w1 where cd: "copy_doc b write r doc st w = (x, w1)" by (cases "copy_doc b write r doc st w")
  with Cons.prems(1) obtain st1 where x: "x = Ok st1" by (cases x) simp_all
  with cd Cons.prems(1) have rest: "copyLoop b write r docs st1 w1 = (Ok st', w')" by simp
  from cd x Cons.prems(3) obtain ts where ts: "bc_TS b doc = Some ts" by (auto simp: copy_doc_def split: option.splits)
  have pos: "\<lparr>ot_TS = ts, ot_Term = entryTerm b doc\<rparr> = doc_pos b doc" by (simp add: doc_pos_def ts)
  from cd x ts Cons.prems(3) have gt: "cy_prev st < ts" and ce: "copy_entry write (doc_pos b doc) doc st w = (Ok st1, w1)"
    by (auto simp: copy_doc_def Let_def pos split: if_splits)
  note e = copy_entry_Ok [OF ce Cons.prems(2,4,5)]
  have "cy_started st1" using e Cons.prems(3) by simp
  from Cons.IH [OF rest Cons.prems(2) this, of "ds @ [doc]"] e
  have "cy_stats st' = stats_of (map (doc_pos b) ((ds @ [doc]) @ docs)) \<and> got ((ds @ [doc]) @ docs) w' \<and> cy_started st'
    \<and> (\<forall>d \<in> set docs. bc_TS b d \<noteq> None) \<and> sorted_wrt (<) (cy_prev st1 # map (doc_ts b) docs)
    \<and> cy_prev st' = last (cy_prev st1 # map (doc_ts b) docs)" by simp
  moreover have "cy_prev st1 = ts" "doc_ts b doc = ts" using e ts by (simp_all add: doc_ts_def)
  ultimately show ?case using gt ts by fastforce
qed simp

text \<open>What the cursor must have delivered for the read to succeed.\<close>

lemma copyOplog_Ok:
  assumes "copyOplog b write cur r w = (Ok stats, w')" "receives write got" "got [] w"
  shows "\<exists>d docs. cu_docs cur = d # docs \<and> \<not> cu_fails cur \<and> (\<forall>x \<in> set (d # docs). bc_TS b x \<noteq> None)
    \<and> doc_ts b d = or_From r \<and> (or_CheckTerm r \<longrightarrow> entryTerm b d = or_FromTerm r)
    \<and> sorted_wrt (<) (map (doc_ts b) (d # docs)) \<and> last (map (doc_ts b) (d # docs)) = or_To r
    \<and> (let kept = (if or_StartInclusive r then d # docs else docs) in got kept w' \<and> stats = stats_of (map (doc_pos b) kept))"
proof -
  from assms(1) obtain st where lp: "copyLoop b write r (cu_docs cur) copy_new w = (Ok st, w')" and f: "\<not> cu_fails cur" "cy_started st"
    "cy_prev st = or_To r" "stats = cy_stats st"
    by (auto simp: copyOplog_def split: prod.splits sum.splits if_splits)
  from lp f(2) obtain d docs where cur: "cu_docs cur = d # docs" by (cases "cu_docs cur") (auto simp: copy_new_def)
  obtain x w1 where cd: "copy_doc b write r d copy_new w = (x, w1)" by (cases "copy_doc b write r d copy_new w")
  with lp cur obtain st1 where x: "x = Ok st1" by (cases x) simp_all
  with cd lp cur have rest: "copyLoop b write r docs st1 w1 = (Ok st, w')" by simp
  from cd x obtain ts where ts: "bc_TS b d = Some ts" by (auto simp: copy_doc_def split: option.splits)
  then have dts: "doc_ts b d = ts" by (simp add: doc_ts_def)
  have pos: "\<lparr>ot_TS = ts, ot_Term = entryTerm b d\<rparr> = doc_pos b d" by (simp add: doc_pos_def ts)
  from cd x ts have start: "ts = or_From r" "or_CheckTerm r \<longrightarrow> entryTerm b d = or_FromTerm r"
    by (auto simp: copy_doc_def Let_def copy_new_def split: if_splits)
  let ?st0 = "copy_new\<lparr>cy_started := True, cy_prev := ts\<rparr>"
  let ?kept = "if or_StartInclusive r then [d] else []"
  have "cy_stats st1 = stats_of (map (doc_pos b) ?kept) \<and> got ?kept w1 \<and> cy_prev st1 = ts \<and> cy_started st1"
  proof (cases "or_StartInclusive r")
    case True
    with cd x ts have "copy_entry write (doc_pos b d) d ?st0 w = (Ok st1, w1)"
      by (auto simp: copy_doc_def Let_def pos copy_new_def split: if_splits)
    from copy_entry_Ok [OF this assms(2), of "[]"] show ?thesis using True dts assms(3) by (simp add: copy_new_def stats_of_def)
  next
    case False
    with cd x ts have "st1 = ?st0" "w1 = w" by (auto simp: copy_doc_def Let_def copy_new_def split: if_splits)
    then show ?thesis using False assms(3) by (simp add: copy_new_def stats_of_def)
  qed
  then have st1: "cy_stats st1 = stats_of (map (doc_pos b) ?kept)" "got ?kept w1" "cy_prev st1 = ts" "cy_started st1" by blast+
  from copyLoop_started [OF rest assms(2) st1(4) st1(1,2)] st1(3) f cur ts dts start show ?thesis
    by (cases "or_StartInclusive r") (simp_all add: Let_def)
qed

lemma read_range_facts:
  assumes "ReadOplog b write query r w = (Ok stats, w')" "receives write got" "got [] w"
    and "query (or_From r) (or_To r) = Some cur" "cu_docs cur = filter (\<lambda>d. or_From r \<le> doc_ts b d \<and> doc_ts b d \<le> or_To r) oplog"
  shows "(let range = filter (\<lambda>d. (if or_StartInclusive r then or_From r \<le> doc_ts b d else or_From r < doc_ts b d) \<and> doc_ts b d \<le> or_To r) oplog
     in got range w' \<and> stats = stats_of (map (doc_pos b) range) \<and> sorted_wrt (<) (map (doc_ts b) range))
    \<and> (\<exists>d \<in> set oplog. doc_ts b d = or_From r \<and> (or_CheckTerm r \<longrightarrow> entryTerm b d = or_FromTerm r))
    \<and> (\<exists>d \<in> set oplog. doc_ts b d = or_To r)"
proof -
  from assms(1,4) have "copyOplog b write cur r w = (Ok stats, w')" by (auto simp: ReadOplog_def split: if_splits)
  from copyOplog_Ok [OF this assms(2,3)] obtain d docs where c: "cu_docs cur = d # docs" "doc_ts b d = or_From r"
    "or_CheckTerm r \<longrightarrow> entryTerm b d = or_FromTerm r" "sorted_wrt (<) (map (doc_ts b) (d # docs))" "last (map (doc_ts b) (d # docs)) = or_To r"
    "got (if or_StartInclusive r then d # docs else docs) w'"
    "stats = stats_of (map (doc_pos b) (if or_StartInclusive r then d # docs else docs))" unfolding Let_def by blast
  have all: "filter (\<lambda>d. or_From r \<le> doc_ts b d \<and> doc_ts b d \<le> or_To r) oplog = d # docs" using assms(5) c(1) by simp
  have gt: "\<forall>x \<in> set docs. or_From r < doc_ts b x" using c(2,4) by simp
  have "filter (\<lambda>d. or_From r < doc_ts b d \<and> doc_ts b d \<le> or_To r) oplog = filter (\<lambda>x. or_From r < doc_ts b x) (d # docs)"
    unfolding all [symmetric] filter_filter by (rule filter_cong) auto
  also have "\<dots> = docs" using c(2) gt by (simp add: filter_id_conv)
  finally have ex: "filter (\<lambda>d. or_From r < doc_ts b d \<and> doc_ts b d \<le> or_To r) oplog = docs" .
  have sub: "set (d # docs) \<subseteq> set oplog" unfolding all [symmetric] by auto
  have rng: "filter (\<lambda>d. (if or_StartInclusive r then or_From r \<le> doc_ts b d else or_From r < doc_ts b d) \<and> doc_ts b d \<le> or_To r) oplog
      = (if or_StartInclusive r then d # docs else docs)" using all ex by simp
  have last: "last (d # docs) \<in> set oplog" "doc_ts b (last (d # docs)) = or_To r"
    using sub last_in_set [of "d # docs"] c(5) last_map [of "d # docs" "doc_ts b"] by auto
  have "sorted_wrt (<) (map (doc_ts b) (if or_StartInclusive r then d # docs else docs))" using c(4) by simp
  moreover have "\<exists>d \<in> set oplog. doc_ts b d = or_From r \<and> (or_CheckTerm r \<longrightarrow> entryTerm b d = or_FromTerm r)" using sub c(2,3) by auto
  moreover have "\<exists>d \<in> set oplog. doc_ts b d = or_To r" using last by blast
  ultimately show ?thesis unfolding rng Let_def using c(6,7) by blast
qed

text \<open>C12: A successful range read wrote exactly the range: when the cursor delivered the entries of the member's oplog
  between the two bounds, then the entries written are exactly those after the start (from the start on with
  \<open>StartInclusive\<close>) up to the end, the entry at the start is there, with the expected term when that is checked, an entry at
  the end is there, and the positions grow strictly; and the statistics are those of the entries written.\<close>

theorem read_range_exact:
  assumes "ReadOplog b write query r w = (Ok stats, w')" "receives write got" "got [] w"
    and "query (or_From r) (or_To r) = Some cur" "cu_docs cur = filter (\<lambda>d. or_From r \<le> doc_ts b d \<and> doc_ts b d \<le> or_To r) oplog"
  shows "(let range = filter (\<lambda>d. (if or_StartInclusive r then or_From r \<le> doc_ts b d else or_From r < doc_ts b d) \<and> doc_ts b d \<le> or_To r) oplog
     in got range w' \<and> stats = stats_of (map (doc_pos b) range) \<and> sorted_wrt (<) (map (doc_ts b) range))
    \<and> (\<exists>d \<in> set oplog. doc_ts b d = or_From r \<and> (or_CheckTerm r \<longrightarrow> entryTerm b d = or_FromTerm r))
    \<and> (\<exists>d \<in> set oplog. doc_ts b d = or_To r)"
  by (rule read_range_facts [OF assms])

section \<open>The scanner as the writer\<close>

text \<open>The chunk pipeline writes to a scanner; what its underlying writer takes depends on how much it has taken.\<close>

definition scan_write :: "bson_codec \<Rightarrow> (nat \<Rightarrow> nat option) \<Rightarrow> byte list \<Rightarrow> Scanner \<Rightarrow> bool \<times> Scanner" where
  "scan_write b sink d s = (case scanner_Write b (sink (length (sc_out s))) d s of ((n, e), s') \<Rightarrow> (e = None, s'))"

lemma scan_write_receives: "receives (scan_write b sink) (\<lambda>ds s. s = writes b ds NewScanner)"
  unfolding receives_def
proof (intro allI impI)
  fix ds d s s' assume s: "s = writes b ds NewScanner" and w: "scan_write b sink d s = (True, s')"
  then have "snd (scanner_Write b None d s) = s'"
    by (auto simp: scan_write_def scanner_Write_def split: prod.splits option.splits)
  with s show "s' = writes b (ds @ [d]) NewScanner" by (simp add: writes_def)
qed

text \<open>A document as the driver delivers it: one complete, valid BSON document.\<close>

definition framed :: "bson_codec \<Rightarrow> byte list \<Rightarrow> bool" where
  "framed b d \<longleftrightarrow> 4 \<le> length d \<and> documentSize (take 4 d) = Ok (length d) \<and> bc_Validate b d \<and> bc_TS b d \<noteq> None"

lemma framed_entry: "framed b d \<Longrightarrow> entryOpTime b d = Ok (doc_pos b d)"
  by (auto simp: framed_def entryOpTime_def doc_pos_def)

lemma read_all_framed:
  "(\<forall>d \<in> set ds. framed b d) \<Longrightarrow> read_all \<lparr>rd_bytes = concat ds, rd_fails = False\<rparr> = (ds, None)"
proof (induction ds)
  case Nil
  show ?case by (subst read_all.simps) (simp add: reader_Next_def Let_def)
next
  case (Cons d ds)
  then have IH: "read_all \<lparr>rd_bytes = concat ds, rd_fails = False\<rparr> = (ds, None)" by simp
  from Cons.prems have d: "4 \<le> length d" "documentSize (take 4 d) = Ok (length d)" by (simp_all add: framed_def)
  then show ?case using IH by (subst read_all.simps) (simp add: reader_Next_def Let_def)
qed

text \<open>The walk of the written bytes always agrees with the read's own statistics, which \<open>checkScan\<close> compares.\<close>

lemma scanned_stats:
  assumes "ReadOplog b (scan_write b sink) query r NewScanner = (Ok stats, s)"
    and "query (or_From r) (or_To r) = Some cur" "\<forall>d \<in> set (cu_docs cur). framed b d"
  shows "\<exists>kept. s = writes b kept NewScanner \<and> scanner_Finish s = None \<and> sc_out s = concat kept \<and> stats = stats_of (map (doc_pos b) kept)
    \<and> int (sc_count s) = os_Entries stats \<and> (0 < os_Entries stats \<longrightarrow> sc_first s = os_First stats \<and> sc_last s = os_Last stats)
    \<and> set kept \<subseteq> set (cu_docs cur)"
proof -
  from assms(1,2) have "copyOplog b (scan_write b sink) cur r NewScanner = (Ok stats, s)" by (auto simp: ReadOplog_def split: if_splits)
  from copyOplog_Ok [OF this scan_write_receives] obtain d docs where c: "cu_docs cur = d # docs"
    "let kept = (if or_StartInclusive r then d # docs else docs) in s = writes b kept NewScanner \<and> stats = stats_of (map (doc_pos b) kept)"
    by (auto simp: writes_def)
  let ?kept = "if or_StartInclusive r then d # docs else docs"
  have sub: "set ?kept \<subseteq> set (cu_docs cur)" using c(1) by auto
  then have fr: "\<forall>x \<in> set ?kept. framed b x" using assms(3) by blast
  note rd = read_all_framed [OF fr]
  have s: "s = writes b ?kept NewScanner" "stats = stats_of (map (doc_pos b) ?kept)" using c(2) by (simp_all add: Let_def)
  have e: "entryOpTime b x = Ok (doc_pos b x)" if "x \<in> set ?kept" for x using fr that framed_entry by blast
  from scanner_sees_what_reader_reads_lemma [OF s(1) rd] e have sc: "scanner_Finish s = None" "sc_out s = concat ?kept" "sc_count s = length ?kept"
    "?kept \<noteq> [] \<Longrightarrow> entryOpTime b (hd ?kept) = Ok (sc_first s) \<and> entryOpTime b (last ?kept) = Ok (sc_last s)" by blast+
  have "sc_first s = os_First stats \<and> sc_last s = os_Last stats" if "0 < os_Entries stats"
  proof -
    from that s(2) have ne: "?kept \<noteq> []" by (auto simp: stats_of_def)
    then have "entryOpTime b (hd ?kept) = Ok (doc_pos b (hd ?kept))" "entryOpTime b (last ?kept) = Ok (doc_pos b (last ?kept))"
      using e [OF hd_in_set [OF ne]] e [OF last_in_set [OF ne]] by blast+
    with sc(4) [OF ne] have "sc_first s = doc_pos b (hd ?kept)" "sc_last s = doc_pos b (last ?kept)" by simp_all
    then show ?thesis using ne s(2) by (simp add: stats_of_def hd_map last_map)
  qed
  moreover have "int (sc_count s) = os_Entries stats" using sc(3) s(2) by (simp add: stats_of_def)
  ultimately show ?thesis using s sc(1,2) sub by blast
qed

text \<open>A cursor of two entries, read into a scanner.\<close>

definition sample_range :: OplogRange where
  "sample_range = \<lparr>or_From = Timestamp 1 0, or_To = Timestamp 2 0, or_CheckTerm = True, or_FromTerm = 1, or_StartInclusive = False\<rparr>"

definition sample_oplog :: "byte list list" where
  "sample_oplog = [[5, 0, 0, 0, 1], [5, 0, 0, 0, 2], [5, 0, 0, 0, 3]]"

definition sample_query :: "Timestamp \<Rightarrow> Timestamp \<Rightarrow> oplogCursor option" where
  "sample_query f t = Some \<lparr>cu_docs = filter (\<lambda>d. f \<le> doc_ts sample_codec d \<and> doc_ts sample_codec d \<le> t) sample_oplog, cu_fails = False\<rparr>"

lemma sample_read:
  "ReadOplog sample_codec (\<lambda>d ds. (True, ds @ [d])) sample_query sample_range [] = (Ok (stats_of [\<lparr>ot_TS = Timestamp 2 0, ot_Term = 1\<rparr>]), [[5, 0, 0, 0, 2]])"
  by (simp add: ReadOplog_def sample_range_def sample_query_def sample_oplog_def copyOplog_def copy_doc_def copy_entry_def copy_new_def Let_def
    sample_codec_def doc_ts_def entryTerm_def less_eq_Timestamp_def less_Timestamp_def stats_of_def)

theorem read_range_exact_witness:
  "ReadOplog sample_codec (\<lambda>d ds. (True, ds @ [d])) sample_query sample_range [] = (Ok (stats_of [\<lparr>ot_TS = Timestamp 2 0, ot_Term = 1\<rparr>]), [[5, 0, 0, 0, 2]])
    \<and> (\<exists>d \<in> set sample_oplog. doc_ts sample_codec d = or_To sample_range)"
proof -
  have g: "receives (\<lambda>d ds. (True, ds @ [d])) (\<lambda>ds w. w = ds)" by (simp add: receives_def)
  have q: "sample_query (or_From sample_range) (or_To sample_range) = Some (the (sample_query (or_From sample_range) (or_To sample_range)))"
    by (simp add: sample_query_def)
  from read_range_exact [OF sample_read g _ q, of sample_oplog] show ?thesis using sample_read by (simp add: sample_query_def)
qed

end
