(* ===== verification/Pitr_Chunk.thy ===== *)
theory Pitr_Chunk
  imports Oplog_Copy Pitr_Repo_Props Go_Text
begin

text \<open>
  Writing one oplog chunk, \<open>src/internal/pitr/collector/chunk.go\<close>: the range read goes through the scanner, compression
  and encryption to the storage target, and the chunk's row is committed only when every stage succeeded. The encryptor,
  compression, hash, storage driver and the HA fence are parameters (\<open>chunk_env\<close>): what they answered during one write. The
  storage is a map from target and key to bytes.
\<close>

section \<open>Storage keys\<close>

definition id_char :: "char \<Rightarrow> bool" where
  "id_char c \<longleftrightarrow> (let n = (of_char c :: nat) in 97 \<le> n \<and> n \<le> 122 \<or> 65 \<le> n \<and> n \<le> 90 \<or> 48 \<le> n \<and> n \<le> 57 \<or> n = 95 \<or> n = 45)"

text \<open>The loop over the characters of \<open>SanitizeIDComponent\<close>.\<close>

function sanitize_chars :: "string \<Rightarrow> string" where
  "sanitize_chars s = (if s = [] then [] else
     (if id_char (hd s) then hd s else CHR ''_'') # sanitize_chars (drop (utf8_width s) s))"
  by pat_completeness auto
termination
  by (relation "measure length") (auto simp: utf8_width_pos)

declare sanitize_chars.simps [simp del]

definition SanitizeIDComponent :: "string \<Rightarrow> int \<Rightarrow> string" where
  "SanitizeIDComponent s maxLen = (let out = sanitize_chars s in
     if maxLen > 0 \<and> int (length out) > maxLen then take (nat maxLen) out else out)"

definition KeyPrefix :: string where "KeyPrefix = ''_mongorescue/oplog/''"

definition FileExtension :: string where "FileExtension = ''.age''"

definition ChunkKey :: "Stream \<Rightarrow> string \<Rightarrow> Timestamp \<Rightarrow> Timestamp \<Rightarrow> string" where
  "ChunkKey st chainID from' to = KeyPrefix @ SanitizeIDComponent (st_ConnectionID st) 0 @ ''/'' @ SanitizeIDComponent (st_ReplicaSet st) 0
     @ ''/'' @ chainID @ ''/'' @ ts_String from' @ ''-'' @ ts_String to @ ''.bson.gz'' @ FileExtension"

lemma sanitize_safe: "c \<in> set (sanitize_chars s) \<Longrightarrow> id_char c"
proof (induction s rule: sanitize_chars.induct)
  case (1 s)
  from 1(2) 1(1) show ?case by (subst (asm) sanitize_chars.simps) (auto split: if_splits simp: id_char_def)
qed

lemma length_digits [simp]: "length (digits k n) = k"
  by (induction k arbitrary: n) simp_all

lemma length_ts_String [simp]: "length (ts_String t) = 21"
  by (simp add: ts_String_def)

lemma ts_String_inj: "ts_String a = ts_String b \<longleftrightarrow> a = b"
  using ts_String_less [of a b] ts_String_less [of b a] by (metis less_irrefl linorder_less_linear)

lemma append_same_suffix_length: "xs @ us = ys @ vs \<Longrightarrow> length us = length vs \<Longrightarrow> xs = ys \<and> us = vs"
  by simp

lemma ChunkKey_inj:
  assumes "ChunkKey st c f t = ChunkKey st c' f' t'"
  shows "c = c' \<and> f = f' \<and> t = t'"
proof -
  from assms have "c @ ''/'' @ ts_String f @ ''-'' @ ts_String t @ ''.bson.gz'' @ FileExtension
      = c' @ ''/'' @ ts_String f' @ ''-'' @ ts_String t' @ ''.bson.gz'' @ FileExtension" by (simp add: ChunkKey_def)
  from append_same_suffix_length [OF this] have "c = c'" and
    r: "ts_String f @ ''-'' @ ts_String t @ ''.bson.gz'' @ FileExtension = ts_String f' @ ''-'' @ ts_String t' @ ''.bson.gz'' @ FileExtension" by simp_all
  have "ts_String f = ts_String f'" "ts_String t @ ''.bson.gz'' @ FileExtension = ts_String t' @ ''.bson.gz'' @ FileExtension"
    using r append_eq_append_conv [of "ts_String f" "ts_String f'"] by simp_all
  then show ?thesis using \<open>c = c'\<close> by (simp add: ts_String_inj)
qed

section \<open>Writing a chunk\<close>

datatype chunk_error = ErrEncryptionRequired | ErrStorageTarget | ErrEncrypt | ErrRead copy_error | ErrWalk oplog_error
  | ErrSeal | ErrStore | ErrCheckScan | ErrFenced | ErrCommit pitr_error

type_synonym objects = "string \<times> string \<Rightarrow> byte list option"

text \<open>
  The answers of the ports during one write: the encryptor's mode (\<open>None\<close> while encryption is off), whether the storage
  target resolves, the codec, how much the upload takes (\<open>ce_sink\<close>), whether encrypting and sealing succeed, whether a failed
  read or seal was the upload's own end (\<open>ce_stopped\<close>), the fence's answers before the upload, before the commit and before a
  removal, whether \<open>Save\<close> succeeds, what it returns and what a failed one leaves behind, whether a removal succeeds, the sealed form of a byte stream and
  its checksum, the new ID, the clock, and what other components did to the tables meanwhile.
\<close>

record chunk_env =
  ce_enc :: "string option"
  ce_storage :: bool
  ce_codec :: bson_codec
  ce_sink :: "nat \<Rightarrow> nat option"
  ce_encrypts :: bool
  ce_seals :: bool
  ce_stopped :: bool
  ce_fence_upload :: bool
  ce_fence_commit :: bool
  ce_fence_remove :: bool
  ce_save :: bool
  ce_saved :: "(string \<times> go_time option) option"
  ce_left :: "byte list option"
  ce_purge :: bool
  ce_seal :: "byte list \<Rightarrow> byte list"
  ce_sha :: "byte list \<Rightarrow> string"
  ce_id :: string
  ce_created :: go_time
  ce_now :: go_time
  ce_meanwhile :: "pitr_db \<Rightarrow> pitr_db"

text \<open>The producer's goroutine: encrypt, read through the scanner, check its end, seal.\<close>

definition produce :: "chunk_env \<Rightarrow> (Timestamp \<Rightarrow> Timestamp \<Rightarrow> oplogCursor option) \<Rightarrow> OplogRange \<Rightarrow> chunk_error + (OplogStats \<times> Scanner)" where
  "produce env query rng =
     (if \<not> ce_encrypts env then Err ErrEncrypt
      else case ReadOplog (ce_codec env) (scan_write (ce_codec env) (ce_sink env)) query rng NewScanner of
        (Inl e, _) \<Rightarrow> Err (ErrRead e)
      | (Inr stats, s) \<Rightarrow> (case scanner_Finish s of
          Some e \<Rightarrow> Err (ErrWalk e)
        | None \<Rightarrow> if \<not> ce_seals env then Err ErrSeal else Ok (stats, s)))"

text \<open>Whether an error of the producer is \<open>errConsumerStopped\<close>: a write into the pipe that the upload had left.\<close>

definition consumer_stopped :: "chunk_env \<Rightarrow> chunk_error \<Rightarrow> bool" where
  "consumer_stopped env e \<longleftrightarrow> ce_stopped env \<and> (e = ErrRead ErrWriteEntry \<or> e = ErrSeal \<or> e = ErrEncrypt)"

definition checkScan :: "Scanner \<Rightarrow> OplogStats \<Rightarrow> bool" where
  "checkScan sc stats \<longleftrightarrow> int (sc_count sc) = os_Entries stats
     \<and> (os_Entries stats = 0 \<or> ot_TS (sc_first sc) = ot_TS (os_First stats) \<and> ot_TS (sc_last sc) = ot_TS (os_Last stats))"

definition removeObject :: "chunk_env \<Rightarrow> string \<times> string \<Rightarrow> objects \<Rightarrow> objects" where
  "removeObject env key objs = (if \<not> ce_fence_remove env then objs else if ce_purge env then objs(key := None) else objs)"

definition new_chunk :: "chunk_env \<Rightarrow> Stream \<Rightarrow> string \<Rightarrow> OplogRange \<Rightarrow> int \<Rightarrow> OplogStats \<Rightarrow> Scanner \<Rightarrow> Chunk" where
  "new_chunk env st chainID rng fromTerm stats s =
     \<lparr>ck_ID = ce_id env, ck_StreamID = st_ID st, ck_ChainID = chainID, ck_TargetID = st_TargetID st,
      ck_StorageKey = ChunkKey st chainID (or_From rng) (or_To rng), ck_From = or_From rng, ck_To = or_To rng,
      ck_FirstTerm = (if os_Entries stats > 0 then ot_Term (os_First stats) else fromTerm),
      ck_LastTerm = (if os_Entries stats > 0 then ot_Term (os_Last stats) else fromTerm),
      ck_Entries = os_Entries stats, ck_SizeBytes = int (length (ce_seal env (sc_out s))),
      ck_SHA256 = ce_sha env (ce_seal env (sc_out s)), ck_Encrypted = True, ck_EncryptionMode = the (ce_enc env),
      ck_Status = ChunkCommitted, ck_CreatedAt = ce_created env, ck_VerifiedAt = None, ck_VerifyError = [],
      ck_DeletedAt = None, ck_PurgeAfter = None,
      ck_VersionID = (case ce_saved env of Some (v, _) \<Rightarrow> v | None \<Rightarrow> []),
      ck_RetainUntil = (case ce_saved env of Some (_, t) \<Rightarrow> t | None \<Rightarrow> None)\<rparr>"

definition writeChunk :: "chunk_env \<Rightarrow> (Timestamp \<Rightarrow> Timestamp \<Rightarrow> oplogCursor option) \<Rightarrow> Stream \<Rightarrow> string \<Rightarrow> OplogRange \<Rightarrow> int
    \<Rightarrow> pitr_db \<Rightarrow> objects \<Rightarrow> (chunk_error + (Chunk \<times> int)) \<times> pitr_db \<times> objects" where
  "writeChunk env query st chainID rng fromTerm db objs =
     (case ce_enc env of
        None \<Rightarrow> (Err ErrEncryptionRequired, db, objs)
      | Some _ \<Rightarrow>
          if \<not> ce_storage env then (Err ErrStorageTarget, db, objs)
          else let key = (st_TargetID st, ChunkKey st chainID (or_From rng) (or_To rng));
                   read = produce env query rng;
                   saved = (ce_fence_upload env \<and> ce_save env);
                   objs1 = (if \<not> ce_fence_upload env then objs
                     else case read of Inr (_, s) \<Rightarrow> if ce_save env then objs(key := Some (ce_seal env (sc_out s))) else objs(key := ce_left env)
                                     | Inl _ \<Rightarrow> objs(key := ce_left env));
                   removed = removeObject env key objs1;
                   db1 = ce_meanwhile env db
               in case read of
                    Inl e \<Rightarrow> (Err (if \<not> consumer_stopped env e then e else if \<not> saved then ErrStore else e), db1, removed)
                  | Inr (stats, s) \<Rightarrow>
                      if \<not> saved then (Err ErrStore, db1, removed)
                      else if \<not> checkScan s stats then (Err ErrCheckScan, db1, removed)
                      else if \<not> ce_fence_commit env then (Err ErrFenced, db1, removed)
                      else case CommitChunk (ce_now env) (new_chunk env st chainID rng fromTerm stats s) db1 of
                             Inl e \<Rightarrow> (Err (ErrCommit e), db1, removed)
                           | Inr (db2, c) \<Rightarrow> (Ok (c, int (length (sc_out s))), db2, objs1))"

section \<open>What a written chunk holds\<close>

text \<open>The entries a range names among those of an oplog.\<close>

definition in_range :: "OplogRange \<Rightarrow> Timestamp \<Rightarrow> bool" where
  "in_range r t \<longleftrightarrow> (if or_StartInclusive r then or_From r \<le> t else or_From r < t) \<and> t \<le> or_To r"

lemma produce_Ok:
  assumes "produce env query rng = Ok (stats, s)" "query (or_From rng) (or_To rng) = Some cur"
    and "cu_docs cur = filter (\<lambda>d. or_From rng \<le> doc_ts (ce_codec env) d \<and> doc_ts (ce_codec env) d \<le> or_To rng) oplog"
    and "\<forall>d \<in> set oplog. framed (ce_codec env) d"
  shows "sc_out s = concat (filter (\<lambda>d. in_range rng (doc_ts (ce_codec env) d)) oplog)
    \<and> os_Entries stats = int (length (filter (\<lambda>d. in_range rng (doc_ts (ce_codec env) d)) oplog)) \<and> checkScan s stats
    \<and> (\<exists>d \<in> set oplog. doc_ts (ce_codec env) d = or_From rng \<and> (or_CheckTerm rng \<longrightarrow> entryTerm (ce_codec env) d = or_FromTerm rng))
    \<and> (\<exists>d \<in> set oplog. doc_ts (ce_codec env) d = or_To rng)"
proof -
  let ?b = "ce_codec env" and ?range = "filter (\<lambda>d. in_range rng (doc_ts (ce_codec env) d)) oplog"
  from assms(1) have rd: "ReadOplog ?b (scan_write ?b (ce_sink env)) query rng NewScanner = (Ok stats, s)"
    by (auto simp: produce_def split: if_splits sum.splits option.splits prod.splits)
  have "\<forall>d \<in> set (cu_docs cur). framed ?b d" using assms(3,4) by simp
  from scanned_stats [OF rd assms(2) this] have sc: "int (sc_count s) = os_Entries stats"
    "0 < os_Entries stats \<longrightarrow> sc_first s = os_First stats \<and> sc_last s = os_Last stats" by blast+
  have cs: "checkScan s stats" using sc by (auto simp: checkScan_def)
  have new: "NewScanner = writes ?b [] NewScanner" by (simp add: writes_def)
  from read_range_facts [OF rd scan_write_receives new assms(2,3)]
  have r: "s = writes ?b ?range NewScanner" "stats = stats_of (map (doc_pos ?b) ?range)"
    "\<exists>d \<in> set oplog. doc_ts ?b d = or_From rng \<and> (or_CheckTerm rng \<longrightarrow> entryTerm ?b d = or_FromTerm rng)"
    "\<exists>d \<in> set oplog. doc_ts ?b d = or_To rng"
    unfolding Let_def in_range_def by blast+
  have fr: "\<forall>d \<in> set ?range. framed ?b d" using assms(4) by simp
  from scanner_sees_what_reader_reads_lemma [OF r(1) read_all_framed [OF fr]] framed_entry fr
  have "sc_out s = concat ?range" by blast
  then show ?thesis using r cs by (simp add: stats_of_def)
qed

text \<open>A failed write commits nothing.\<close>

lemma writeChunk_Err: "writeChunk env query st chainID rng fromTerm db objs = (Err e, db', objs') \<Longrightarrow> db' = db \<or> db' = ce_meanwhile env db"
  by (auto simp: writeChunk_def Let_def split: option.splits if_splits sum.splits prod.splits)

lemma writeChunk_Err_objects:
  "writeChunk env query st chainID rng fromTerm db objs = (Err e, db', objs') \<Longrightarrow> k \<noteq> (st_TargetID st, ChunkKey st chainID (or_From rng) (or_To rng))
   \<Longrightarrow> objs' k = objs k"
  by (auto simp: writeChunk_def Let_def removeObject_def split: option.splits if_splits sum.splits prod.splits)

lemma writeChunk_Ok:
  assumes "writeChunk env query st chainID rng fromTerm db objs = (Ok (c, raw), db', objs')"
  obtains stats s where "produce env query rng = Ok (stats, s)" "checkScan s stats" "ce_enc env \<noteq> None" "ce_fence_upload env" "ce_fence_commit env"
    "CommitChunk (ce_now env) (new_chunk env st chainID rng fromTerm stats s) (ce_meanwhile env db) = Ok (db', c)"
    "objs' = objs((st_TargetID st, ChunkKey st chainID (or_From rng) (or_To rng)) := Some (ce_seal env (sc_out s)))" "raw = int (length (sc_out s))"
  using assms by (auto simp: writeChunk_def Let_def split: option.splits if_splits sum.splits prod.splits)

lemma CommitChunk_returns:
  "CommitChunk now k db = Ok (db', c) \<Longrightarrow> ck_TargetID c = ck_TargetID k \<and> ck_StorageKey c = ck_StorageKey k \<and> ck_SizeBytes c = ck_SizeBytes k
     \<and> ck_SHA256 c = ck_SHA256 k \<and> ck_Entries c = ck_Entries k \<and> ck_From c = ck_From k \<and> ck_To c = ck_To k"
  by (auto simp: CommitChunk_def Let_def split: if_splits option.splits)

text \<open>C6: A committed chunk holds its range: when the range query delivered the entries of the member's oplog between the
  bounds, then the object stored under the chunk's target and key is the sealed form of exactly the entries after its start (from the start
  on when it is the first of its chain) up to its end; the row names its size, checksum and number of entries; encryption
  was on and the HA fence passed before the upload and before the commit; and the walk of the written bytes never disagrees with the read.\<close>

theorem committed_chunk_holds_range:
  assumes "writeChunk env query st chainID rng fromTerm db objs = (Ok (c, raw), db', objs')"
    and "query (or_From rng) (or_To rng) = Some cur"
    and "cu_docs cur = filter (\<lambda>d. or_From rng \<le> doc_ts (ce_codec env) d \<and> doc_ts (ce_codec env) d \<le> or_To rng) oplog"
    and "\<forall>d \<in> set oplog. framed (ce_codec env) d"
  shows "(let range = filter (\<lambda>d. in_range rng (doc_ts (ce_codec env) d)) oplog; object = ce_seal env (concat range) in
      objs' (ck_TargetID c, ck_StorageKey c) = Some object \<and> ck_SizeBytes c = int (length object) \<and> ck_SHA256 c = ce_sha env object
      \<and> ck_Entries c = int (length range) \<and> raw = int (length (concat range)))
    \<and> ck_From c = or_From rng \<and> ck_To c = or_To rng \<and> ce_enc env \<noteq> None \<and> ce_fence_upload env \<and> ce_fence_commit env"
proof -
  from assms(1) obtain stats s where w: "produce env query rng = Ok (stats, s)" "ce_enc env \<noteq> None" "ce_fence_upload env" "ce_fence_commit env"
    "CommitChunk (ce_now env) (new_chunk env st chainID rng fromTerm stats s) (ce_meanwhile env db) = Ok (db', c)"
    "objs' = objs((st_TargetID st, ChunkKey st chainID (or_From rng) (or_To rng)) := Some (ce_seal env (sc_out s)))" "raw = int (length (sc_out s))"
    by (rule writeChunk_Ok)
  note p = produce_Ok [OF w(1) assms(2-4)]
  from CommitChunk_returns [OF w(5)] p w show ?thesis by (auto simp: new_chunk_def Let_def)
qed

text \<open>A write of the second entry of a small oplog, after the first.\<close>

definition sample_env :: chunk_env where
  "sample_env = \<lparr>ce_enc = Some ''keys'', ce_storage = True, ce_codec = sample_codec, ce_sink = (\<lambda>_. None), ce_encrypts = True, ce_seals = True,
     ce_stopped = False, ce_fence_upload = True, ce_fence_commit = True, ce_fence_remove = True, ce_save = True, ce_saved = None, ce_left = None,
     ce_purge = True, ce_seal = rev, ce_sha = (\<lambda>_. ''ab''), ce_id = ''k1'', ce_created = 7, ce_now = 7, ce_meanwhile = id\<rparr>"

lemma sample_env_ports [simp]: "ce_enc sample_env = Some ''keys''" "ce_storage sample_env" "ce_fence_upload sample_env" "ce_save sample_env"
  "ce_fence_commit sample_env" "ce_meanwhile sample_env = id" "ce_id sample_env = ''k1''" "ce_created sample_env = 7" "ce_now sample_env = 7"
  "ce_codec sample_env = sample_codec" "ce_saved sample_env = None" "ce_seal sample_env = rev" "ce_sha sample_env = (\<lambda>_. ''ab'')"
  by (simp_all add: sample_env_def)

lemma sample_codec_ts: "bc_TS sample_codec d = Some (Timestamp (ucast (d ! 4)) 0)" "bc_Term sample_codec d = Some 1"
  by (simp_all add: sample_codec_def)

lemma sample_framed: "\<forall>d \<in> set sample_oplog. framed sample_codec d"
  by (simp add: sample_oplog_def framed_def sample_size sample_codec_def)

lemma sample_cursor: "sample_query (or_From sample_range) (or_To sample_range)
    = Some \<lparr>cu_docs = [[5, 0, 0, 0, 1], [5, 0, 0, 0, 2]], cu_fails = False\<rparr>"
  by (simp add: sample_query_def sample_range_def sample_oplog_def doc_ts_def sample_codec_def less_eq_Timestamp_def less_Timestamp_def)

lemma sample_scan: "scan_write sample_codec (\<lambda>_. None) [5, 0, 0, 0, 2] NewScanner
    = (True, \<lparr>sc_prefix = [], sc_doc = [], sc_size = 5, sc_count = 1, sc_first = \<lparr>ot_TS = Timestamp 2 0, ot_Term = 1\<rparr>,
       sc_last = \<lparr>ot_TS = Timestamp 2 0, ot_Term = 1\<rparr>, sc_err = None, sc_out = [5, 0, 0, 0, 2]\<rparr>)"
  by (simp add: scan_write_def scanner_Write_def NewScanner_def scan.simps scan_once_def fill_doc_def Let_def sample_size
    scanner_entry_def entryOpTime_def sample_codec_def entryTerm_def)

lemma sample_produce: "produce sample_env sample_query sample_range
    = Ok (stats_of [\<lparr>ot_TS = Timestamp 2 0, ot_Term = 1\<rparr>], snd (scan_write sample_codec (\<lambda>_. None) [5, 0, 0, 0, 2] NewScanner))"
proof -
  have "ReadOplog sample_codec (scan_write sample_codec (\<lambda>_. None)) sample_query sample_range NewScanner
      = (Ok (stats_of [\<lparr>ot_TS = Timestamp 2 0, ot_Term = 1\<rparr>]), snd (scan_write sample_codec (\<lambda>_. None) [5, 0, 0, 0, 2] NewScanner))"
    using sample_cursor by (simp add: ReadOplog_def sample_range_def copyOplog_def copy_doc_def copy_entry_def copy_new_def Let_def
      entryTerm_def sample_scan stats_of_def less_eq_Timestamp_def less_Timestamp_def sample_codec_ts)
  then show ?thesis by (simp add: produce_def sample_env_def sample_scan scanner_Finish_def)
qed

lemma sample_write: "\<exists>c raw db' objs'. writeChunk sample_env sample_query sample_stream ''c'' sample_range 1 (sample_db [] (Timestamp 1 0)) (\<lambda>_. None)
    = (Ok (c, raw), db', objs')"
proof -
  have k: "ChunkKey st c f t \<noteq> []" for st c f t by (simp add: ChunkKey_def KeyPrefix_def)
  show ?thesis
    unfolding writeChunk_def Let_def sample_produce
    by (simp add: checkScan_def stats_of_def sample_scan CommitChunk_def new_chunk_def k
      openChain_def sample_defs sample_range_def less_Timestamp_def zero_time_def)
qed

theorem committed_chunk_holds_range_witness:
  "\<exists>c raw db' objs'. writeChunk sample_env sample_query sample_stream ''c'' sample_range 1 (sample_db [] (Timestamp 1 0)) (\<lambda>_. None)
      = (Ok (c, raw), db', objs') \<and> objs' (ck_TargetID c, ck_StorageKey c) = Some [2, 0, 0, 0, 5] \<and> ck_Entries c = 1"
proof -
  obtain c raw db' objs' where w: "writeChunk sample_env sample_query sample_stream ''c'' sample_range 1 (sample_db [] (Timestamp 1 0)) (\<lambda>_. None)
      = (Ok (c, raw), db', objs')" using sample_write by blast
  have f: "filter (\<lambda>d. or_From sample_range \<le> doc_ts sample_codec d \<and> doc_ts sample_codec d \<le> or_To sample_range) sample_oplog
      = [[5, 0, 0, 0, 1], [5, 0, 0, 0, 2]]" using sample_cursor by (simp add: sample_query_def)
  have r: "filter (\<lambda>d. in_range sample_range (doc_ts sample_codec d)) sample_oplog = [[5, 0, 0, 0, 2]]"
    by (simp add: in_range_def sample_range_def sample_oplog_def doc_ts_def sample_codec_ts less_eq_Timestamp_def less_Timestamp_def)
  from committed_chunk_holds_range [OF w sample_cursor, of sample_oplog] f r sample_framed w show ?thesis by (auto simp: Let_def)
qed

end
