(* ===== verification/Pitr_Worker.thy ===== *)
theory Pitr_Worker
  imports Pitr_Chunk
begin

text \<open>
  The collector of one stream, \<open>src/internal/pitr/collector/worker.go\<close>: one tick reads the oplog window of the member it is
  pinned to, starts or continues a chain, stores the next chunk, and ends the chain when the primary confirms a gap, a
  changed replica set or a divergence. The replica set's answers, the clock, new IDs and the base backup starter are
  parameters of a tick (\<open>tick_env\<close>); a member's answer may differ from call to call, so every call site names its own
  moment. Logging and metrics are left out; events are kept in the order they are published.
\<close>

section \<open>State\<close>

type_synonym moment = "nat \<times> nat"

record member =
  mb_window :: "moment \<Rightarrow> OplogWindow option"
  mb_entryAt :: "moment \<Rightarrow> Timestamp \<Rightarrow> int option option"
  mb_entryAtOrAfter :: "Timestamp \<Rightarrow> OpTime option option"
  mb_query :: "Timestamp \<Rightarrow> Timestamp \<Rightarrow> oplogCursor option"

datatype worker_error = WkOpen | WkPin | WkWindow | WkEntry | WkVanished | WkRepo pitr_error | WkChunk chunk_error

datatype pitr_event = PITRCollectorFailed | PITRCollectorRecovered | PITRChainBroken EndReason | PITRDiverged | PITRLagHigh
  | PITRLagRecovered | PITRWindowLow | StartBase

record LiveView =
  lv_Lag :: duration
  lv_Headroom :: duration
  lv_Oldest :: Timestamp
  lv_Newest :: Timestamp
  lv_Interval :: duration
  lv_CatchingUp :: bool
  lv_WindowLow :: bool
  lv_LastTick :: go_time

record worker =
  wk_stream :: Stream
  wk_session :: bool
  wk_interval :: duration
  wk_checked :: bool
  wk_inclusive :: bool
  wk_rsID :: string
  wk_failing :: bool
  wk_lagSince :: "go_time option"
  wk_windowLow :: bool
  wk_behind :: nat
  wk_emptyAt :: Timestamp
  wk_gapBackoff :: duration
  wk_brokenEventAt :: go_time
  wk_live :: LiveView

text \<open>A collector with what it works on: the tables, the stored objects, and the events published so far.\<close>

record wsys =
  wy_w :: worker
  wy_db :: pitr_db
  wy_objs :: objects
  wy_events :: "pitr_event list"

record tick_env =
  tk_open :: bool
  tk_pin :: "Timestamp \<Rightarrow> member option"
  tk_primary :: member
  tk_now :: "nat \<Rightarrow> go_time"
  tk_chainID :: string
  tk_chunk :: chunk_env
  tk_bases :: bool
  tk_maxBytes :: int
  tk_msg :: "worker_error \<Rightarrow> string"
  tk_stopped :: bool

abbreviation upd_w :: "(worker \<Rightarrow> worker) \<Rightarrow> wsys \<Rightarrow> wsys" where
  "upd_w f s \<equiv> s\<lparr>wy_w := f (wy_w s)\<rparr>"

abbreviation wy_sid :: "wsys \<Rightarrow> string" where
  "wy_sid s \<equiv> st_ID (wk_stream (wy_w s))"

definition publish :: "pitr_event \<Rightarrow> wsys \<Rightarrow> wsys" where
  "publish e s = s\<lparr>wy_events := wy_events s @ [e]\<rparr>"

section \<open>Thresholds and intervals\<close>

definition DefaultChunkSeconds :: int where "DefaultChunkSeconds = 60"
definition minLagThreshold :: duration where "minLagThreshold = 5 * go_Minute"
definition lagIntervals :: int where "lagIntervals = 5"
definition minHeadroom :: duration where "minHeadroom = 6 * go_Hour"
definition behindRetries :: nat where "behindRetries = 3"
definition behindDelay :: duration where "behindDelay = go_Second"
definition maxFailureDelay :: duration where "maxFailureDelay = go_Minute"
definition maxGapBackoff :: duration where "maxGapBackoff = 10 * go_Minute"
definition brokenEventEvery :: duration where "brokenEventEvery = 10 * go_Minute"

definition LagThreshold :: "duration \<Rightarrow> duration" where
  "LagThreshold interval = max minLagThreshold (wrap64 (lagIntervals * interval))"

definition HeadroomThreshold :: "duration \<Rightarrow> duration" where
  "HeadroomThreshold lag = max minHeadroom (wrap64 (3 * lag))"

definition configured_seconds :: "Stream \<Rightarrow> int" where
  "configured_seconds st = (if st_ChunkSeconds st \<le> 0 then DefaultChunkSeconds else st_ChunkSeconds st)"

definition configured :: "worker \<Rightarrow> duration" where
  "configured w = wrap64 (configured_seconds (wk_stream w) * go_Second)"

definition newWorker :: "Stream \<Rightarrow> worker" where
  "newWorker st = \<lparr>wk_stream = st, wk_session = False, wk_interval = wrap64 (configured_seconds st * go_Second), wk_checked = False,
     wk_inclusive = False, wk_rsID = [], wk_failing = False, wk_lagSince = None, wk_windowLow = False, wk_behind = 0,
     wk_emptyAt = ts_zero, wk_gapBackoff = 0, wk_brokenEventAt = zero_time,
     wk_live = \<lparr>lv_Lag = 0, lv_Headroom = 0, lv_Oldest = ts_zero, lv_Newest = ts_zero, lv_Interval = 0, lv_CatchingUp = False,
       lv_WindowLow = False, lv_LastTick = zero_time\<rparr>\<rparr>"

definition afterBreak :: "worker \<Rightarrow> duration \<times> worker" where
  "afterBreak w = (let b = max (min (wrap64 (2 * wk_gapBackoff w)) maxGapBackoff) (wk_interval w) in (b, w\<lparr>wk_gapBackoff := b\<rparr>))"

text \<open>Go's integer division truncates; the interval and the limit are not negative.\<close>

definition adjustInterval :: "int \<Rightarrow> int \<Rightarrow> worker \<Rightarrow> worker" where
  "adjustInterval limit rawBytes w =
     (if rawBytes > limit \<and> wk_interval w > go_Second then w\<lparr>wk_interval := max (wk_interval w div 2) go_Second\<rparr>
      else if rawBytes < limit div 4 \<and> wk_interval w < configured w then w\<lparr>wk_interval := min (wrap64 (wk_interval w * 2)) (configured w)\<rparr>
      else w)"

definition prev_ts :: "Timestamp \<Rightarrow> Timestamp" where
  "prev_ts ts = (if ts_I ts > 0 then Timestamp (ts_T ts) (ts_I ts - 1)
     else if ts_T ts > 0 then Timestamp (ts_T ts - 1) (- 1) else ts)"

definition rsChanged :: "OplogWindow \<Rightarrow> worker \<Rightarrow> bool" where
  "rsChanged win w \<longleftrightarrow> ow_ReplicaSet win \<noteq> st_ReplicaSet (wk_stream w)
     \<or> wk_rsID w \<noteq> [] \<and> ow_ReplicaSetID win \<noteq> [] \<and> ow_ReplicaSetID win \<noteq> wk_rsID w"

section \<open>Starting chains\<close>

definition startChain :: "tick_env \<Rightarrow> OpTime \<Rightarrow> wsys \<Rightarrow> (worker_error + unit) \<times> wsys" where
  "startChain env start s = (case StartChain (wy_sid s) (tk_chainID env) start (tk_now env 2) (wy_db s) of
     Inl e \<Rightarrow> (Err (WkRepo e), s)
   | Inr db' \<Rightarrow> (Ok (), upd_w (\<lambda>w. w\<lparr>wk_inclusive := True, wk_checked := True, wk_emptyAt := ts_zero\<rparr>) (s\<lparr>wy_db := db'\<rparr>)))"

definition startAtOldest :: "tick_env \<Rightarrow> member \<Rightarrow> moment \<Rightarrow> OplogWindow \<Rightarrow> wsys \<Rightarrow> (worker_error + unit) \<times> wsys" where
  "startAtOldest env m at win s = (case mb_entryAt m at (ow_Oldest win) of
     None \<Rightarrow> (Err WkEntry, s)
   | Some None \<Rightarrow> (Err WkVanished, s)
   | Some (Some term) \<Rightarrow> startChain env \<lparr>ot_TS = ow_Oldest win, ot_Term = term\<rparr> s)"

definition adoptReplicaSetID :: "string \<Rightarrow> wsys \<Rightarrow> wsys" where
  "adoptReplicaSetID rid s = (if rid = [] then s
     else let s1 = upd_w (\<lambda>w. w\<lparr>wk_rsID := rid\<rparr>) s
          in case SetReplicaSetID (wy_sid s) rid (wy_db s) of Inr db' \<Rightarrow> s1\<lparr>wy_db := db'\<rparr> | Inl _ \<Rightarrow> s1)"

definition baseAfterBreak :: "tick_env \<Rightarrow> wsys \<Rightarrow> wsys" where
  "baseAfterBreak env s = (if \<not> st_BaseOnGap (wk_stream (wy_w s)) \<or> \<not> tk_bases env then s else publish StartBase s)"

definition endedChain :: "string \<Rightarrow> wsys \<Rightarrow> Chain option" where
  "endedChain cid s = find (\<lambda>c. cn_ChainID c = cid \<and> \<not> chain_Open c) (ListChains (wy_sid s) (wy_db s))"

definition chainStartsAt :: "State \<Rightarrow> wsys \<Rightarrow> bool" where
  "chainStartsAt st s = (case find (\<lambda>c. cn_ChainID c = sx_ChainID st) (ListChains (wy_sid s) (wy_db s)) of
     None \<Rightarrow> False | Some c \<Rightarrow> cn_Start c = ot_TS (sx_Last st))"

text \<open>The chunks of the state's chain that reach the stored position.\<close>

definition last_chunks :: "State \<Rightarrow> wsys \<Rightarrow> pitr_error + Chunk list" where
  "last_chunks st s = ListChunks \<lparr>cq_StreamID = wy_sid s, cq_ChainID = sx_ChainID st, cq_After = prev_ts (ot_TS (sx_Last st)),
     cq_Until = ts_zero, cq_Status = None, cq_Live = False\<rparr> (wy_db s)"

definition startChecked :: "State \<Rightarrow> wsys \<Rightarrow> (worker_error + unit) \<times> wsys" where
  "startChecked st s = (case last_chunks st s of
     Inl e \<Rightarrow> (Err (WkRepo e), s)
   | Inr chunks \<Rightarrow> (Ok (), upd_w (\<lambda>w. w\<lparr>wk_inclusive := chunks = [] \<and> chainStartsAt st s, wk_checked := True\<rparr>) s))"

definition emptyChunkExists :: "State \<Rightarrow> wsys \<Rightarrow> worker_error + bool" where
  "emptyChunkExists st s = (case last_chunks st s of
     Inl e \<Rightarrow> Err (WkRepo e)
   | Inr chunks \<Rightarrow> Ok (\<exists>c \<in> set chunks. ck_From c = ot_TS (sx_Last st) \<and> ck_To c = ot_TS (sx_Last st)))"

definition resumeEnded :: "tick_env \<Rightarrow> member \<Rightarrow> Chain \<Rightarrow> OplogWindow \<Rightarrow> wsys \<Rightarrow> (worker_error + duration) \<times> wsys" where
  "resumeEnded env m c win s =
     (if cn_EndReason c = EndStopped \<and> ts_IsZero (ot_TS (ow_MajorityOpTime win)) then (Ok (wk_interval (wy_w s)), s)
      else case (if cn_EndReason c = EndStopped then startChain env (ow_MajorityOpTime win) s
                 else if cn_EndReason c = EndDiverged
                 then (case mb_entryAt m (20, 0) (cn_End c) of
                         None \<Rightarrow> (Err WkEntry, s)
                       | Some (Some term) \<Rightarrow> startChain env \<lparr>ot_TS = cn_End c, ot_Term = term\<rparr> s
                       | Some None \<Rightarrow> startAtOldest env m (21, 0) win s)
                 else startAtOldest env m (21, 0) win s) of
          (Inl e, s1) \<Rightarrow> (Err e, s1)
        | (Inr _, s1) \<Rightarrow>
            (let s2 = (if wk_rsID (wy_w s1) = [] then adoptReplicaSetID (ow_ReplicaSetID win) s1 else s1)
             in (Ok 0, if cn_EndReason c \<noteq> EndStopped then baseAfterBreak env s2 else s2)))"

section \<open>Ending chains\<close>

text \<open>A chain that ended meanwhile counts as ended.\<close>

definition end_chain :: "State \<Rightarrow> Timestamp \<Rightarrow> EndReason \<Rightarrow> go_time \<Rightarrow> wsys \<Rightarrow> (worker_error + unit) \<times> wsys" where
  "end_chain st end' reason at s = (case EndChain (wy_sid s) (sx_ChainID st) end' reason at (wy_db s) of
     Inr db' \<Rightarrow> (Ok (), s\<lparr>wy_db := db'\<rparr>)
   | Inl e \<Rightarrow> if e = ErrChainEnded then (Ok (), s) else (Err (WkRepo e), s))"

definition follow_rs :: "tick_env \<Rightarrow> OplogWindow \<Rightarrow> EndReason \<Rightarrow> wsys \<Rightarrow> (worker_error + unit) \<times> wsys" where
  "follow_rs env win reason s =
     (let st = wk_stream (wy_w s) in
      if reason = EndReplicaSetChanged \<and> ow_ReplicaSet win \<noteq> [] \<and> ow_ReplicaSet win \<noteq> st_ReplicaSet st
      then case UpdateStream (tk_now env 3) (st\<lparr>st_ReplicaSet := ow_ReplicaSet win\<rparr>) (wy_db s) of
             Inl e \<Rightarrow> (Err (WkRepo e), s)
           | Inr (db', updated) \<Rightarrow> (Ok (), upd_w (\<lambda>w. w\<lparr>wk_stream := st\<lparr>st_ReplicaSet := st_ReplicaSet updated, st_UpdatedAt := st_UpdatedAt updated\<rparr>\<rparr>)
               (s\<lparr>wy_db := db'\<rparr>))
      else (Ok (), s))"

definition broken_event :: "tick_env \<Rightarrow> EndReason \<Rightarrow> wsys \<Rightarrow> wsys" where
  "broken_event env reason s =
     (let now = tk_now env 4; last = wk_brokenEventAt (wy_w s) in
      if last = zero_time \<or> go_Sub now last \<ge> brokenEventEvery
      then publish (PITRChainBroken reason) (upd_w (\<lambda>w. w\<lparr>wk_brokenEventAt := now\<rparr>) s) else s)"

definition breakChain :: "tick_env \<Rightarrow> moment \<Rightarrow> State \<Rightarrow> OplogWindow \<Rightarrow> EndReason \<Rightarrow> wsys \<Rightarrow> (worker_error + unit) \<times> wsys" where
  "breakChain env at st win reason s =
     (case end_chain st (ot_TS (sx_Last st)) reason (tk_now env 1) s of
        (Inl e, s1) \<Rightarrow> (Err e, s1)
      | (Inr _, s1) \<Rightarrow>
          (case follow_rs env win reason s1 of
             (Inl e, s2) \<Rightarrow> (Err e, s2)
           | (Inr _, s2) \<Rightarrow>
               (case startAtOldest env (tk_primary env) at win (broken_event env reason s2) of
                  (Inl e, s3) \<Rightarrow> (Err e, s3)
                | (Inr _, s3) \<Rightarrow> (Ok (), baseAfterBreak env (adoptReplicaSetID (ow_ReplicaSetID win) s3)))))"

fun divergeLoop :: "member \<Rightarrow> nat \<Rightarrow> nat \<Rightarrow> Timestamp \<Rightarrow> Chunk list \<Rightarrow> (worker_error + Timestamp) option" where
  "divergeLoop m site i oldest [] = None"
| "divergeLoop m site i oldest (c # cs) =
     (if Compare (ck_To c) oldest < 0 then Some (Ok (ck_To c))
      else case mb_entryAt m (site, i) (ck_To c) of
        None \<Rightarrow> Some (Err WkEntry)
      | Some x \<Rightarrow> if x = Some (ck_LastTerm c) then Some (Ok (ck_To c)) else divergeLoop m site (i + 1) oldest cs)"

definition divergencePoint :: "tick_env \<Rightarrow> nat \<Rightarrow> State \<Rightarrow> OplogWindow \<Rightarrow> wsys \<Rightarrow> worker_error + Timestamp" where
  "divergencePoint env site st win s =
     (case ListChunks \<lparr>cq_StreamID = wy_sid s, cq_ChainID = sx_ChainID st, cq_After = ts_zero, cq_Until = ts_zero,
             cq_Status = Some ChunkCommitted, cq_Live = False\<rparr> (wy_db s) of
        Inl e \<Rightarrow> Err (WkRepo e)
      | Inr chunks \<Rightarrow>
          (case divergeLoop (tk_primary env) site 0 (ow_Oldest win) (rev chunks) of
             Some r \<Rightarrow> r
           | None \<Rightarrow>
               (case find (\<lambda>c. cn_ChainID c = sx_ChainID st) (ListChains (wy_sid s) (wy_db s)) of
                  Some c \<Rightarrow> Ok (cn_Start c)
                | None \<Rightarrow> Ok (ot_TS (sx_Last st)))))"

definition diverge :: "tick_env \<Rightarrow> nat \<Rightarrow> State \<Rightarrow> OplogWindow \<Rightarrow> wsys \<Rightarrow> (worker_error + unit) \<times> wsys" where
  "diverge env site st win s =
     (case divergencePoint env site st win s of
        Inl e \<Rightarrow> (Err e, s)
      | Inr point \<Rightarrow>
          (let s1 = s\<lparr>wy_db := fst (SupersedeChunks (wy_sid s) (sx_ChainID st) point (wy_db s))\<rparr>
           in case end_chain st point EndDiverged (tk_now env 1) s1 of
                (Inl e, s2) \<Rightarrow> (Err e, s2)
              | (Inr _, s2) \<Rightarrow>
                  (let s3 = adoptReplicaSetID (ow_ReplicaSetID win) (publish PITRDiverged s2)
                   in case (case mb_entryAt (tk_primary env) (site + 1, 0) point of
                              None \<Rightarrow> (Err WkEntry, s3)
                            | Some (Some term) \<Rightarrow> startChain env \<lparr>ot_TS = point, ot_Term = term\<rparr> s3
                            | Some None \<Rightarrow> startAtOldest env (tk_primary env) (site + 2, 0) win s3) of
                        (Inl e, s4) \<Rightarrow> (Err e, s4)
                      | (Inr _, s4) \<Rightarrow> (Ok (), baseAfterBreak env s4))))"

text \<open>
  \<open>confirm\<close> asks the primary. Its result is the primary's window, with the wait before the next step when the chain ended;
  a tick calls it at three places, each with its own moments from \<open>k\<close> on.
\<close>

definition confirm :: "tick_env \<Rightarrow> nat \<Rightarrow> State \<Rightarrow> wsys \<Rightarrow> (worker_error + (OplogWindow \<times> duration option)) \<times> wsys" where
  "confirm env k st s =
     (let m = tk_primary env; (delay, w1) = afterBreak (wy_w s); broken = s\<lparr>wy_w := w1\<rparr>;
          ended = (\<lambda>win r. case r of (Inl e, s2) \<Rightarrow> (Err e, s2) | (Inr _, s2) \<Rightarrow> (Ok (win, Some delay), s2))
      in case mb_window m (k, 0) of
           None \<Rightarrow> (Err WkWindow, s)
         | Some win \<Rightarrow>
             if rsChanged win (wy_w s) then ended win (breakChain env (k + 1, 0) st win EndReplicaSetChanged broken)
             else (case mb_entryAt m (k + 2, 0) (ot_TS (sx_Last st)) of
                     None \<Rightarrow> (Err WkEntry, s)
                   | Some found \<Rightarrow>
                       if found = None \<and> Compare (ow_Oldest win) (ot_TS (sx_Last st)) > 0
                       then ended win (breakChain env (k + 1, 0) st win EndGap broken)
                       else if found \<noteq> Some (ot_Term (sx_Last st)) then ended win (diverge env (k + 3) st win broken)
                       else (Ok (win, None), s)))"

section \<open>Lag and headroom\<close>

definition setLagSince :: "tick_env \<Rightarrow> State \<Rightarrow> wsys \<Rightarrow> wsys" where
  "setLagSince env st s =
     (let status = (if sx_Status st = CollectorStopped then CollectorRunning else sx_Status st)
      in case SetCollectorStatus (wy_sid s) status (sx_LastError st) (wk_lagSince (wy_w s)) (tk_now env 5) (wy_db s) of
           Inr db' \<Rightarrow> s\<lparr>wy_db := db'\<rparr> | Inl _ \<Rightarrow> s)"

definition setWindowLow :: "go_time option \<Rightarrow> wsys \<Rightarrow> wsys" where
  "setWindowLow since s = (case SetWindowLow (wy_sid s) since (wy_db s) of Inr db' \<Rightarrow> s\<lparr>wy_db := db'\<rparr> | Inl _ \<Rightarrow> s)"

definition seconds_between :: "Timestamp \<Rightarrow> Timestamp \<Rightarrow> duration" where
  "seconds_between a b = (if ts_T b > ts_T a then wrap64 (int (unat (ts_T b - ts_T a)) * go_Second) else 0)"

definition observeLag :: "tick_env \<Rightarrow> State \<Rightarrow> OplogWindow \<Rightarrow> go_time \<Rightarrow> wsys \<Rightarrow> wsys" where
  "observeLag env st win now s =
     (let newest = (if Compare (ot_TS (ow_MajorityOpTime win)) (ow_Newest win) > 0 then ot_TS (ow_MajorityOpTime win) else ow_Newest win);
          lag = seconds_between (ot_TS (sx_Last st)) newest;
          headroom = seconds_between (ow_Oldest win) (ot_TS (sx_Last st));
          low = (headroom < HeadroomThreshold lag);
          high = (lag > LagThreshold (configured (wy_w s)));
          s1 = upd_w (\<lambda>w. w\<lparr>wk_live := (wk_live w)\<lparr>lv_Lag := lag, lv_Headroom := headroom, lv_WindowLow := low\<rparr>\<rparr>) s;
          s2 = (if high \<and> wk_lagSince (wy_w s) = None
                then publish PITRLagHigh (setLagSince env st (upd_w (\<lambda>w. w\<lparr>wk_lagSince := Some now\<rparr>) s1))
                else if \<not> high \<and> wk_lagSince (wy_w s) \<noteq> None
                then publish PITRLagRecovered (setLagSince env st (upd_w (\<lambda>w. w\<lparr>wk_lagSince := None\<rparr>) s1)) else s1)
      in if low \<and> \<not> wk_windowLow (wy_w s) then publish PITRWindowLow (setWindowLow (Some now) (upd_w (\<lambda>w. w\<lparr>wk_windowLow := True\<rparr>) s2))
         else if \<not> low \<and> wk_windowLow (wy_w s) then setWindowLow None (upd_w (\<lambda>w. w\<lparr>wk_windowLow := False\<rparr>) s2)
         else s2)"

section \<open>One tick\<close>

text \<open>The end of the next chunk: the majority-committed position, or the first entry an interval ahead while catching up.\<close>

definition chunk_end :: "member \<Rightarrow> Timestamp \<Rightarrow> Timestamp \<Rightarrow> duration \<Rightarrow> worker_error + (Timestamp \<times> bool)" where
  "chunk_end m a b interval =
     (if int (unat (ts_T b - ts_T a)) * go_Second > interval
      then case mb_entryAtOrAfter m (Timestamp (ts_T a + word_of_int (interval div go_Second)) 0) of
             None \<Rightarrow> Err WkEntry
           | Some (Some op) \<Rightarrow> Ok (if Compare (ot_TS op) b < 0 \<and> Compare (ot_TS op) a > 0 then (ot_TS op, True) else (b, False))
           | Some None \<Rightarrow> Ok (b, False)
      else Ok (b, False))"

definition store_chunk :: "tick_env \<Rightarrow> member \<Rightarrow> State \<Rightarrow> Timestamp \<Rightarrow> bool \<Rightarrow> wsys \<Rightarrow> (worker_error + duration) \<times> wsys" where
  "store_chunk env m st to catchUp s =
     (let a = sx_Last st; w = wy_w s;
          rng = \<lparr>or_From = ot_TS a, or_To = to, or_CheckTerm = True, or_FromTerm = ot_Term a, or_StartInclusive = wk_inclusive w\<rparr>
      in case writeChunk (tk_chunk env) (mb_query m) (wk_stream w) (sx_ChainID st) rng (ot_Term a) (wy_db s) (wy_objs s) of
           (r, db', objs') \<Rightarrow>
             (let s1 = s\<lparr>wy_db := db', wy_objs := objs'\<rparr>
              in case r of
                   Inl e \<Rightarrow>
                     if e = ErrRead ErrOplogBehind
                     then (if wk_behind w + 1 < behindRetries then (Ok behindDelay, upd_w (\<lambda>w. w\<lparr>wk_behind := wk_behind w + 1\<rparr>) s1)
                           else (Err (WkChunk e), upd_w (\<lambda>w. w\<lparr>wk_behind := 0\<rparr>) s1))
                     else if e = ErrRead ErrOplogGap
                     then (case confirm env 90 st s1 of
                             (Inl e', s2) \<Rightarrow> (Err e', s2)
                           | (Inr (_, Some delay), s2) \<Rightarrow> (Ok delay, s2)
                           | (Inr (_, None), s2) \<Rightarrow> (Ok behindDelay, s2))
                     else (Err (WkChunk e), s1)
                 | Inr (chunk, raw) \<Rightarrow>
                     (let s2 = upd_w (\<lambda>w. adjustInterval (tk_maxBytes env) raw
                                (w\<lparr>wk_behind := 0, wk_inclusive := False, wk_emptyAt := (if ck_Entries chunk = 0 then ck_To chunk else wk_emptyAt w)\<rparr>)) s1
                      in if catchUp then (Ok 0, s2)
                         else (Ok (wk_interval (wy_w s2)), upd_w (\<lambda>w. w\<lparr>wk_gapBackoff := 0\<rparr>) s2))))"

definition collect :: "tick_env \<Rightarrow> member \<Rightarrow> State \<Rightarrow> OplogWindow \<Rightarrow> wsys \<Rightarrow> (worker_error + duration) \<times> wsys" where
  "collect env m st win s0 =
     (let s = observeLag env st win (tk_now env 0) s0;
          a = ot_TS (sx_Last st); b = ot_TS (ow_MajorityOpTime win); interval = wk_interval (wy_w s)
      in if Compare b a < 0 then (Ok interval, s)
         else case chunk_end m a b interval of
           Inl e \<Rightarrow> (Err e, s)
         | Inr (to, catchUp) \<Rightarrow>
             (let s1 = upd_w (\<lambda>w. w\<lparr>wk_live := (wk_live w)\<lparr>lv_CatchingUp := catchUp\<rparr>\<rparr>) s
              in if to = a \<and> \<not> wk_inclusive (wy_w s1)
                 then (if wk_emptyAt (wy_w s1) = a then (Ok interval, s1)
                       else case emptyChunkExists st s1 of
                              Inl e \<Rightarrow> (Err e, s1)
                            | Inr True \<Rightarrow> (Ok interval, upd_w (\<lambda>w. w\<lparr>wk_emptyAt := a\<rparr>) s1)
                            | Inr False \<Rightarrow> store_chunk env m st to catchUp s1)
                 else store_chunk env m st to catchUp s1))"

text \<open>After the window was accepted: adopt the replica set, check the stored position once, and collect.\<close>

definition check_position :: "tick_env \<Rightarrow> member \<Rightarrow> State \<Rightarrow> OplogWindow \<Rightarrow> wsys \<Rightarrow> (worker_error + duration) \<times> wsys" where
  "check_position env m st win s0 =
     (let s = (if wk_rsID (wy_w s0) = [] then adoptReplicaSetID (ow_ReplicaSetID win) s0 else s0);
          checked = (\<lambda>m' win' s1. case startChecked st s1 of (Inl e, s2) \<Rightarrow> (Err e, s2) | (Inr _, s2) \<Rightarrow> collect env m' st win' s2)
      in if wk_checked (wy_w s) then collect env m st win s
         else case mb_entryAt m (1, 0) (ot_TS (sx_Last st)) of
           None \<Rightarrow> (Err WkEntry, s)
         | Some found \<Rightarrow>
             if found \<noteq> Some (ot_Term (sx_Last st))
             then (case confirm env 60 st s of
                     (Inl e, s1) \<Rightarrow> (Err e, s1)
                   | (Inr (_, Some delay), s1) \<Rightarrow> (Ok delay, s1)
                   | (Inr (win', None), s1) \<Rightarrow> checked (tk_primary env) win' s1)
             else checked m win s)"

definition known_position :: "tick_env \<Rightarrow> member \<Rightarrow> State \<Rightarrow> OplogWindow \<Rightarrow> wsys \<Rightarrow> (worker_error + duration) \<times> wsys" where
  "known_position env m st win s =
     (if rsChanged win (wy_w s) \<or> Compare (ow_Oldest win) (ot_TS (sx_Last st)) > 0
      then (case confirm env 30 st s of
              (Inl e, s1) \<Rightarrow> (Err e, s1)
            | (Inr (_, Some delay), s1) \<Rightarrow> (Ok delay, s1)
            | (Inr (win', None), s1) \<Rightarrow> check_position env (tk_primary env) st win' s1)
      else check_position env m st win s)"

text \<open>The alerts already raised and the replica set first seen survive a restart.\<close>

definition restore_alerts :: "State \<Rightarrow> worker \<Rightarrow> worker" where
  "restore_alerts st w = w\<lparr>wk_lagSince := sx_LagSince st, wk_windowLow := sx_WindowLowSince st \<noteq> None, wk_rsID := sx_ReplicaSetID st\<rparr>"

definition step :: "tick_env \<Rightarrow> wsys \<Rightarrow> (worker_error + duration) \<times> wsys" where
  "step env s0 =
     (if \<not> wk_session (wy_w s0) \<and> \<not> tk_open env then (Err WkOpen, s0)
      else let s1 = upd_w (\<lambda>w. w\<lparr>wk_session := True\<rparr>) s0;
               state = LoadState (wy_sid s1) (wy_db s1);
               notBefore = (case state of Inr st \<Rightarrow> ot_TS (sx_Last st) | Inl _ \<Rightarrow> ts_zero)
           in case tk_pin env notBefore of
                None \<Rightarrow> (Err WkPin, s1)
              | Some m \<Rightarrow>
                  (case mb_window m (0, 0) of
                     None \<Rightarrow> (Err WkWindow, s1)
                   | Some win \<Rightarrow>
                       (let s = upd_w (\<lambda>w. w\<lparr>wk_live := (wk_live w)\<lparr>lv_LastTick := tk_now env 0, lv_Oldest := ow_Oldest win, lv_Newest := ow_Newest win,
                              lv_Interval := wk_interval w\<rparr>\<rparr>) s1
                        in case state of
                             Inl _ \<Rightarrow>
                               if ts_IsZero (ot_TS (ow_MajorityOpTime win)) then (Ok (wk_interval (wy_w s)), s)
                               else (case startChain env (ow_MajorityOpTime win) s of
                                       (Inl e, s2) \<Rightarrow> (Err e, s2)
                                     | (Inr _, s2) \<Rightarrow> (Ok 0, adoptReplicaSetID (ow_ReplicaSetID win) s2))
                           | Inr st \<Rightarrow>
                               if wk_checked (wy_w s) then known_position env m st win s
                               else (case endedChain (sx_ChainID st) s of
                                       Some c \<Rightarrow> resumeEnded env m c win (upd_w (restore_alerts st) s)
                                     | None \<Rightarrow> known_position env m st win
                                         (upd_w (\<lambda>w. restore_alerts st (w\<lparr>wk_failing := wk_failing w \<or> sx_Status st = CollectorFailed\<rparr>)) s)))))"

definition fail_tick :: "tick_env \<Rightarrow> worker_error \<Rightarrow> wsys \<Rightarrow> wsys" where
  "fail_tick env e s =
     (let s1 = (case SetCollectorStatus (wy_sid s) CollectorFailed (tk_msg env e) (wk_lagSince (wy_w s)) (tk_now env 6) (wy_db s) of
                  Inr db' \<Rightarrow> s\<lparr>wy_db := db'\<rparr> | Inl _ \<Rightarrow> s)
      in if wk_failing (wy_w s) then s1 else publish PITRCollectorFailed (upd_w (\<lambda>w. w\<lparr>wk_failing := True\<rparr>) s1))"

definition recover_tick :: "tick_env \<Rightarrow> wsys \<Rightarrow> wsys" where
  "recover_tick env s =
     (if \<not> wk_failing (wy_w s) then s
      else let s1 = upd_w (\<lambda>w. w\<lparr>wk_failing := False\<rparr>) s
           in publish PITRCollectorRecovered
                (case SetCollectorStatus (wy_sid s) CollectorRunning [] (wk_lagSince (wy_w s)) (tk_now env 6) (wy_db s) of
                   Inr db' \<Rightarrow> s1\<lparr>wy_db := db'\<rparr> | Inl _ \<Rightarrow> s1))"

definition tick :: "tick_env \<Rightarrow> wsys \<Rightarrow> duration \<times> wsys" where
  "tick env s = (case step env s of (r, s1) \<Rightarrow>
     if tk_stopped env then (0, s1)
     else case r of
       Inl e \<Rightarrow> (let s2 = fail_tick env e s1 in (min (wk_interval (wy_w s2)) maxFailureDelay, s2))
     | Inr delay \<Rightarrow> (delay, recover_tick env s1))"

end
