(* ===== verification/Pitr_Collect.thy ===== *)
theory Pitr_Collect
  imports Pitr_Worker
begin

text \<open>
  What the collector keeps true between its steps: every live chunk's object opens to exactly the entries of its range, the
  stored position continues the chain, and the flag for the first chunk of a chain agrees with the rows. The statements of
  other components, starting a chain, the check at start and writing a chunk each keep it.
\<close>

section \<open>Statements that leave a stream's collector alone\<close>

text \<open>Every statement of the repository but the two that only the stream's own collector issues.\<close>

inductive quiet_step :: "string \<Rightarrow> pitr_db \<Rightarrow> pitr_db \<Rightarrow> bool" for sid where
  q_create: "CreateStream cf now st db = Ok (db', st') \<Longrightarrow> quiet_step sid db db'"
| q_update: "UpdateStream now st db = Ok (db', st') \<Longrightarrow> quiet_step sid db db'"
| q_delete: "DeleteStream i db = Ok db' \<Longrightarrow> quiet_step sid db db'"
| q_start: "StartChain i cid start at db = Ok db' \<Longrightarrow> i \<noteq> sid \<Longrightarrow> quiet_step sid db db'"
| q_end: "EndChain i cid e reason at db = Ok db' \<Longrightarrow> quiet_step sid db db'"
| q_commit: "CommitChunk now c db = Ok (db', c') \<Longrightarrow> ck_StreamID c \<noteq> sid \<Longrightarrow> quiet_step sid db db'"
| q_verified: "MarkChunkVerified kid at err db = Ok db' \<Longrightarrow> quiet_step sid db db'"
| q_delete_chunks: "DeleteChunks ids at pa db = (db', n) \<Longrightarrow> quiet_step sid db db'"
| q_retain: "SetChunkRetainUntil kid until db = Ok db' \<Longrightarrow> quiet_step sid db db'"
| q_pruned: "MarkChunkPruned kid db = Ok db' \<Longrightarrow> quiet_step sid db db'"
| q_supersede: "SupersedeChunks i cid after db = (db', n) \<Longrightarrow> quiet_step sid db db'"
| q_status: "SetCollectorStatus i status err lag at db = Ok db' \<Longrightarrow> quiet_step sid db db'"
| q_window_low: "SetWindowLow i since db = Ok db' \<Longrightarrow> quiet_step sid db db'"
| q_rsid: "SetReplicaSetID i rid db = Ok db' \<Longrightarrow> quiet_step sid db db'"

lemma quiet_repo_step: "quiet_step sid db db' \<Longrightarrow> repo_step db db'"
  by (induction rule: quiet_step.induct) (auto intro: repo_step.intros)

lemma quiet_inv: "(quiet_step sid)\<^sup>*\<^sup>* db db' \<Longrightarrow> pitr_inv db \<Longrightarrow> pitr_inv db'"
  by (induction rule: rtranclp_induct) (auto intro: repo_step_inv quiet_repo_step)

text \<open>The rows of one stream, and what a statement may do to them: keep their skeleton and end lives, or remove them all.\<close>

definition srows :: "string \<Rightarrow> pitr_db \<Rightarrow> Chunk list" where
  "srows sid db = filter (\<lambda>k. ck_StreamID k = sid) (db_chunks db)"

definition scores :: "string \<Rightarrow> pitr_db \<Rightarrow> (string \<times> string \<times> OpTime) list" where
  "scores sid db = map sx_core (filter (\<lambda>s. sx_StreamID s = sid) (db_state db))"

definition schains :: "string \<Rightarrow> pitr_db \<Rightarrow> (string \<times> Timestamp) list" where
  "schains sid db = map (\<lambda>c. (cn_ChainID c, cn_Start c)) (filter (\<lambda>c. cn_StreamID c = sid) (db_chains db))"

definition row_mono :: "Chunk \<Rightarrow> Chunk \<Rightarrow> bool" where
  "row_mono k k' \<longleftrightarrow> ck_core k' = ck_core k \<and> (Live k' \<longrightarrow> Live k)"

definition kept :: "string \<Rightarrow> pitr_db \<Rightarrow> pitr_db \<Rightarrow> bool" where
  "kept sid db db' \<longleftrightarrow> list_all2 row_mono (srows sid db) (srows sid db') \<and> scores sid db' = scores sid db \<and> schains sid db' = schains sid db"

definition gone :: "string \<Rightarrow> pitr_db \<Rightarrow> bool" where
  "gone sid db \<longleftrightarrow> srows sid db = [] \<and> scores sid db = [] \<and> schains sid db = []"

lemma row_mono_refl [simp]: "row_mono k k"
  by (simp add: row_mono_def)

lemma kept_same: "db_chunks db' = db_chunks db \<Longrightarrow> db_state db' = db_state db \<Longrightarrow> db_chains db' = db_chains db \<Longrightarrow> kept sid db db'"
  by (simp add: kept_def srows_def scores_def schains_def list_all2_same)

lemma kept_trans: "kept sid a b \<Longrightarrow> kept sid b c \<Longrightarrow> kept sid a c"
  unfolding kept_def using list_all2_trans [of row_mono row_mono row_mono "srows sid a" "srows sid b" "srows sid c"]
  by (auto simp: row_mono_def)

lemma kept_gone: "gone sid a \<Longrightarrow> kept sid a b \<Longrightarrow> gone sid b"
  by (auto simp: kept_def gone_def)

lemma list_all2_update_rows:
  assumes "\<And>k. P k \<Longrightarrow> row_mono k (f k)"
  shows "list_all2 row_mono (filter (\<lambda>k. ck_StreamID k = sid) ks) (filter (\<lambda>k. ck_StreamID k = sid) (update_rows P f ks))"
proof (induction ks)
  case (Cons k ks)
  have m: "row_mono k (if P k then f k else k)" using assms by simp
  then have "ck_StreamID (if P k then f k else k) = ck_StreamID k" by (auto simp: row_mono_def ck_core_def)
  with Cons m show ?case by (auto simp: update_rows_def)
qed (simp add: update_rows_def)

lemma kept_update_chunks:
  assumes "\<And>k. P k \<Longrightarrow> row_mono k (f k)"
  shows "kept sid db (db\<lparr>db_chunks := update_rows P f (db_chunks db)\<rparr>)"
  using list_all2_update_rows [OF assms] by (simp add: kept_def srows_def scores_def schains_def)

lemma map_core_filter:
  assumes "\<And>s. sx_core (f s) = sx_core s"
  shows "map sx_core (filter (\<lambda>s. sx_StreamID s = sid) (update_rows P f ss)) = map sx_core (filter (\<lambda>s. sx_StreamID s = sid) ss)"
proof (induction ss)
  case (Cons x xs)
  have "sx_StreamID (f x) = sx_StreamID x" using assms [of x] by (simp add: sx_core_def)
  with Cons assms show ?case by (simp add: update_rows_def)
qed (simp add: update_rows_def)

lemma kept_update_state: "update_state i f db = Ok db' \<Longrightarrow> (\<And>s. sx_core (f s) = sx_core s) \<Longrightarrow> kept sid db db'"
  by (auto simp: update_state_def kept_def srows_def schains_def scores_def list_all2_same map_core_filter split: if_splits)

lemma kept_update_chunk: "update_chunk P f db = Ok db' \<Longrightarrow> (\<And>k. P k \<Longrightarrow> row_mono k (f k)) \<Longrightarrow> kept sid db db'"
  using kept_update_chunks [of P f sid db] by (simp add: update_chunk_def split: if_splits)

lemma kept_DeleteChunks: "DeleteChunks ids at pa db = (db', n) \<Longrightarrow> kept sid db db'"
proof (induction ids arbitrary: db db' n)
  case (Cons i ids)
  let ?db1 = "db\<lparr>db_chunks := update_rows (\<lambda>c. ck_ID c = i \<and> deletable c) (\<lambda>c. c\<lparr>ck_DeletedAt := Some (timeKey at),
      ck_PurgeAfter := Some (timeKey pa)\<rparr>) (db_chunks db)\<rparr>"
  obtain m where "DeleteChunks ids at pa ?db1 = (db', m)" using Cons.prems by (auto simp: Let_def split: prod.splits)
  moreover have "kept sid db ?db1" by (rule kept_update_chunks) (simp add: row_mono_def ck_core_def Live_def)
  ultimately show ?case using Cons.IH kept_trans by blast
qed (simp add: kept_same)

lemma filter_other_stream:
  "i \<noteq> sid \<Longrightarrow> (\<And>s. sx_StreamID (f s) = sx_StreamID s) \<Longrightarrow>
   filter (\<lambda>s. sx_StreamID s = sid) (update_rows (\<lambda>r. sx_StreamID r = i) f ss) = filter (\<lambda>s. sx_StreamID s = sid) ss"
  by (induction ss) (simp_all add: update_rows_def)

lemma quiet_kept: "quiet_step sid db db' \<Longrightarrow> kept sid db db' \<or> gone sid db'"
proof (induction rule: quiet_step.induct)
  case (q_create cf now st db db' st')
  then show ?case by (auto simp: CreateStream_def Let_def split: if_splits intro!: kept_same)
next
  case (q_update now st db db' st')
  then show ?case by (auto simp: UpdateStream_def split: if_splits option.splits intro!: kept_same)
next
  case (q_delete i db db')
  then have db': "db' = \<lparr>db_streams = filter (\<lambda>r. st_ID r \<noteq> i) (db_streams db), db_chains = filter (\<lambda>r. cn_StreamID r \<noteq> i) (db_chains db),
      db_chunks = filter (\<lambda>r. ck_StreamID r \<noteq> i) (db_chunks db), db_state = filter (\<lambda>r. sx_StreamID r \<noteq> i) (db_state db)\<rparr>"
    by (simp add: DeleteStream_def split: if_splits)
  show ?case
  proof (cases "i = sid")
    case True
    then show ?thesis by (simp add: db' gone_def srows_def scores_def schains_def conj_commute)
  next
    case False
    then have e: "(x \<noteq> i \<and> x = sid) = (x = sid)" for x by auto
    show ?thesis by (simp add: db' kept_def srows_def scores_def schains_def e list_all2_same)
  qed
next
  case (q_start i cid start at db db')
  then have "db' = started i cid start at db" by (simp add: StartChain_Ok)
  then have "db_chunks db' = db_chunks db" "scores sid db' = scores sid db" "schains sid db' = schains sid db"
    using q_start(2) by (simp_all add: started_def new_chain_def scores_def schains_def move_state_def filter_other_stream)
  then show ?case by (simp add: kept_def srows_def list_all2_same)
next
  case (q_end i cid e reason at db db')
  have "map (\<lambda>c. (cn_ChainID c, cn_Start c)) (filter (\<lambda>c. cn_StreamID c = sid) (update_rows P (\<lambda>c. c\<lparr>cn_End := e, cn_EndReason := reason, cn_EndedAt := t\<rparr>) cs))
      = map (\<lambda>c. (cn_ChainID c, cn_Start c)) (filter (\<lambda>c. cn_StreamID c = sid) cs)" for P cs t
    by (induction cs) (simp_all add: update_rows_def)
  with q_end show ?case by (auto simp: EndChain_def kept_def srows_def scores_def schains_def list_all2_same split: if_splits option.splits)
next
  case (q_commit now c db db' c')
  from q_commit(1) have db': "db' = committed now c db" by (rule CommitChunk_Ok)
  show ?case using q_commit(2) by (simp add: db' committed_def kept_def srows_def scores_def schains_def list_all2_same filter_other_stream)
next
  case (q_verified kid at err db db')
  then show ?case unfolding MarkChunkVerified_def by (auto intro!: disjI1 elim!: kept_update_chunk simp: row_mono_def ck_core_def Live_def)
next
  case (q_delete_chunks ids at pa db db' n)
  then show ?case using kept_DeleteChunks by blast
next
  case (q_retain kid until db db')
  then show ?case unfolding SetChunkRetainUntil_def by (auto intro!: disjI1 elim!: kept_update_chunk simp: row_mono_def ck_core_def Live_def)
next
  case (q_pruned kid db db')
  then show ?case unfolding MarkChunkPruned_def by (auto intro!: disjI1 elim!: kept_update_chunk simp: row_mono_def ck_core_def Live_def)
next
  case (q_supersede i cid after db db' n)
  then have "db' = db\<lparr>db_chunks := update_rows (superseding i cid after) (\<lambda>c. c\<lparr>ck_Status := ChunkSuperseded\<rparr>) (db_chunks db)\<rparr>"
    by (simp add: SupersedeChunks_def)
  then show ?case using kept_update_chunks [of "superseding i cid after" "\<lambda>c. c\<lparr>ck_Status := ChunkSuperseded\<rparr>" sid db]
    by (simp add: row_mono_def ck_core_def Live_def)
next
  case (q_status i status err lag at db db')
  then show ?case unfolding SetCollectorStatus_def by (auto intro!: disjI1 elim!: kept_update_state simp: sx_core_def)
next
  case (q_window_low i since db db')
  then show ?case unfolding SetWindowLow_def by (auto intro!: disjI1 elim!: kept_update_state simp: sx_core_def)
next
  case (q_rsid i rid db db')
  then show ?case unfolding SetReplicaSetID_def by (auto intro!: disjI1 elim!: kept_update_state simp: sx_core_def)
qed

lemma quiet_keeps: "(quiet_step sid)\<^sup>*\<^sup>* db db' \<Longrightarrow> kept sid db db' \<or> gone sid db'"
proof (induction rule: rtranclp_induct)
  case base
  then show ?case by (simp add: kept_same)
next
  case (step y z)
  then show ?case using quiet_kept [OF step(2)] kept_trans kept_gone by blast
qed

section \<open>What the objects hold\<close>

definition first_row :: "string \<Rightarrow> pitr_db \<Rightarrow> Chunk \<Rightarrow> bool" where
  "first_row sid db k = (case rows_of sid (ck_ChainID k) (db_chunks db) of [] \<Rightarrow> False | r # _ \<Rightarrow> ck_ID r = ck_ID k)"

text \<open>The entries of a history that a chunk row stands for: those after its start, or from its start on in the first chunk of a
  chain, up to its end.\<close>

definition row_docs :: "bson_codec \<Rightarrow> byte list list \<Rightarrow> string \<Rightarrow> pitr_db \<Rightarrow> Chunk \<Rightarrow> byte list list" where
  "row_docs b H sid db k = filter (\<lambda>d. (if first_row sid db k then ck_From k \<le> doc_ts b d else ck_From k < doc_ts b d) \<and> doc_ts b d \<le> ck_To k) H"

definition objs_ok :: "bson_codec \<Rightarrow> (byte list \<Rightarrow> byte list option) \<Rightarrow> byte list list \<Rightarrow> string \<Rightarrow> pitr_db \<Rightarrow> objects \<Rightarrow> bool" where
  "objs_ok b opens H sid db objs \<longleftrightarrow> (\<forall>k \<in> set (srows sid db). Live k \<longrightarrow>
     (\<exists>ob. objs (ck_TargetID k, ck_StorageKey k) = Some ob \<and> opens ob = Some (concat (row_docs b H sid db k))))"

definition keys_ok :: "string \<Rightarrow> pitr_db \<Rightarrow> bool" where
  "keys_ok sid db \<longleftrightarrow> (\<forall>k \<in> set (srows sid db). \<exists>st. ck_StorageKey k = ChunkKey st (ck_ChainID k) (ck_From k) (ck_To k))
     \<and> (\<forall>c \<in> set (schains sid db). CHR ''/'' \<notin> set (fst c))"

definition flags_ok :: "string \<Rightarrow> pitr_db \<Rightarrow> worker \<Rightarrow> bool" where
  "flags_ok sid db w \<longleftrightarrow> (wk_checked w \<longrightarrow> (\<forall>st. LoadState sid db = Ok st \<longrightarrow> (wk_inclusive w \<longleftrightarrow> rows_of sid (sx_ChainID st) (db_chunks db) = [])))"

definition collect_inv :: "bson_codec \<Rightarrow> (byte list \<Rightarrow> byte list option) \<Rightarrow> byte list list \<Rightarrow> wsys \<Rightarrow> bool" where
  "collect_inv b opens H s \<longleftrightarrow> pitr_inv (wy_db s) \<and> objs_ok b opens H (wy_sid s) (wy_db s) (wy_objs s) \<and> keys_ok (wy_sid s) (wy_db s)
     \<and> flags_ok (wy_sid s) (wy_db s) (wy_w s)"

lemma rows_of_srows: "rows_of sid cid (db_chunks db) = filter (\<lambda>k. ck_ChainID k = cid) (srows sid db)"
  by (simp add: rows_of_def srows_def conj_commute)

lemma LoadState_scores: "LoadState sid db = Ok st \<Longrightarrow> \<exists>r. scores sid db = sx_core st # r"
proof -
  assume "LoadState sid db = Ok st"
  then have f: "find (\<lambda>r. sx_StreamID r = sid) (db_state db) = Some st" by (simp add: LoadState_def split: option.splits)
  have "\<exists>r. filter (\<lambda>r. sx_StreamID r = sid) xs = st # r" if "find (\<lambda>r. sx_StreamID r = sid) xs = Some st" for xs
    using that by (induction xs) (auto split: if_splits)
  from this [OF f] show ?thesis by (auto simp: scores_def)
qed

lemma scores_LoadState: "scores sid db = c # r \<Longrightarrow> \<exists>st. LoadState sid db = Ok st \<and> sx_core st = c"
proof -
  assume "scores sid db = c # r"
  then obtain st ss where f: "filter (\<lambda>r. sx_StreamID r = sid) (db_state db) = st # ss" "sx_core st = c" by (auto simp: scores_def)
  have "find (\<lambda>r. sx_StreamID r = sid) xs = Some st" if "filter (\<lambda>r. sx_StreamID r = sid) xs = st # ss" for xs
    using that by (induction xs) (auto split: if_splits)
  from this [OF f(1)] f(2) show ?thesis by (auto simp: LoadState_def)
qed

lemma list_all2_core: "list_all2 row_mono xs ys \<Longrightarrow> map ck_core ys = map ck_core xs"
  by (induction rule: list_all2_induct) (simp_all add: row_mono_def)

lemma filter_core_chain:
  "map ck_core ys = map ck_core xs \<Longrightarrow> map ck_core (filter (\<lambda>k. ck_ChainID k = cid) ys) = map ck_core (filter (\<lambda>k. ck_ChainID k = cid) xs)"
proof (induction xs arbitrary: ys)
  case (Cons x xs)
  then obtain y ys' where ys: "ys = y # ys'" "ck_core y = ck_core x" "map ck_core ys' = map ck_core xs" by (cases ys) auto
  moreover have "ck_ChainID y = ck_ChainID x" using ys(2) by (simp add: ck_core_def)
  ultimately show ?case using Cons.IH [OF ys(3)] by simp
qed simp

lemma kept_rows: "kept sid db db' \<Longrightarrow> map ck_core (rows_of sid cid (db_chunks db')) = map ck_core (rows_of sid cid (db_chunks db))"
  unfolding rows_of_srows by (rule filter_core_chain) (auto simp: kept_def dest: list_all2_core)

lemma kept_row: "kept sid db db' \<Longrightarrow> k' \<in> set (srows sid db') \<Longrightarrow> \<exists>k \<in> set (srows sid db). row_mono k k'"
  unfolding kept_def by (metis in_set_conv_nth list_all2_conv_all_nth)

lemma ck_coreD: "ck_core k' = ck_core k \<Longrightarrow> ck_ID k' = ck_ID k \<and> ck_StreamID k' = ck_StreamID k \<and> ck_ChainID k' = ck_ChainID k
    \<and> ck_TargetID k' = ck_TargetID k \<and> ck_StorageKey k' = ck_StorageKey k \<and> ck_From k' = ck_From k \<and> ck_To k' = ck_To k"
  by (simp add: ck_core_def)

lemma first_row_core:
  assumes "map ck_core (rows_of sid (ck_ChainID k) (db_chunks db')) = map ck_core (rows_of sid (ck_ChainID k) (db_chunks db))" "ck_core k' = ck_core k"
  shows "first_row sid db' k' = first_row sid db k"
  using assms ck_coreD [OF assms(2)] by (auto simp: first_row_def dest!: ck_coreD split: list.splits)

lemma row_docs_kept:
  assumes "kept sid db db'" "ck_core k' = ck_core k"
  shows "row_docs b H sid db' k' = row_docs b H sid db k"
  using first_row_core [OF kept_rows [OF assms(1)] assms(2)] ck_coreD [OF assms(2)] by (simp add: row_docs_def)

lemma objs_ok_kept:
  assumes "objs_ok b opens H sid db objs" "kept sid db db'"
    and "\<And>k. k \<in> set (srows sid db') \<Longrightarrow> Live k \<Longrightarrow> objs' (ck_TargetID k, ck_StorageKey k) = objs (ck_TargetID k, ck_StorageKey k)"
  shows "objs_ok b opens H sid db' objs'"
  unfolding objs_ok_def
proof (intro ballI impI)
  fix k' assume k': "k' \<in> set (srows sid db')" "Live k'"
  from kept_row [OF assms(2) k'(1)] obtain k where k: "k \<in> set (srows sid db)" "ck_core k' = ck_core k" "Live k"
    using k'(2) by (auto simp: row_mono_def)
  then have "\<exists>ob. objs (ck_TargetID k, ck_StorageKey k) = Some ob \<and> opens ob = Some (concat (row_docs b H sid db k))"
    using assms(1) by (simp add: objs_ok_def)
  then show "\<exists>ob. objs' (ck_TargetID k', ck_StorageKey k') = Some ob \<and> opens ob = Some (concat (row_docs b H sid db' k'))"
    unfolding row_docs_kept [OF assms(2) k(2)] using assms(3) [OF k'] ck_coreD [OF k(2)] by simp
qed

lemma keys_ok_kept: "keys_ok sid db \<Longrightarrow> kept sid db db' \<Longrightarrow> keys_ok sid db'"
  unfolding keys_ok_def using kept_row [of sid db db'] by (fastforce simp: kept_def row_mono_def dest: ck_coreD)

lemma flags_ok_kept:
  assumes "flags_ok sid db w" "kept sid db db'" "wk_checked w' = wk_checked w" "wk_inclusive w' = wk_inclusive w"
  shows "flags_ok sid db' w'"
  unfolding flags_ok_def
proof (intro impI allI)
  fix st' assume c: "wk_checked w'" "LoadState sid db' = Ok st'"
  from LoadState_scores [OF c(2)] assms(2) obtain r where "scores sid db = sx_core st' # r" by (auto simp: kept_def)
  from scores_LoadState [OF this] obtain st where st: "LoadState sid db = Ok st" "sx_ChainID st = sx_ChainID st'" by (auto simp: sx_core_def)
  have "wk_inclusive w \<longleftrightarrow> rows_of sid (sx_ChainID st') (db_chunks db) = []" using assms(1,3) c(1) st by (auto simp: flags_ok_def)
  then show "wk_inclusive w' \<longleftrightarrow> rows_of sid (sx_ChainID st') (db_chunks db') = []"
    using assms(4) kept_rows [OF assms(2), of "sx_ChainID st'"] by (metis map_is_Nil_conv)
qed

lemma gone_ok: "gone sid db \<Longrightarrow> objs_ok b opens H sid db objs \<and> keys_ok sid db \<and> flags_ok sid db w"
  by (auto simp: gone_def objs_ok_def keys_ok_def flags_ok_def dest: LoadState_scores)

text \<open>Statements that leave the collector alone, and the collector's own that leave its flags alone, keep the invariant.\<close>

lemma collect_inv_quiet:
  assumes "collect_inv b opens H s" "(quiet_step (wy_sid s))\<^sup>*\<^sup>* (wy_db s) db'"
    and "st_ID (wk_stream w') = wy_sid s" "wk_checked w' = wk_checked (wy_w s)" "wk_inclusive w' = wk_inclusive (wy_w s)"
    and "\<And>k. k \<in> set (srows (wy_sid s) db') \<Longrightarrow> Live k \<Longrightarrow> objs' (ck_TargetID k, ck_StorageKey k) = wy_objs s (ck_TargetID k, ck_StorageKey k)"
  shows "collect_inv b opens H \<lparr>wy_w = w', wy_db = db', wy_objs = objs', wy_events = ev\<rparr>"
proof -
  note i = assms(1) [unfolded collect_inv_def]
  have inv: "pitr_inv db'" using quiet_inv [OF assms(2)] i by blast
  show ?thesis
  proof (cases "gone (wy_sid s) db'")
    case True
    then show ?thesis using inv gone_ok [OF True] assms(3) by (simp add: collect_inv_def)
  next
    case False
    then have k: "kept (wy_sid s) (wy_db s) db'" using quiet_keeps [OF assms(2)] by blast
    have "objs_ok b opens H (wy_sid s) db' objs'"
      by (rule objs_ok_kept [where objs = "wy_objs s", OF _ k]) (use i assms(6) in blast)+
    moreover have "keys_ok (wy_sid s) db'" using keys_ok_kept [OF _ k] i by blast
    moreover have "flags_ok (wy_sid s) db' w'" using flags_ok_kept [OF _ k assms(4,5)] i by blast
    ultimately show ?thesis using inv assms(3) by (simp add: collect_inv_def)
  qed
qed

section \<open>Starting and checking\<close>

lemma collect_inv_start:
  assumes "collect_inv b opens H s" "StartChain (wy_sid s) cid start at (wy_db s) = Ok db'" "CHR ''/'' \<notin> set cid"
    and "st_ID (wk_stream w') = wy_sid s" "wk_inclusive w'"
  shows "collect_inv b opens H \<lparr>wy_w = w', wy_db = db', wy_objs = wy_objs s, wy_events = ev\<rparr>"
proof -
  let ?sid = "wy_sid s"
  note i = assms(1) [unfolded collect_inv_def]
  from assms(2) have db': "db' = started ?sid cid start at (wy_db s)"
    and new: "\<forall>c \<in> set (db_chains (wy_db s)). \<not> (cn_StreamID c = ?sid \<and> cn_ChainID c = cid)" by (simp_all add: StartChain_Ok)
  have ck: "db_chunks db' = db_chunks (wy_db s)" by (simp add: db' started_def)
  have inv: "pitr_inv db'" using inv_StartChain [OF _ assms(2)] i by blast
  have "objs_ok b opens H ?sid db' (wy_objs s)" using i ck by (simp add: objs_ok_def srows_def row_docs_def first_row_def)
  moreover have "keys_ok ?sid db'" using i assms(3) by (auto simp: keys_ok_def db' started_def new_chain_def srows_def schains_def)
  moreover have "flags_ok ?sid db' w'"
    unfolding flags_ok_def
  proof (intro impI allI)
    fix st assume "LoadState ?sid db' = Ok st"
    from LoadState_Ok [OF this] have "st \<in> set (move_state ?sid cid start at (db_state (wy_db s)))" "sx_StreamID st = ?sid"
      by (simp_all add: db' started_def)
    then have "sx_ChainID st = cid" using move_state_at by blast
    moreover have "rows_of ?sid cid (db_chunks (wy_db s)) = []" using rows_of_no_chain [OF _ new] i by (simp add: pitr_inv_def)
    ultimately show "wk_inclusive w' \<longleftrightarrow> rows_of ?sid (sx_ChainID st) (db_chunks db') = []" using assms(5) ck by simp
  qed
  ultimately show ?thesis using inv assms(4) by (simp add: collect_inv_def)
qed

lemma prev_ts_less: "\<not> ts_IsZero (prev_ts t) \<Longrightarrow> prev_ts t < t"
proof -
  assume nz: "\<not> ts_IsZero (prev_ts t)"
  have w: "(0 :: 32 word) < x \<Longrightarrow> x - 1 < x" for x unfolding word_less_nat_alt [of "x - 1"] by (rule measure_unat) (simp add: word_gt_0)
  show ?thesis using nz w by (cases t) (auto simp: prev_ts_def ts_IsZero_def less_Timestamp_def word_gt_0 split: if_splits)
qed

lemma state_chain:
  assumes "pitr_inv db" "LoadState sid db = Ok st"
  obtains c where "c \<in> set (db_chains db)" "cn_StreamID c = sid" "cn_ChainID c = sx_ChainID st"
    "run_from (cn_Start c) (rows_of sid (sx_ChainID st) (db_chunks db)) (ot_TS (sx_Last st))"
proof -
  from LoadState_Ok [OF assms(2)] have st: "st \<in> set (db_state db)" "sx_StreamID st = sid" by simp_all
  then obtain c where c: "c \<in> set (db_chains db)" "state_at st c" using assms(1) by (auto simp: pitr_inv_def inv_state_def)
  then obtain e where "run_from (cn_Start c) (rows_of (cn_StreamID c) (cn_ChainID c) (db_chunks db)) e" "ot_TS (sx_Last st) = e"
    using assms(1) st(1) by (auto simp: pitr_inv_def inv_runs_def)
  then show thesis using that [of c] c st(2) by (simp add: state_at_def)
qed

lemma run_from_last: "run_from a ks e \<Longrightarrow> ks \<noteq> [] \<Longrightarrow> ck_To (last ks) = e"
  by (induction ks arbitrary: a) (auto split: if_splits)

text \<open>The check at start finds out whether the stored chain has a chunk.\<close>

lemma checked_inclusive:
  assumes "pitr_inv (wy_db s)" "LoadState (wy_sid s) (wy_db s) = Ok cur" "sx_core st = sx_core cur" "last_chunks st s = Ok chunks"
  shows "chunks = [] \<and> chainStartsAt st s \<longleftrightarrow> rows_of (wy_sid s) (sx_ChainID cur) (db_chunks (wy_db s)) = []"
proof -
  let ?sid = "wy_sid s" and ?db = "wy_db s" and ?rows = "rows_of (wy_sid s) (sx_ChainID cur) (db_chunks (wy_db s))"
  have st: "sx_ChainID st = sx_ChainID cur" "sx_Last st = sx_Last cur" using assms(3) by (simp_all add: sx_core_def)
  from state_chain [OF assms(1,2)] obtain c where c: "c \<in> set (db_chains ?db)" "cn_StreamID c = ?sid" "cn_ChainID c = sx_ChainID cur"
    "run_from (cn_Start c) ?rows (ot_TS (sx_Last cur))" by blast
  have ch: "set chunks = {k \<in> set ?rows. ts_IsZero (prev_ts (ot_TS (sx_Last cur))) \<or> ck_To k > prev_ts (ot_TS (sx_Last cur))}"
    using assms(4) st by (auto simp: last_chunks_def ListChunks_def chunk_selected_def rows_of_def ts_IsZero_def split: if_splits)
  show ?thesis
  proof (cases "?rows = []")
    case True
    then have start: "cn_Start c = ot_TS (sx_Last cur)" using c(4) by simp
    have "c \<in> set (ListChains ?sid ?db)" using c by (simp add: in_ListChains)
    then obtain d where d: "find (\<lambda>c. cn_ChainID c = sx_ChainID cur) (ListChains ?sid ?db) = Some d"
      using c(3) by (cases "find (\<lambda>c. cn_ChainID c = sx_ChainID cur) (ListChains ?sid ?db)") (auto simp: find_None_all)
    from find_Some_in [OF d] have "d \<in> set (db_chains ?db)" "cn_StreamID d = ?sid" "cn_ChainID d = sx_ChainID cur" by (simp_all add: in_ListChains)
    then have "d = c" using chain_key_unique [of ?db d c] assms(1) c by (simp add: pitr_inv_def)
    then have "chainStartsAt st s" using d start st by (simp add: chainStartsAt_def)
    moreover have "chunks = []" using ch True by auto
    ultimately show ?thesis using True by simp
  next
    case False
    then have "ck_To (last ?rows) = ot_TS (sx_Last cur)" by (rule run_from_last [OF c(4)])
    then have "last ?rows \<in> set chunks" using False prev_ts_less ch by auto
    then show ?thesis using False by auto
  qed
qed

lemma collect_inv_checked:
  assumes "collect_inv b opens H s" "LoadState (wy_sid s) (wy_db s) = Ok cur" "sx_core st = sx_core cur" "last_chunks st s = Ok chunks"
    and "st_ID (wk_stream w') = wy_sid s" "wk_inclusive w' = (chunks = [] \<and> chainStartsAt st s)"
  shows "collect_inv b opens H (s\<lparr>wy_w := w'\<rparr>)"
  using assms(1,2,5,6) checked_inclusive [OF _ assms(2-4)] by (simp add: collect_inv_def flags_ok_def)

section \<open>Writing\<close>

lemma split_no_slash:
  "xs @ CHR ''/'' # ys = xs' @ CHR ''/'' # ys' \<Longrightarrow> CHR ''/'' \<notin> set ys \<Longrightarrow> CHR ''/'' \<notin> set ys' \<Longrightarrow> xs = xs' \<and> ys = ys'"
proof (induction xs arbitrary: xs')
  case Nil
  then show ?case by (cases xs') auto
next
  case (Cons x xs)
  then show ?case by (cases xs') auto
qed

lemma ChunkKey_range:
  assumes "ChunkKey st c f t = ChunkKey st' c' f' t'" "CHR ''/'' \<notin> set c" "CHR ''/'' \<notin> set c'"
  shows "c = c' \<and> f = f' \<and> t = t'"
proof -
  let ?pre = "\<lambda>st. KeyPrefix @ SanitizeIDComponent (st_ConnectionID st) 0 @ ''/'' @ SanitizeIDComponent (st_ReplicaSet st) 0"
  from assms(1) have e: "((?pre st @ CHR ''/'' # c) @ CHR ''/'' # ts_String f) @ CHR ''-'' # ts_String t @ ''.bson.gz'' @ FileExtension
      = ((?pre st' @ CHR ''/'' # c') @ CHR ''/'' # ts_String f') @ CHR ''-'' # ts_String t' @ ''.bson.gz'' @ FileExtension"
    by (simp add: ChunkKey_def)
  from append_same_suffix_length [OF e] have
    e1: "(?pre st @ CHR ''/'' # c) @ CHR ''/'' # ts_String f = (?pre st' @ CHR ''/'' # c') @ CHR ''/'' # ts_String f'" and t: "ts_String t = ts_String t'" by simp_all
  from append_same_suffix_length [OF e1] have e2: "?pre st @ CHR ''/'' # c = ?pre st' @ CHR ''/'' # c'" and f: "ts_String f = ts_String f'" by simp_all
  from split_no_slash [OF e2 assms(2,3)] f t show ?thesis by (simp add: ts_String_inj)
qed

text \<open>
  What the collector relies on. A member's oplog, as far as it is majority-committed, is a stretch of the replica set's one
  history: its range queries up to such a position deliver the entries of that stretch. What is sealed opens to itself. Other components issue any
  statement but the two the stream's own collector issues.
\<close>

definition honest_query :: "bson_codec \<Rightarrow> byte list list \<Rightarrow> Timestamp \<Rightarrow> (Timestamp \<Rightarrow> Timestamp \<Rightarrow> oplogCursor option) \<Rightarrow> bool" where
  "honest_query b H maj q \<longleftrightarrow> (\<forall>f t cur. t \<le> maj \<longrightarrow> q f t = Some cur \<longrightarrow>
     (\<exists>lo hi. cu_docs cur = filter (\<lambda>d. (lo \<le> doc_ts b d \<and> doc_ts b d \<le> hi) \<and> f \<le> doc_ts b d \<and> doc_ts b d \<le> t) H))"

definition honest_ports :: "bson_codec \<Rightarrow> (byte list \<Rightarrow> byte list option) \<Rightarrow> string \<Rightarrow> chunk_env \<Rightarrow> bool" where
  "honest_ports b opens sid env \<longleftrightarrow> ce_codec env = b \<and> (\<forall>x. opens (ce_seal env x) = Some x) \<and> (\<forall>db. (quiet_step sid)\<^sup>*\<^sup>* db (ce_meanwhile env db))"

lemma produced_range:
  assumes "produce env q rng = Ok (stats, sc)" "honest_query b H maj q" "or_To rng \<le> maj" "\<forall>d \<in> set H. framed b d" "ce_codec env = b"
  shows "sc_out sc = concat (filter (\<lambda>d. in_range rng (doc_ts b d)) H)"
proof -
  from assms(1) obtain cur where cur: "q (or_From rng) (or_To rng) = Some cur"
    by (auto simp: produce_def ReadOplog_def split: if_splits sum.splits option.splits prod.splits)
  with assms(2,3) obtain lo hi where docs:
    "cu_docs cur = filter (\<lambda>d. (lo \<le> doc_ts b d \<and> doc_ts b d \<le> hi) \<and> or_From rng \<le> doc_ts b d \<and> doc_ts b d \<le> or_To rng) H"
    unfolding honest_query_def by blast
  let ?log = "filter (\<lambda>d. lo \<le> doc_ts b d \<and> doc_ts b d \<le> hi) H"
  have docs': "cu_docs cur = filter (\<lambda>d. or_From rng \<le> doc_ts (ce_codec env) d \<and> doc_ts (ce_codec env) d \<le> or_To rng) ?log"
    unfolding docs filter_filter assms(5) by (rule filter_cong) auto
  have fr: "\<forall>d \<in> set ?log. framed (ce_codec env) d" using assms(4,5) by simp
  note p = produce_Ok [OF assms(1) cur docs' fr, unfolded assms(5)]
  from p have "lo \<le> or_From rng" "or_To rng \<le> hi" by auto
  then have "filter (\<lambda>d. in_range rng (doc_ts b d)) ?log = filter (\<lambda>d. in_range rng (doc_ts b d)) H"
    unfolding filter_filter by (intro filter_cong) (auto simp: in_range_def split: if_splits)
  with p show ?thesis by simp
qed

lemma row_of_range:
  assumes "pitr_inv db" "LoadState sid db = Ok cur" "k \<in> set (srows sid db)" "ck_ChainID k = sx_ChainID cur" "ck_From k = ot_TS (sx_Last cur)"
  shows "k \<in> set (rows_of sid (sx_ChainID cur) (db_chunks db)) \<and> ck_To k = ck_From k"
proof -
  have k: "k \<in> set (rows_of sid (sx_ChainID cur) (db_chunks db))" using assms(3,4) by (simp add: rows_of_srows)
  obtain c where "c \<in> set (db_chains db)" "cn_StreamID c = sid" "cn_ChainID c = sx_ChainID cur"
    and run: "run_from (cn_Start c) (rows_of sid (sx_ChainID cur) (db_chunks db)) (ot_TS (sx_Last cur))"
    by (rule state_chain [OF assms(1,2)])
  have "ck_From k \<le> ck_To k" "ck_To k \<le> ck_From k" using run_from_bounds [OF run k] assms(5) by simp_all
  then show ?thesis using k order_antisym by blast
qed

text \<open>The object the collector is about to write is not that of a row.\<close>

lemma fresh_key:
  assumes "collect_inv b opens H s" "LoadState (wy_sid s) (wy_db s) = Ok cur" "wk_checked (wy_w s)"
    and "ot_TS (sx_Last cur) = f" "t = f \<Longrightarrow> \<not> wk_inclusive (wy_w s) \<Longrightarrow>
      \<not> (\<exists>k \<in> set (rows_of (wy_sid s) (sx_ChainID cur) (db_chunks (wy_db s))). ck_From k = f \<and> ck_To k = f)"
    and k: "k \<in> set (srows (wy_sid s) (wy_db s))"
  shows "ck_StorageKey k \<noteq> ChunkKey st (sx_ChainID cur) f t"
proof
  assume key: "ck_StorageKey k = ChunkKey st (sx_ChainID cur) f t"
  note i = assms(1) [unfolded collect_inv_def]
  from i k obtain st' where st': "ck_StorageKey k = ChunkKey st' (ck_ChainID k) (ck_From k) (ck_To k)" by (auto simp: keys_ok_def)
  have slash: "CHR ''/'' \<notin> set c" if "c = ck_ChainID k \<or> c = sx_ChainID cur" for c
  proof -
    have "\<exists>d \<in> set (db_chains (wy_db s)). cn_StreamID d = wy_sid s \<and> cn_ChainID d = c"
    proof (cases "c = ck_ChainID k")
      case True
      have "k \<in> set (db_chunks (wy_db s))" "ck_StreamID k = wy_sid s" using k by (simp_all add: srows_def)
      moreover have "\<forall>k \<in> set (db_chunks (wy_db s)). \<exists>c \<in> set (db_chains (wy_db s)). ck_StreamID k = cn_StreamID c \<and> ck_ChainID k = cn_ChainID c"
        using i by (simp add: pitr_inv_def inv_chunks_def)
      ultimately show ?thesis using True by metis
    next
      case False
      have inv: "pitr_inv (wy_db s)" using i by blast
      obtain d where "d \<in> set (db_chains (wy_db s))" "cn_StreamID d = wy_sid s" "cn_ChainID d = sx_ChainID cur"
        "run_from (cn_Start d) (rows_of (wy_sid s) (sx_ChainID cur) (db_chunks (wy_db s))) (ot_TS (sx_Last cur))"
        by (rule state_chain [OF inv assms(2)])
      then show ?thesis using False that by blast
    qed
    then show ?thesis using i by (auto simp: keys_ok_def schains_def)
  qed
  from ChunkKey_range [of st' "ck_ChainID k" "ck_From k" "ck_To k" st "sx_ChainID cur" f t] slash key st'
  have e: "ck_ChainID k = sx_ChainID cur" "ck_From k = f" "ck_To k = t" by auto
  from row_of_range [OF _ assms(2) k e(1)] e(2) assms(4) i
  have r: "k \<in> set (rows_of (wy_sid s) (sx_ChainID cur) (db_chunks (wy_db s)))" "ck_To k = ck_From k" by auto
  then have "\<not> wk_inclusive (wy_w s)" using i assms(2,3) by (auto simp: flags_ok_def)
  with assms(5) r e show False by auto
qed

lemma srows_committed:
  "ck_StreamID c = sid \<Longrightarrow> srows sid (committed now c db) = srows sid db @ [stored_chunk now c]"
  by (simp add: srows_def committed_def)

lemma first_row_committed:
  assumes "ck_StreamID c = sid" "\<forall>r \<in> set (db_chunks db). ck_ID r \<noteq> ck_ID c"
  shows "k \<in> set (srows sid db) \<Longrightarrow> first_row sid (committed now c db) k = first_row sid db k"
    and "first_row sid (committed now c db) (stored_chunk now c) \<longleftrightarrow> rows_of sid (ck_ChainID c) (db_chunks db) = []"
proof -
  have rows: "rows_of sid cid (db_chunks (committed now c db)) = rows_of sid cid (db_chunks db) @ (if ck_ChainID c = cid then [stored_chunk now c] else [])" for cid
    using assms(1) by (simp add: committed_def rows_of_snoc)
  show "first_row sid (committed now c db) k = first_row sid db k" if "k \<in> set (srows sid db)"
  proof -
    have "k \<in> set (rows_of sid (ck_ChainID k) (db_chunks db))" using that by (simp add: rows_of_srows)
    then show ?thesis unfolding first_row_def rows by (cases "rows_of sid (ck_ChainID k) (db_chunks db)") auto
  qed
  show "first_row sid (committed now c db) (stored_chunk now c) \<longleftrightarrow> rows_of sid (ck_ChainID c) (db_chunks db) = []"
  proof (cases "rows_of sid (ck_ChainID c) (db_chunks db)")
    case (Cons a ks)
    then have "a \<in> set (db_chunks db)" by (metis filter_is_subset list.set_intros(1) rows_of_def subsetD)
    then have "ck_ID a \<noteq> ck_ID c" using assms(2) by blast
    then show ?thesis using Cons by (simp add: first_row_def rows)
  qed (simp add: first_row_def rows)
qed

lemma collect_inv_wrote:
  assumes inv: "collect_inv b opens H s" and ports: "honest_ports b opens (wy_sid s) env" and query: "honest_query b H maj q" "or_To rng \<le> maj"
    and H: "\<forall>d \<in> set H. framed b d" and cur: "LoadState (wy_sid s) (wy_db s) = Ok cur" "or_From rng = ot_TS (sx_Last cur)"
    and flags: "wk_checked (wy_w s)" "or_StartInclusive rng = wk_inclusive (wy_w s)"
    and empty: "or_To rng = or_From rng \<Longrightarrow> \<not> wk_inclusive (wy_w s) \<Longrightarrow>
      \<not> (\<exists>k \<in> set (rows_of (wy_sid s) (sx_ChainID cur) (db_chunks (wy_db s))). ck_From k = or_From rng \<and> ck_To k = or_From rng)"
    and wr: "writeChunk env q (wk_stream (wy_w s)) (sx_ChainID cur) rng tm (wy_db s) (wy_objs s) = (r, db', objs')"
    and w': "st_ID (wk_stream w') = wy_sid s" "wk_checked w'" "wk_inclusive w' = (case r of Inl _ \<Rightarrow> wk_inclusive (wy_w s) | Inr _ \<Rightarrow> False)"
  shows "collect_inv b opens H \<lparr>wy_w = w', wy_db = db', wy_objs = objs', wy_events = ev\<rparr>"
proof -
  let ?sid = "wy_sid s" and ?db = "wy_db s" and ?st = "wk_stream (wy_w s)" and ?cid = "sx_ChainID cur"
  let ?dbm = "ce_meanwhile env (wy_db s)" and ?K = "(st_TargetID (wk_stream (wy_w s)), ChunkKey (wk_stream (wy_w s)) (sx_ChainID cur) (or_From rng) (or_To rng))"
  note i = inv [unfolded collect_inv_def]
  have qm: "(quiet_step ?sid)\<^sup>*\<^sup>* ?db ?dbm" using ports by (simp add: honest_ports_def)
  have fresh: "ck_StorageKey k \<noteq> snd ?K" if "k \<in> set (srows ?sid ?db)" for k
    using fresh_key [OF inv cur(1) flags(1) cur(2) [symmetric] _ that, of "or_To rng" ?st] empty by simp
  show ?thesis
  proof (cases r)
    case (Inl e)
    then have db': "(quiet_step ?sid)\<^sup>*\<^sup>* ?db db'" using writeChunk_Err [OF wr [unfolded Inl]] qm by auto
    show ?thesis
    proof (rule collect_inv_quiet [OF inv db' w'(1)])
      fix k assume k: "k \<in> set (srows ?sid db')" "Live k"
      have "kept ?sid ?db db'" using quiet_keeps [OF db'] k(1) by (auto simp: gone_def)
      from kept_row [OF this k(1)] obtain k0 where "k0 \<in> set (srows ?sid ?db)" "ck_core k = ck_core k0" by (auto simp: row_mono_def)
      then have "(ck_TargetID k, ck_StorageKey k) \<noteq> ?K" using fresh [of k0] ck_coreD [of k k0] by auto
      then show "objs' (ck_TargetID k, ck_StorageKey k) = wy_objs s (ck_TargetID k, ck_StorageKey k)"
        by (rule writeChunk_Err_objects [OF wr [unfolded Inl]])
    qed (use w' flags Inl in simp_all)
  next
    case (Inr x)
    obtain c raw where x: "x = (c, raw)" by (cases x)
    from wr [unfolded Inr x] obtain stats sc where wo: "produce env q rng = Ok (stats, sc)"
      "CommitChunk (ce_now env) (new_chunk env ?st ?cid rng tm stats sc) ?dbm = Ok (db', c)"
      "objs' = (wy_objs s)(?K := Some (ce_seal env (sc_out sc)))" by (rule writeChunk_Ok)
    let ?c = "new_chunk env ?st ?cid rng tm stats sc"
    have nc: "ck_StreamID ?c = ?sid" "ck_ChainID ?c = ?cid" "ck_From ?c = or_From rng" "ck_To ?c = or_To rng" "(ck_TargetID ?c, ck_StorageKey ?c) = ?K"
      by (simp_all add: new_chunk_def)
    from wo(2) obtain st d where co: "db' = committed (ce_now env) ?c ?dbm" "st \<in> set (db_state ?dbm)" "sx_StreamID st = ck_StreamID ?c"
      "sx_ChainID st = ck_ChainID ?c" "ot_TS (sx_Last st) = ck_From ?c" "ck_From ?c \<le> ck_To ?c"
      "d \<in> set (db_chains ?dbm)" "cn_StreamID d = ck_StreamID ?c" "cn_ChainID d = ck_ChainID ?c" "chain_Open d"
      "\<forall>r \<in> set (db_chunks ?dbm). ck_ID r \<noteq> ck_ID ?c"
      "\<forall>r \<in> set (db_chunks ?dbm). (ck_TargetID r, ck_StorageKey r) \<noteq> (ck_TargetID ?c, ck_StorageKey ?c)" by (rule CommitChunk_Ok)
    have "\<not> gone ?sid ?dbm" using co(2,3) nc(1) by (auto simp: gone_def scores_def filter_empty_conv)
    then have kept: "kept ?sid ?db ?dbm" using quiet_keeps [OF qm] by blast
    have inv': "pitr_inv db'" by (rule inv_CommitChunk [OF quiet_inv [OF qm] wo(2)]) (use i in blast)
    have om: "objs_ok b opens H ?sid ?dbm (wy_objs s)" by (rule objs_ok_kept [where objs = "wy_objs s", OF _ kept]) (use i in blast)+
    have km: "keys_ok ?sid ?dbm" using keys_ok_kept [OF _ kept] i by blast
    have rows: "rows_of ?sid ?cid (db_chunks ?dbm) = [] \<longleftrightarrow> wk_inclusive (wy_w s)"
      using kept_rows [OF kept, of ?cid] i cur(1) flags(1) unfolding flags_ok_def by (metis map_is_Nil_conv)
    note fr = first_row_committed [OF nc(1) co(11), where now = "ce_now env"]
    have "objs_ok b opens H ?sid db' objs'"
      unfolding objs_ok_def co(1) srows_committed [OF nc(1)]
    proof (intro ballI impI)
      fix k assume "k \<in> set (srows ?sid ?dbm @ [stored_chunk (ce_now env) ?c])" "Live k"
      then consider (old) "k \<in> set (srows ?sid ?dbm)" "Live k" | (new) "k = stored_chunk (ce_now env) ?c" by auto
      then show "\<exists>ob. objs' (ck_TargetID k, ck_StorageKey k) = Some ob
          \<and> opens ob = Some (concat (row_docs b H ?sid (committed (ce_now env) ?c ?dbm) k))"
      proof cases
        case old
        have "k \<in> set (db_chunks ?dbm)" using old(1) by (simp add: srows_def)
        then have "(ck_TargetID k, ck_StorageKey k) \<noteq> ?K" using co(12) nc(5) by metis
        then have "objs' (ck_TargetID k, ck_StorageKey k) = wy_objs s (ck_TargetID k, ck_StorageKey k)" unfolding wo(3) by (rule fun_upd_other)
        moreover have "row_docs b H ?sid (committed (ce_now env) ?c ?dbm) k = row_docs b H ?sid ?dbm k" by (simp add: row_docs_def fr(1) [OF old(1)])
        ultimately show ?thesis using om old by (simp add: objs_ok_def)
      next
        case new
        have "objs' (ck_TargetID k, ck_StorageKey k) = Some (ce_seal env (sc_out sc))" using new wo(3) nc(5) by simp
        moreover have "opens (ce_seal env (sc_out sc)) = Some (sc_out sc)" using ports by (simp add: honest_ports_def)
        moreover have "sc_out sc = concat (filter (\<lambda>d. in_range rng (doc_ts b d)) H)"
          by (rule produced_range [OF wo(1) query H]) (use ports in \<open>simp add: honest_ports_def\<close>)
        moreover have "row_docs b H ?sid (committed (ce_now env) ?c ?dbm) k = filter (\<lambda>d. in_range rng (doc_ts b d)) H"
          using fr(2) new nc rows flags(2) by (simp add: row_docs_def in_range_def)
        ultimately show ?thesis by simp
      qed
    qed
    moreover have "keys_ok ?sid db'"
    proof -
      have "\<exists>st. ck_StorageKey (stored_chunk (ce_now env) ?c) = ChunkKey st (ck_ChainID (stored_chunk (ce_now env) ?c)) (ck_From (stored_chunk (ce_now env) ?c)) (ck_To (stored_chunk (ce_now env) ?c))"
        by (rule exI [of _ ?st]) (simp add: new_chunk_def)
      moreover have "schains ?sid db' = schains ?sid ?dbm" by (simp add: co(1) committed_def schains_def)
      ultimately show ?thesis using km by (simp add: keys_ok_def co(1) srows_committed [OF nc(1)])
    qed
    moreover have "flags_ok ?sid db' w'"
      unfolding flags_ok_def
    proof (intro impI allI)
      fix st' assume l: "LoadState ?sid db' = Ok st'"
      obtain rest where "scores ?sid ?dbm = sx_core cur # rest" using LoadState_scores [OF cur(1)] kept by (auto simp: kept_def)
      from scores_LoadState [OF this] obtain stm where stm: "LoadState ?sid ?dbm = Ok stm" "sx_ChainID stm = ?cid" by (auto simp: sx_core_def)
      have "find (\<lambda>r. sx_StreamID r = ?sid) (update_rows (\<lambda>r. sx_StreamID r = ?sid) (advance (ce_now env) ?c) xs)
          = map_option (advance (ce_now env) ?c) (find (\<lambda>r. sx_StreamID r = ?sid) xs)" for xs
        by (induction xs) (simp_all add: update_rows_def)
      then have "sx_ChainID st' = ?cid" using l stm nc(1) by (auto simp: LoadState_def co(1) committed_def split: option.splits)
      then have "rows_of ?sid (sx_ChainID st') (db_chunks db') \<noteq> []" using nc by (simp add: co(1) committed_def rows_of_snoc)
      then show "wk_inclusive w' \<longleftrightarrow> rows_of ?sid (sx_ChainID st') (db_chunks db') = []" using w'(3) Inr by simp
    qed
    ultimately show ?thesis using inv' w'(1) by (simp add: collect_inv_def)
  qed
qed

end
