(* ===== verification/Pitr_Collect_Ticks.thy ===== *)
theory Pitr_Collect_Ticks
  imports Pitr_Collect
begin

text \<open>
  The collector's ticks keep the invariant of \<open>Pitr_Collect\<close>: every path of a tick is a sequence of bookkeeping statements, chain
  starts and chunk writes. With restarts and the statements of other components between the ticks, the chunks of a chain
  therefore hold every entry of the replica set's history from the chain's start to the chain's last chunk.
\<close>

section \<open>The moves of a tick\<close>

text \<open>Bookkeeping: statements that keep the stream's rows, chain and position, with the objects and the two flags untouched.\<close>

definition light :: "wsys \<Rightarrow> wsys \<Rightarrow> bool" where
  "light s s' \<longleftrightarrow> (quiet_step (wy_sid s))\<^sup>*\<^sup>* (wy_db s) (wy_db s') \<and> kept (wy_sid s) (wy_db s) (wy_db s') \<and> wy_sid s' = wy_sid s
     \<and> wy_objs s' = wy_objs s \<and> wk_checked (wy_w s') = wk_checked (wy_w s) \<and> wk_inclusive (wy_w s') = wk_inclusive (wy_w s)"

text \<open>The stored position is still the one the tick began with.\<close>

definition at_state :: "State \<Rightarrow> wsys \<Rightarrow> bool" where
  "at_state st s \<longleftrightarrow> (\<exists>cur. LoadState (wy_sid s) (wy_db s) = Ok cur \<and> sx_core cur = sx_core st)"

definition moves :: "bson_codec \<Rightarrow> (byte list \<Rightarrow> byte list option) \<Rightarrow> byte list list \<Rightarrow> wsys \<Rightarrow> wsys \<Rightarrow> bool" where
  "moves b opens H s s' \<longleftrightarrow> wy_sid s' = wy_sid s \<and> (collect_inv b opens H s \<longrightarrow> collect_inv b opens H s')"

lemma light_refl [simp]: "light s s"
  by (simp add: light_def kept_same)

lemma light_trans: "light s1 s2 \<Longrightarrow> light s2 s3 \<Longrightarrow> light s1 s3"
  unfolding light_def using kept_trans by (metis rtranclp_trans)

lemma light_same:
  "wy_db s' = wy_db s \<Longrightarrow> wy_objs s' = wy_objs s \<Longrightarrow> wy_sid s' = wy_sid s \<Longrightarrow> wk_checked (wy_w s') = wk_checked (wy_w s) \<Longrightarrow>
   wk_inclusive (wy_w s') = wk_inclusive (wy_w s) \<Longrightarrow> light s s'"
  by (simp add: light_def kept_same)

lemma light_at: "light s s' \<Longrightarrow> at_state st s \<Longrightarrow> at_state st s'"
  unfolding at_state_def light_def kept_def using LoadState_scores scores_LoadState by metis

lemma moves_refl [simp]: "moves b opens H s s"
  by (simp add: moves_def)

lemma moves_trans: "moves b opens H s1 s2 \<Longrightarrow> moves b opens H s2 s3 \<Longrightarrow> moves b opens H s1 s3"
  by (simp add: moves_def)

lemma light_moves: "light s s' \<Longrightarrow> moves b opens H s s'"
  unfolding moves_def
proof (intro conjI impI)
  assume l: "light s s'" and i: "collect_inv b opens H s"
  have "collect_inv b opens H \<lparr>wy_w = wy_w s', wy_db = wy_db s', wy_objs = wy_objs s', wy_events = wy_events s'\<rparr>"
    by (rule collect_inv_quiet [OF i]) (use l in \<open>simp_all add: light_def\<close>)
  then show "collect_inv b opens H s'" by (cases s') simp
qed (simp add: light_def)

lemma light_step:
  assumes "quiet_step (wy_sid s) (wy_db s) db'" "kept (wy_sid s) (wy_db s) db'"
    and "wy_db s' = db'" "wy_objs s' = wy_objs s" "wy_sid s' = wy_sid s" "wk_checked (wy_w s') = wk_checked (wy_w s)" "wk_inclusive (wy_w s') = wk_inclusive (wy_w s)"
  shows "light s s'"
  using assms by (auto simp: light_def)

named_theorems lights

lemma light_publish [lights]: "light s (publish e s)"
  by (rule light_same) (simp_all add: publish_def)

lemma light_adopt [lights]: "light s (adoptReplicaSetID rid s)"
proof (cases "SetReplicaSetID (wy_sid s) rid (wy_db s)")
  case (Inl e)
  then show ?thesis by (intro light_same) (simp_all add: adoptReplicaSetID_def)
next
  case (Inr db')
  have k: "kept (wy_sid s) (wy_db s) db'" using Inr unfolding SetReplicaSetID_def by (rule kept_update_state) (simp add: sx_core_def)
  show ?thesis
  proof (cases "rid = []")
    case False
    show ?thesis by (rule light_step [OF q_rsid [OF Inr] k]) (use Inr False in \<open>simp_all add: adoptReplicaSetID_def\<close>)
  qed (simp add: adoptReplicaSetID_def)
qed

lemma kept_status: "SetCollectorStatus i status err lag at db = Ok db' \<Longrightarrow> kept sid db db'"
  unfolding SetCollectorStatus_def by (erule kept_update_state) (simp add: sx_core_def)

lemma light_status [lights]:
  "light s (case SetCollectorStatus (wy_sid s) status err lag at (wy_db s) of Inr db' \<Rightarrow> s\<lparr>wy_db := db'\<rparr> | Inl _ \<Rightarrow> s)"
  by (cases "SetCollectorStatus (wy_sid s) status err lag at (wy_db s)") (auto intro: light_step [OF q_status kept_status])

lemma light_setLagSince [lights]: "light s (setLagSince env st s)"
  by (simp add: setLagSince_def Let_def light_status)

lemma light_setWindowLow [lights]: "light s (setWindowLow since s)"
proof (cases "SetWindowLow (wy_sid s) since (wy_db s)")
  case (Inr db')
  have k: "kept (wy_sid s) (wy_db s) db'" using Inr unfolding SetWindowLow_def by (rule kept_update_state) (simp add: sx_core_def)
  show ?thesis by (rule light_step [OF q_window_low [OF Inr] k]) (use Inr in \<open>simp_all add: setWindowLow_def\<close>)
qed (simp add: setWindowLow_def)

lemma light_w: "st_ID (wk_stream (f (wy_w s))) = wy_sid s \<Longrightarrow> wk_checked (f (wy_w s)) = wk_checked (wy_w s) \<Longrightarrow> wk_inclusive (f (wy_w s)) = wk_inclusive (wy_w s)
   \<Longrightarrow> light s (upd_w f s)"
  by (rule light_same) simp_all

lemma light_if: "(c \<Longrightarrow> light s x) \<Longrightarrow> (\<not> c \<Longrightarrow> light s y) \<Longrightarrow> light s (if c then x else y)"
  by simp

lemma light_lag: "light s s1 \<Longrightarrow> light s (publish e (setLagSince env st (upd_w (\<lambda>w. w\<lparr>wk_lagSince := x\<rparr>) s1)))"
  by (rule light_trans [OF _ light_publish], rule light_trans [OF _ light_setLagSince], erule light_trans, rule light_w) simp_all

lemma light_low: "light s s1 \<Longrightarrow> light s (setWindowLow since (upd_w (\<lambda>w. w\<lparr>wk_windowLow := x\<rparr>) s1))"
  by (rule light_trans [OF _ light_setWindowLow], erule light_trans, rule light_w) simp_all

lemma light_observeLag [lights]: "light s (observeLag env st win now s)"
  unfolding observeLag_def Let_def
  by (intro light_if light_trans [OF light_low light_publish] light_low light_lag light_w) simp_all

lemma light_baseAfterBreak [lights]: "light s (baseAfterBreak env s)"
  by (simp add: baseAfterBreak_def light_publish)

lemma light_broken_event [lights]: "light s (broken_event env reason s)"
  unfolding broken_event_def Let_def by (intro light_if light_trans [OF light_w light_publish]) simp_all

lemma kept_end: "EndChain i cid e reason at db = Ok db' \<Longrightarrow> kept sid db db'"
proof -
  assume end': "EndChain i cid e reason at db = Ok db'"
  have "map (\<lambda>c. (cn_ChainID c, cn_Start c)) (filter (\<lambda>c. cn_StreamID c = sid) (update_rows P (\<lambda>c. c\<lparr>cn_End := e, cn_EndReason := reason, cn_EndedAt := t\<rparr>) cs))
      = map (\<lambda>c. (cn_ChainID c, cn_Start c)) (filter (\<lambda>c. cn_StreamID c = sid) cs)" for P cs t
    by (induction cs) (simp_all add: update_rows_def)
  with end' show ?thesis by (auto simp: EndChain_def kept_def srows_def scores_def schains_def list_all2_same split: if_splits option.splits)
qed

lemma light_end_chain [lights]: "light s (snd (end_chain st e reason at s))"
  by (auto simp: end_chain_def intro: light_step [OF q_end kept_end] split: sum.splits)

lemma light_follow_rs [lights]: "light s (snd (follow_rs env win reason s))"
proof (cases "UpdateStream (tk_now env 3) ((wk_stream (wy_w s))\<lparr>st_ReplicaSet := ow_ReplicaSet win\<rparr>) (wy_db s)")
  case (Inr x)
  obtain db' st' where x: "x = (db', st')" by (cases x)
  have k: "kept (wy_sid s) (wy_db s) db'"
    using Inr x by (auto simp: UpdateStream_def split: if_splits option.splits intro!: kept_same)
  have "light s (s\<lparr>wy_db := db', wy_w := w\<rparr>)" if "st_ID (wk_stream w) = wy_sid s" "wk_checked w = wk_checked (wy_w s)" "wk_inclusive w = wk_inclusive (wy_w s)" for w
    by (rule light_step [OF q_update [OF Inr [unfolded x]] k]) (use that in simp_all)
  then show ?thesis using Inr x by (simp add: follow_rs_def Let_def)
qed (simp add: follow_rs_def Let_def)

lemma light_supersede [lights]: "light s (s\<lparr>wy_db := fst (SupersedeChunks (wy_sid s) cid point (wy_db s))\<rparr>)"
proof -
  obtain db' n where sp: "SupersedeChunks (wy_sid s) cid point (wy_db s) = (db', n)" by fastforce
  then have "kept (wy_sid s) (wy_db s) db'"
    using kept_update_chunks [of "superseding (wy_sid s) cid point" "\<lambda>c. c\<lparr>ck_Status := ChunkSuperseded\<rparr>" "wy_sid s" "wy_db s"]
    by (auto simp: SupersedeChunks_def row_mono_def ck_core_def Live_def)
  then show ?thesis by (rule light_step [OF q_supersede [OF sp]]) (use sp in simp_all)
qed

lemma moves_startChain:
  assumes "CHR ''/'' \<notin> set (tk_chainID env)"
  shows "moves b opens H s (snd (startChain env start s))"
proof (cases "StartChain (wy_sid s) (tk_chainID env) start (tk_now env 2) (wy_db s)")
  case (Inr db')
  have "collect_inv b opens H \<lparr>wy_w = (wy_w s)\<lparr>wk_inclusive := True, wk_checked := True, wk_emptyAt := ts_zero\<rparr>, wy_db = db', wy_objs = wy_objs s, wy_events = wy_events s\<rparr>"
    if "collect_inv b opens H s" by (rule collect_inv_start [OF that Inr assms]) simp_all
  then show ?thesis using Inr by (cases s) (simp add: moves_def startChain_def)
qed (simp add: startChain_def)

lemma moves_startAtOldest:
  "CHR ''/'' \<notin> set (tk_chainID env) \<Longrightarrow> moves b opens H s (snd (startAtOldest env m at win s))"
  by (simp add: startAtOldest_def moves_startChain split: option.split)

lemma moves_light: "moves b opens H s s1 \<Longrightarrow> light s1 s2 \<Longrightarrow> moves b opens H s s2"
  using moves_trans light_moves by blast

lemma light_then: "light s s1 \<Longrightarrow> moves b opens H s1 s2 \<Longrightarrow> moves b opens H s s2"
  using moves_trans light_moves by blast

lemma moves_resumeEnded:
  assumes "CHR ''/'' \<notin> set (tk_chainID env)"
  shows "moves b opens H s (snd (resumeEnded env m c win s))"
proof -
  let ?r = "if cn_EndReason c = EndStopped then startChain env (ow_MajorityOpTime win) s
                 else if cn_EndReason c = EndDiverged
                 then (case mb_entryAt m (20, 0) (cn_End c) of
                         None \<Rightarrow> (Err WkEntry, s)
                       | Some (Some term) \<Rightarrow> startChain env \<lparr>ot_TS = cn_End c, ot_Term = term\<rparr> s
                       | Some None \<Rightarrow> startAtOldest env m (21, 0) win s)
                 else startAtOldest env m (21, 0) win s"
  have r: "moves b opens H s (snd ?r)" using moves_startChain [OF assms] moves_startAtOldest [OF assms] by (auto split: option.splits)
  obtain x s1 where x: "?r = (x, s1)" by fastforce
  let ?s2 = "if wk_rsID (wy_w s1) = [] then adoptReplicaSetID (ow_ReplicaSetID win) s1 else s1"
  have m1: "moves b opens H s s1" using r unfolding x by simp
  have m2: "moves b opens H s ?s2" by (rule moves_light [OF m1]) (simp add: lights)
  have m3: "moves b opens H s (if cn_EndReason c \<noteq> EndStopped then baseAfterBreak env ?s2 else ?s2)" by (rule moves_light [OF m2]) (simp add: lights)
  have "snd (resumeEnded env m c win s) \<in> {s, s1, if cn_EndReason c \<noteq> EndStopped then baseAfterBreak env ?s2 else ?s2}"
    unfolding resumeEnded_def x Let_def by (simp split: sum.split)
  then show ?thesis using m1 m3 by auto
qed

lemma moves_breakChain:
  assumes "CHR ''/'' \<notin> set (tk_chainID env)"
  shows "moves b opens H s (snd (breakChain env at st win reason s))"
proof -
  obtain x s1 where x: "end_chain st (ot_TS (sx_Last st)) reason (tk_now env 1) s = (x, s1)" by fastforce
  then have l1: "light s s1" using light_end_chain by (metis snd_conv)
  obtain y s2 where y: "follow_rs env win reason s1 = (y, s2)" by fastforce
  then have l2: "light s s2" using light_follow_rs light_trans [OF l1] by (metis snd_conv)
  obtain z s3 where z: "startAtOldest env (tk_primary env) at win (broken_event env reason s2) = (z, s3)" by fastforce
  then have m: "moves b opens H s s3"
    using light_then [OF light_trans [OF l2 light_broken_event] moves_startAtOldest [OF assms]] by (metis snd_conv)
  then have "moves b opens H s (baseAfterBreak env (adoptReplicaSetID (ow_ReplicaSetID win) s3))"
    by (rule moves_light [OF moves_light [OF _ light_adopt] light_baseAfterBreak])
  moreover have "snd (breakChain env at st win reason s) \<in> {s1, s2, s3, baseAfterBreak env (adoptReplicaSetID (ow_ReplicaSetID win) s3)}"
    unfolding breakChain_def x prod.case y z by (simp split: sum.split)
  ultimately show ?thesis using light_moves [OF l1] light_moves [OF l2] m by auto
qed

lemma moves_diverge:
  assumes "CHR ''/'' \<notin> set (tk_chainID env)"
  shows "moves b opens H s (snd (diverge env site st win s))"
proof (cases "divergencePoint env site st win s")
  case (Inr point)
  let ?s1 = "s\<lparr>wy_db := fst (SupersedeChunks (wy_sid s) (sx_ChainID st) point (wy_db s))\<rparr>"
  obtain x s2 where x: "end_chain st point EndDiverged (tk_now env 1) ?s1 = (x, s2)" by fastforce
  then have l2: "light s s2" using light_end_chain light_trans [OF light_supersede] by (metis snd_conv)
  let ?s3 = "adoptReplicaSetID (ow_ReplicaSetID win) (publish PITRDiverged s2)"
  have l3: "light s ?s3" using l2 light_publish light_adopt light_trans by blast
  let ?r = "case mb_entryAt (tk_primary env) (site + 1, 0) point of
                              None \<Rightarrow> (Err WkEntry, ?s3)
                            | Some (Some term) \<Rightarrow> startChain env \<lparr>ot_TS = point, ot_Term = term\<rparr> ?s3
                            | Some None \<Rightarrow> startAtOldest env (tk_primary env) (site + 2, 0) win ?s3"
  have "moves b opens H ?s3 (snd ?r)" using moves_startChain [OF assms] moves_startAtOldest [OF assms] by (auto split: option.splits)
  then have r: "moves b opens H s (snd ?r)" using light_then l3 by blast
  obtain y s4 where y: "?r = (y, s4)" by fastforce
  have "moves b opens H s s4" "moves b opens H s (baseAfterBreak env s4)" using r moves_light [OF _ light_baseAfterBreak] unfolding y by auto
  moreover have "snd (diverge env site st win s) \<in> {s2, s4, baseAfterBreak env s4}"
    unfolding diverge_def Let_def Inr sum.case x prod.case y by (simp split: sum.split)
  ultimately show ?thesis using light_moves [OF l2] by auto
qed (simp add: diverge_def)

lemma afterBreak_frame: "afterBreak w = (d, w1) \<Longrightarrow> wk_stream w1 = wk_stream w \<and> wk_checked w1 = wk_checked w \<and> wk_inclusive w1 = wk_inclusive w"
  by (auto simp: afterBreak_def Let_def)

lemma adjustInterval_frame [simp]:
  "wk_stream (adjustInterval l raw w) = wk_stream w" "wk_checked (adjustInterval l raw w) = wk_checked w" "wk_inclusive (adjustInterval l raw w) = wk_inclusive w"
  by (simp_all add: adjustInterval_def)

text \<open>The primary either ends the chain or confirms that nothing changed, with its own window.\<close>

lemma confirm_cases:
  assumes "confirm env k st s = (r, s')" "CHR ''/'' \<notin> set (tk_chainID env)"
  shows "moves b opens H s s' \<and> (\<forall>win. r = Ok (win, None) \<longrightarrow> s' = s \<and> mb_window (tk_primary env) (k, 0) = Some win)"
proof (cases "mb_window (tk_primary env) (k, 0)")
  case None
  then show ?thesis using assms(1) by (auto simp: confirm_def split: prod.splits)
next
  case (Some win)
  obtain d w1 where ab: "afterBreak (wy_w s) = (d, w1)" by fastforce
  have l: "light s (s\<lparr>wy_w := w1\<rparr>)" using afterBreak_frame [OF ab] by (intro light_same) simp_all
  have br: "moves b opens H s (snd (breakChain env at st win reason (s\<lparr>wy_w := w1\<rparr>)))" for at reason
    by (rule light_then [OF l moves_breakChain [OF assms(2)]])
  have dv: "moves b opens H s (snd (diverge env site st win (s\<lparr>wy_w := w1\<rparr>)))" for site
    by (rule light_then [OF l moves_diverge [OF assms(2)]])
  define ok where "ok x \<longleftrightarrow> moves b opens H s (snd x) \<and> (\<forall>w. fst x = Ok (w, None) \<longrightarrow> snd x = s \<and> w = win)"
    for x :: "(worker_error + OplogWindow \<times> duration option) \<times> wsys"
  define ended where "ended x = (case x of (Inl e, s2) \<Rightarrow> (Err e, s2) | (Inr (_ :: unit), s2) \<Rightarrow> (Ok (win, Some d), s2))"
    for x :: "(worker_error + unit) \<times> wsys"
  have en: "ok (ended x)" if "moves b opens H s (snd x)" for x
    using that by (cases x) (auto simp: ok_def ended_def split: sum.splits)
  have "ok (Err WkEntry, s)" "ok (Ok (win, None), s)" by (simp_all add: ok_def)
  then have "ok (confirm env k st s)"
    unfolding confirm_def Let_def Some ab prod.case option.case ended_def [symmetric]
    using en [OF br] en [OF dv] by (simp split: option.split)
  then show ?thesis unfolding assms(1) ok_def using Some by simp
qed

lemma last_chunks_set:
  assumes "last_chunks st s = Ok chunks" "sx_core st = sx_core cur"
  shows "set chunks = {k \<in> set (rows_of (wy_sid s) (sx_ChainID cur) (db_chunks (wy_db s))).
     ts_IsZero (prev_ts (ot_TS (sx_Last cur))) \<or> ck_To k > prev_ts (ot_TS (sx_Last cur))}"
proof -
  have st: "sx_ChainID st = sx_ChainID cur" "sx_Last st = sx_Last cur" using assms(2) by (simp_all add: sx_core_def)
  then show ?thesis using assms(1) by (auto simp: last_chunks_def ListChunks_def chunk_selected_def rows_of_def ts_IsZero_def split: if_splits)
qed

lemma no_empty_chunk:
  assumes "emptyChunkExists st s = Ok False" "sx_core st = sx_core cur" "k \<in> set (rows_of (wy_sid s) (sx_ChainID cur) (db_chunks (wy_db s)))"
  shows "\<not> (ck_From k = ot_TS (sx_Last cur) \<and> ck_To k = ot_TS (sx_Last cur))"
proof
  assume k: "ck_From k = ot_TS (sx_Last cur) \<and> ck_To k = ot_TS (sx_Last cur)"
  obtain chunks where c: "last_chunks st s = Ok chunks" using assms(1) by (auto simp: emptyChunkExists_def split: sum.splits)
  have "k \<in> set chunks" unfolding last_chunks_set [OF c assms(2)] using k assms(3) prev_ts_less by auto
  then show False using assms(1,2) c k by (auto simp: emptyChunkExists_def sx_core_def)
qed

text \<open>What a tick's answers are: the members' oplogs are the replica set's, and a chain ID has no slash.\<close>

definition honest_member :: "bson_codec \<Rightarrow> byte list list \<Rightarrow> member \<Rightarrow> bool" where
  "honest_member b H m \<longleftrightarrow> (\<forall>at win. mb_window m at = Some win \<longrightarrow> honest_query b H (ot_TS (ow_MajorityOpTime win)) (mb_query m))"

definition honest_tick :: "bson_codec \<Rightarrow> (byte list \<Rightarrow> byte list option) \<Rightarrow> byte list list \<Rightarrow> string \<Rightarrow> tick_env \<Rightarrow> bool" where
  "honest_tick b opens H sid env \<longleftrightarrow> honest_ports b opens sid (tk_chunk env) \<and> CHR ''/'' \<notin> set (tk_chainID env)
     \<and> (\<forall>notBefore m. tk_pin env notBefore = Some m \<longrightarrow> honest_member b H m) \<and> honest_member b H (tk_primary env)"

lemma moves_store_chunk:
  assumes env: "honest_tick b opens H (wy_sid s) env" and query: "honest_query b H maj (mb_query m)" "to \<le> maj" and H: "\<forall>d \<in> set H. framed b d"
    and st: "at_state st s" "wk_checked (wy_w s)"
    and empty: "to = ot_TS (sx_Last st) \<Longrightarrow> \<not> wk_inclusive (wy_w s) \<Longrightarrow> emptyChunkExists st s = Ok False"
  shows "moves b opens H s (snd (store_chunk env m st to catchUp s))"
proof -
  note e = env [unfolded honest_tick_def]
  from st(1) obtain cur where cur: "LoadState (wy_sid s) (wy_db s) = Ok cur" "sx_core cur = sx_core st" by (auto simp: at_state_def)
  then have c: "sx_ChainID st = sx_ChainID cur" "sx_Last st = sx_Last cur" by (simp_all add: sx_core_def)
  let ?rng = "\<lparr>or_From = ot_TS (sx_Last st), or_To = to, or_CheckTerm = True, or_FromTerm = ot_Term (sx_Last st), or_StartInclusive = wk_inclusive (wy_w s)\<rparr>"
  obtain r db' objs' where wr: "writeChunk (tk_chunk env) (mb_query m) (wk_stream (wy_w s)) (sx_ChainID st) ?rng (ot_Term (sx_Last st)) (wy_db s) (wy_objs s) = (r, db', objs')"
    by (metis prod_cases3)
  have mv: "moves b opens H s (s\<lparr>wy_db := db', wy_objs := objs', wy_w := w'\<rparr>)"
    if w': "st_ID (wk_stream w') = wy_sid s" "wk_checked w'" "wk_inclusive w' = (case r of Inl _ \<Rightarrow> wk_inclusive (wy_w s) | Inr _ \<Rightarrow> False)" for w'
  proof -
    have "collect_inv b opens H \<lparr>wy_w = w', wy_db = db', wy_objs = objs', wy_events = wy_events s\<rparr>" if inv: "collect_inv b opens H s"
    proof (rule collect_inv_wrote [OF inv _ query(1) _ H cur(1) _ st(2) _ _ wr [unfolded c(1)] w'])
      assume "or_To ?rng = or_From ?rng" "\<not> wk_inclusive (wy_w s)"
      then have "emptyChunkExists st s = Ok False" using empty by simp
      from no_empty_chunk [OF this cur(2) [symmetric]]
      show "\<not> (\<exists>k \<in> set (rows_of (wy_sid s) (sx_ChainID cur) (db_chunks (wy_db s))). ck_From k = or_From ?rng \<and> ck_To k = or_From ?rng)"
        using c(2) by auto
    qed (use e query(2) c in simp_all)
    then show ?thesis using w'(1) by (cases s) (simp add: moves_def)
  qed
  let ?s1 = "s\<lparr>wy_db := db', wy_objs := objs'\<rparr>"
  show ?thesis
  proof (cases r)
    case (Inl er)
    have m1: "moves b opens H s ?s1" using mv [of "wy_w s"] st(2) Inl by simp
    have mb: "moves b opens H s (upd_w (\<lambda>w. w\<lparr>wk_behind := n w\<rparr>) ?s1)" for n
      by (rule moves_light [OF m1 light_w]) simp_all
    obtain x s2 where x: "confirm env 90 st ?s1 = (x, s2)" by fastforce
    have m2: "moves b opens H s s2" using confirm_cases [OF x] e moves_trans [OF m1] by blast
    have "snd (store_chunk env m st to catchUp s) \<in> {?s1, s2} \<union> range (\<lambda>n. upd_w (\<lambda>w. w\<lparr>wk_behind := n w\<rparr>) ?s1)"
      unfolding store_chunk_def Let_def wr prod.case Inl sum.case x by (auto split: sum.splits option.splits)
    then show ?thesis using m1 m2 mb by auto
  next
    case (Inr y)
    obtain chunk raw where y: "y = (chunk, raw)" by (cases y)
    let ?w2 = "adjustInterval (tk_maxBytes env) raw ((wy_w s)\<lparr>wk_behind := 0, wk_inclusive := False, wk_emptyAt := (if ck_Entries chunk = 0 then ck_To chunk else wk_emptyAt (wy_w s))\<rparr>)"
    have m2: "moves b opens H s (?s1\<lparr>wy_w := ?w2\<rparr>)" "moves b opens H s (?s1\<lparr>wy_w := ?w2\<lparr>wk_gapBackoff := 0\<rparr>\<rparr>)"
      by (rule mv; use st(2) Inr in simp)+
    have "snd (store_chunk env m st to catchUp s) \<in> {?s1\<lparr>wy_w := ?w2\<rparr>, ?s1\<lparr>wy_w := ?w2\<lparr>wk_gapBackoff := 0\<rparr>\<rparr>}"
      unfolding store_chunk_def Let_def wr prod.case Inr sum.case y by simp
    then show ?thesis using m2 by auto
  qed
qed

section \<open>Whole ticks\<close>

lemma chunk_end_le: "chunk_end m a b i = Ok (to, c) \<Longrightarrow> a \<le> b \<Longrightarrow> a \<le> to \<and> to \<le> b"
  by (auto simp: chunk_end_def split: if_splits option.splits)

lemma moves_collect:
  assumes env: "honest_tick b opens H (wy_sid s) env" and query: "honest_query b H (ot_TS (ow_MajorityOpTime win)) (mb_query m)"
    and H: "\<forall>d \<in> set H. framed b d" and st: "at_state st s" "wk_checked (wy_w s)"
  shows "moves b opens H s (snd (collect env m st win s))"
proof -
  let ?s1 = "observeLag env st win (tk_now env 0) s" and ?a = "ot_TS (sx_Last st)" and ?b = "ot_TS (ow_MajorityOpTime win)"
  have l1: "light s ?s1" by (rule light_observeLag)
  show ?thesis
  proof (cases "chunk_end m ?a ?b (wk_interval (wy_w ?s1))")
    case (Inl e)
    then show ?thesis using light_moves [OF l1] by (simp add: collect_def Let_def)
  next
    case (Inr x)
    obtain to c where x: "x = (to, c)" by (cases x)
    let ?s2 = "upd_w (\<lambda>w. w\<lparr>wk_live := (wk_live w)\<lparr>lv_CatchingUp := c\<rparr>\<rparr>) ?s1"
    have l2: "light s ?s2" by (rule light_trans [OF l1 light_w]) simp_all
    have m3: "moves b opens H s (upd_w (\<lambda>w. w\<lparr>wk_emptyAt := ?a\<rparr>) ?s2)" by (rule light_moves [OF light_trans [OF l2 light_w]]) simp_all
    have sid: "wy_sid ?s2 = wy_sid s" and ck: "wk_checked (wy_w ?s2)" using l2 st(2) by (simp_all add: light_def)
    have m4: "moves b opens H s (snd (store_chunk env m st to c ?s2))"
      if "?a \<le> ?b" "to = ?a \<Longrightarrow> \<not> wk_inclusive (wy_w ?s2) \<Longrightarrow> emptyChunkExists st ?s2 = Ok False"
      by (rule light_then [OF l2 moves_store_chunk [OF env [folded sid] query _ H light_at [OF l2 st(1)] ck that(2)]])
        (use chunk_end_le [OF Inr [unfolded x]] that in auto)
    show ?thesis
    proof (cases "Compare ?b ?a < 0")
      case True
      then show ?thesis using light_moves [OF l1] by (simp add: collect_def Let_def)
    next
      case False
      then have le: "?a \<le> ?b" by simp
      show ?thesis
      proof (cases "to = ?a \<and> \<not> wk_inclusive (wy_w ?s2)")
        case True
        have "snd (collect env m st win s) \<in> {?s2, upd_w (\<lambda>w. w\<lparr>wk_emptyAt := ?a\<rparr>) ?s2}
            \<or> emptyChunkExists st ?s2 = Ok False \<and> snd (collect env m st win s) = snd (store_chunk env m st to c ?s2)"
          unfolding collect_def Let_def Inr sum.case x prod.case if_P [OF True] if_not_P [OF False] by (simp split: sum.split bool.split)
        then show ?thesis using light_moves [OF l2] m3 m4 [OF le] by auto
      next
        case False': False
        have "snd (collect env m st win s) = snd (store_chunk env m st to c ?s2)"
          unfolding collect_def Let_def Inr sum.case x prod.case if_not_P [OF False'] if_not_P [OF False] ..
        then show ?thesis using m4 [OF le] False' by auto
      qed
    qed
  qed
qed

lemma startChecked_collect:
  assumes env: "honest_tick b opens H (wy_sid s) env" and query: "honest_query b H (ot_TS (ow_MajorityOpTime win)) (mb_query m)"
    and H: "\<forall>d \<in> set H. framed b d" and st: "at_state st s"
  shows "moves b opens H s (snd (case startChecked st s of (Inl e, s2) \<Rightarrow> (Err e, s2) | (Inr _, s2) \<Rightarrow> collect env m st win s2))"
proof (cases "last_chunks st s")
  case (Inr chunks)
  let ?s2 = "upd_w (\<lambda>w. w\<lparr>wk_inclusive := chunks = [] \<and> chainStartsAt st s, wk_checked := True\<rparr>) s"
  from st obtain cur where cur: "LoadState (wy_sid s) (wy_db s) = Ok cur" "sx_core st = sx_core cur" by (auto simp: at_state_def)
  have "collect_inv b opens H ?s2" if "collect_inv b opens H s"
    by (rule collect_inv_checked [OF that cur Inr]) simp_all
  then have "moves b opens H s ?s2" by (simp add: moves_def)
  moreover have "moves b opens H ?s2 (snd (collect env m st win ?s2))"
    by (rule moves_collect [OF _ query H]) (use env st in \<open>simp_all add: at_state_def\<close>)
  ultimately show ?thesis using Inr moves_trans by (simp add: startChecked_def)
qed (simp add: startChecked_def)

lemma honest_primary: "honest_tick b opens H sid env \<Longrightarrow> mb_window (tk_primary env) at = Some win \<Longrightarrow>
   honest_query b H (ot_TS (ow_MajorityOpTime win)) (mb_query (tk_primary env))"
  unfolding honest_tick_def honest_member_def by blast

lemma moves_check_position:
  assumes env: "honest_tick b opens H (wy_sid s) env" and query: "honest_query b H (ot_TS (ow_MajorityOpTime win)) (mb_query m)"
    and H: "\<forall>d \<in> set H. framed b d" and st: "at_state st s"
  shows "moves b opens H s (snd (check_position env m st win s))"
proof -
  define s0 where "s0 = (if wk_rsID (wy_w s) = [] then adoptReplicaSetID (ow_ReplicaSetID win) s else s)"
  have l: "light s s0" by (simp add: s0_def lights)
  have e: "honest_tick b opens H (wy_sid s0) env" and st': "at_state st s0" using l env light_at [OF l st] by (simp_all add: light_def)
  define checked where "checked m' win' s1 = (case startChecked st s1 of (Inl e, s2) \<Rightarrow> (Err e, s2) | (Inr _, s2) \<Rightarrow> collect env m' st win' s2)"
    for m' win' s1
  have ck: "moves b opens H s0 (snd (checked m' win' s0))" if "honest_query b H (ot_TS (ow_MajorityOpTime win')) (mb_query m')" for m' win'
    unfolding checked_def by (rule startChecked_collect [OF e that H st'])
  obtain r s1 where r: "confirm env 60 st s0 = (r, s1)" by fastforce
  have "CHR ''/'' \<notin> set (tk_chainID env)" using env by (simp add: honest_tick_def)
  note c = confirm_cases [OF r this, of b opens H]
  have "moves b opens H s0 (snd (case r of Inl e \<Rightarrow> (Err e, s1) | Inr (_, Some delay) \<Rightarrow> (Ok delay, s1)
      | Inr (win', None) \<Rightarrow> checked (tk_primary env) win' s1))"
    using c ck honest_primary [OF env] by (auto split: sum.split option.split)
  moreover have "moves b opens H s0 (snd (collect env m st win s0))" if "wk_checked (wy_w s0)" by (rule moves_collect [OF e query H st' that])
  ultimately have "moves b opens H s0 (snd (check_position env m st win s))"
    unfolding check_position_def Let_def checked_def [symmetric] s0_def [symmetric] r prod.case using ck [OF query] by (simp split: option.split)
  then show ?thesis by (rule light_then [OF l])
qed

lemma moves_known_position:
  assumes env: "honest_tick b opens H (wy_sid s) env" and query: "honest_query b H (ot_TS (ow_MajorityOpTime win)) (mb_query m)"
    and H: "\<forall>d \<in> set H. framed b d" and st: "at_state st s"
  shows "moves b opens H s (snd (known_position env m st win s))"
proof -
  obtain r s1 where r: "confirm env 30 st s = (r, s1)" by fastforce
  have "CHR ''/'' \<notin> set (tk_chainID env)" using env by (simp add: honest_tick_def)
  note c = confirm_cases [OF r this, of b opens H]
  have p: "moves b opens H s (snd (check_position env (tk_primary env) st win' s))" if "mb_window (tk_primary env) (30, 0) = Some win'" for win'
    by (rule moves_check_position [OF env honest_primary [OF env that] H st])
  have "moves b opens H s (snd (case r of Inl e \<Rightarrow> (Err e, s1) | Inr (_, Some delay) \<Rightarrow> (Ok delay, s1)
      | Inr (win', None) \<Rightarrow> check_position env (tk_primary env) st win' s1))"
    using c p by (auto split: sum.split option.split)
  then show ?thesis unfolding known_position_def r prod.case using moves_check_position [OF env query H st] by simp
qed

lemma moves_step:
  assumes env: "honest_tick b opens H (wy_sid s) env" and H: "\<forall>d \<in> set H. framed b d"
  shows "moves b opens H s (snd (step env s))"
proof -
  define s1 where "s1 = upd_w (\<lambda>w. w\<lparr>wk_session := True\<rparr>) s"
  define live where "live win = upd_w (\<lambda>w. w\<lparr>wk_live := (wk_live w)\<lparr>lv_LastTick := tk_now env 0, lv_Oldest := ow_Oldest win, lv_Newest := ow_Newest win,
                              lv_Interval := wk_interval w\<rparr>\<rparr>) s1" for win :: OplogWindow
  have slash: "CHR ''/'' \<notin> set (tk_chainID env)" using env by (simp add: honest_tick_def)
  have l1: "light s s1" unfolding s1_def by (rule light_w) simp_all
  have l2: "light s (live win)" for win unfolding live_def by (rule light_trans [OF l1 light_w]) simp_all
  have l3: "light s (upd_w (restore_alerts st) (live win))" for st win by (rule light_trans [OF l2 light_w]) (simp_all add: restore_alerts_def)
  have l4: "light s (upd_w (\<lambda>w. restore_alerts st (w\<lparr>wk_failing := wk_failing w \<or> x\<rparr>)) (live win))" for x st win
    by (rule light_trans [OF l2 light_w]) (simp_all add: restore_alerts_def)
  have m3: "moves b opens H s (snd (startChain env start (live win)))" for start win by (rule light_then [OF l2 moves_startChain [OF slash]])
  have m5: "moves b opens H s (snd (resumeEnded env m c win (upd_w (restore_alerts st) (live win))))" for st win m c
    by (rule light_then [OF l3 moves_resumeEnded [OF slash]])
  have kp: "moves b opens H s (snd (known_position env m st win s2))"
    if "light s s2" "tk_pin env nb = Some m" "mb_window m (0, 0) = Some win" "LoadState (wy_sid s) (wy_db s) = Ok st" for s2 st m win nb
  proof (rule light_then [OF that(1) moves_known_position [OF _ _ H]])
    show "honest_tick b opens H (wy_sid s2) env" using env that(1) by (simp add: light_def)
    show "honest_query b H (ot_TS (ow_MajorityOpTime win)) (mb_query m)" using env that(2,3) by (simp add: honest_tick_def honest_member_def)
    show "at_state st s2" by (rule light_at [OF that(1)]) (simp add: at_state_def that(4))
  qed
  have s1: "wy_sid s1 = wy_sid s" "wy_db s1 = wy_db s" by (simp_all add: s1_def)
  have m1: "moves b opens H s s1" and m2: "moves b opens H s (live win)" for win by (rule light_moves [OF l1] light_moves [OF l2])+
  show ?thesis
  proof (cases "LoadState (wy_sid s) (wy_db s)")
    case (Inl e)
    have "moves b opens H s (snd (case x of (Inl e, s2) \<Rightarrow> (Err e, s2) | (Inr _, s2) \<Rightarrow> (Ok (0 :: int), adoptReplicaSetID rid s2)))"
      if "moves b opens H s (snd x)" for x :: "(worker_error + unit) \<times> wsys" and rid
      using that moves_light [OF that light_adopt] by (cases x) (simp split: sum.split)
    note m4 = this [OF m3]
    show ?thesis
      unfolding step_def Let_def s1_def [symmetric] live_def [symmetric] s1 Inl sum.case using m1 m2 m4 by (simp split: option.split)
  next
    case (Inr st)
    show ?thesis
      unfolding step_def Let_def s1_def [symmetric] live_def [symmetric] s1 Inr sum.case
      using m1 m5 kp [OF l2 _ _ Inr] kp [OF l4 _ _ Inr] by (simp split: option.split)
  qed
qed

lemma moves_tick:
  assumes "honest_tick b opens H (wy_sid s) env" "\<forall>d \<in> set H. framed b d"
  shows "moves b opens H s (snd (tick env s))"
proof -
  obtain r s1 where r: "step env s = (r, s1)" by fastforce
  have m: "moves b opens H s s1" using moves_step [OF assms] r by (metis snd_conv)
  have f: "light s1 (fail_tick env e s1)" for e
    unfolding fail_tick_def Let_def by (intro light_if light_status light_trans [OF light_trans [OF light_status light_w] light_publish]) simp_all
  have "light s1 (recover_tick env s1)"
  proof -
    let ?s2 = "upd_w (\<lambda>w. w\<lparr>wk_failing := False\<rparr>) s1"
    have "light ?s2 (publish PITRCollectorRecovered (case SetCollectorStatus (wy_sid ?s2) CollectorRunning [] (wk_lagSince (wy_w s1)) (tk_now env 6) (wy_db ?s2) of
        Inr db' \<Rightarrow> ?s2\<lparr>wy_db := db'\<rparr> | Inl _ \<Rightarrow> ?s2))" by (rule light_trans [OF light_status light_publish])
    moreover have "light s1 ?s2" by (rule light_w) simp_all
    ultimately show ?thesis unfolding recover_tick_def Let_def using light_trans by fastforce
  qed
  then show ?thesis unfolding tick_def r prod.case Let_def using m moves_light [OF m f] moves_light [OF m] by (simp split: sum.split)
qed

end
