(* ===== verification/Pitr_Collect_Props.thy ===== *)
theory Pitr_Collect_Props
  imports Pitr_Collect_Ticks
begin

text \<open>
  What the collector promises, over every interleaving of its ticks with restarts and with the statements of other components:
  the chunks of a chain hold every entry of the replica set's history from the chain's start to the end of its last chunk,
  once each and in order.
\<close>

section \<open>Interleavings\<close>

text \<open>What happens to a collector and its data: a tick, a restart with the same stream, and a statement of another component
  that leaves the objects of live chunks alone.\<close>

inductive collecting :: "bson_codec \<Rightarrow> (byte list \<Rightarrow> byte list option) \<Rightarrow> byte list list \<Rightarrow> wsys \<Rightarrow> wsys \<Rightarrow> bool" for b opens H where
  co_tick: "honest_tick b opens H (wy_sid s) env \<Longrightarrow> tick env s = (delay, s') \<Longrightarrow> collecting b opens H s s'"
| co_restart: "st_ID st = wy_sid s \<Longrightarrow> collecting b opens H s (s\<lparr>wy_w := newWorker st\<rparr>)"
| co_other: "quiet_step (wy_sid s) (wy_db s) db' \<Longrightarrow>
    \<forall>k \<in> set (srows (wy_sid s) db'). Live k \<longrightarrow> objs' (ck_TargetID k, ck_StorageKey k) = wy_objs s (ck_TargetID k, ck_StorageKey k) \<Longrightarrow>
    collecting b opens H s (s\<lparr>wy_db := db', wy_objs := objs'\<rparr>)"

lemma collecting_moves:
  assumes "collecting b opens H s s'" "\<forall>d \<in> set H. framed b d"
  shows "moves b opens H s s'"
  using assms(1)
proof cases
  case (co_tick env delay)
  then show ?thesis using moves_tick [OF _ assms(2)] by (metis snd_conv)
next
  case (co_restart st)
  then show ?thesis by (simp add: moves_def collect_inv_def flags_ok_def newWorker_def)
next
  case (co_other db' objs')
  have "collect_inv b opens H \<lparr>wy_w = wy_w s, wy_db = db', wy_objs = objs', wy_events = wy_events s\<rparr>" if "collect_inv b opens H s"
    by (rule collect_inv_quiet [OF that]) (use co_other in auto)
  then show ?thesis using co_other(1) by (cases s) (simp add: moves_def)
qed

definition new_collector :: "Stream \<Rightarrow> pitr_db \<Rightarrow> objects \<Rightarrow> wsys" where
  "new_collector st db objs = \<lparr>wy_w = newWorker st, wy_db = db, wy_objs = objs, wy_events = []\<rparr>"

lemma collecting_inv:
  assumes "(collecting b opens H)\<^sup>*\<^sup>* (new_collector st db objs) s" "\<forall>d \<in> set H. framed b d" "pitr_inv db" "gone (st_ID st) db"
  shows "wy_sid s = st_ID st \<and> collect_inv b opens H s"
  using assms(1)
proof (induction rule: rtranclp_induct)
  case base
  then show ?case using gone_ok [OF assms(4)] assms(3) by (simp add: new_collector_def collect_inv_def newWorker_def)
next
  case (step s s')
  then show ?case using collecting_moves [OF step(2) assms(2)] by (simp add: moves_def)
qed

section \<open>Runs of chunks\<close>

lemma filter_adjacent:
  fixes f :: "'a \<Rightarrow> 'b :: linorder"
  assumes "sorted_wrt (\<lambda>x y. f x < f y) H" "\<And>x. x \<in> set H \<Longrightarrow> P x \<Longrightarrow> f x \<le> m" "\<And>x. x \<in> set H \<Longrightarrow> Q x \<Longrightarrow> m < f x"
  shows "filter P H @ filter Q H = filter (\<lambda>x. P x \<or> Q x) H"
  using assms
proof (induction H)
  case (Cons x H)
  then have IH: "filter P H @ filter Q H = filter (\<lambda>x. P x \<or> Q x) H" by simp
  show ?case
  proof (cases "Q x")
    case True
    then have "m < f x" "\<not> P x" using Cons.prems by force+
    moreover have "\<not> P y" if "y \<in> set H" for y
      using Cons.prems(1) Cons.prems(2) [of y] that \<open>m < f x\<close> by force
    ultimately show ?thesis using True IH by (simp add: filter_empty_conv [THEN iffD2])
  qed (use IH in simp)
qed simp

abbreviation in_order :: "bson_codec \<Rightarrow> byte list list \<Rightarrow> bool" where
  "in_order b H \<equiv> sorted_wrt (\<lambda>x y. doc_ts b x < doc_ts b y) H"

lemma no_docs_between: "filter (\<lambda>d. e < doc_ts b d \<and> doc_ts b d \<le> e) H = []"
  unfolding filter_empty_conv using leD by blast

lemma run_docs:
  assumes "in_order b H"
  shows "run_from s cks e \<Longrightarrow> (\<And>k. k \<in> set cks \<Longrightarrow> \<not> first_row sid db k) \<Longrightarrow>
   concat (map (row_docs b H sid db) cks) = filter (\<lambda>d. s < doc_ts b d \<and> doc_ts b d \<le> e) H"
proof (induction cks arbitrary: s)
  case Nil
  then have e: "s = e" by simp
  show ?case unfolding e list.map concat.simps filter.simps(1) no_docs_between ..
next
  case (Cons k cks)
  then have r: "ck_From k = s" "s \<le> ck_To k" "run_from (ck_To k) cks e" "\<not> first_row sid db k" by auto
  have "concat (map (row_docs b H sid db) cks) = filter (\<lambda>d. ck_To k < doc_ts b d \<and> doc_ts b d \<le> e) H"
    by (rule Cons.IH [OF r(3)]) (use Cons.prems(2) in simp)
  then have "concat (map (row_docs b H sid db) (k # cks)) = filter (\<lambda>d. s < doc_ts b d \<and> doc_ts b d \<le> ck_To k) H @ filter (\<lambda>d. ck_To k < doc_ts b d \<and> doc_ts b d \<le> e) H"
    using r by (simp add: row_docs_def)
  also have "\<dots> = filter (\<lambda>d. s < doc_ts b d \<and> doc_ts b d \<le> ck_To k \<or> ck_To k < doc_ts b d \<and> doc_ts b d \<le> e) H"
    by (rule filter_adjacent [OF assms, where m = "ck_To k"]) simp_all
  also have "\<dots> = filter (\<lambda>d. s < doc_ts b d \<and> doc_ts b d \<le> e) H"
    using r(2) run_from_le [OF r(3)] by (intro filter_cong) auto
  finally show ?case .
qed

text \<open>With the first chunk of the chain among them, the entry at the start is there as well.\<close>

lemma run_docs_first:
  assumes "in_order b H"
  shows "run_from s cks e \<Longrightarrow> k0 \<in> set cks \<Longrightarrow> first_row sid db k0 \<Longrightarrow> ck_From k0 = s \<Longrightarrow> distinct (map ck_ID cks) \<Longrightarrow>
   (\<And>k. k \<in> set cks \<Longrightarrow> first_row sid db k \<Longrightarrow> k = k0) \<Longrightarrow>
   concat (map (row_docs b H sid db) cks) = filter (\<lambda>d. s \<le> doc_ts b d \<and> doc_ts b d \<le> e) H"
proof (induction cks arbitrary: s)
  case Nil
  from Nil.prems(2) show ?case by simp
next
  case (Cons k cks)
  from Cons.prems(1) have r: "ck_From k = s" "s \<le> ck_To k" "run_from (ck_To k) cks e" by auto
  show ?case
  proof (cases "k = k0")
    case True
    have "k0 \<notin> set cks" using Cons.prems(5) True by auto
    then have "\<not> first_row sid db k'" if "k' \<in> set cks" for k' using Cons.prems(6) [of k'] that by auto
    then have "concat (map (row_docs b H sid db) cks) = filter (\<lambda>d. ck_To k < doc_ts b d \<and> doc_ts b d \<le> e) H"
      by (rule run_docs [OF assms r(3)])
    then have "concat (map (row_docs b H sid db) (k # cks)) = filter (\<lambda>d. s \<le> doc_ts b d \<and> doc_ts b d \<le> ck_To k) H @ filter (\<lambda>d. ck_To k < doc_ts b d \<and> doc_ts b d \<le> e) H"
      using r True Cons.prems(3) by (simp add: row_docs_def)
    also have "\<dots> = filter (\<lambda>d. s \<le> doc_ts b d \<and> doc_ts b d \<le> ck_To k \<or> ck_To k < doc_ts b d \<and> doc_ts b d \<le> e) H"
      by (rule filter_adjacent [OF assms, where m = "ck_To k"]) simp_all
    also have "\<dots> = filter (\<lambda>d. s \<le> doc_ts b d \<and> doc_ts b d \<le> e) H"
      using r(2) run_from_le [OF r(3)] by (intro filter_cong) auto
    finally show ?thesis .
  next
    case False
    then have k0: "k0 \<in> set cks" and nf: "\<not> first_row sid db k" using Cons.prems(2) Cons.prems(6) [of k] by auto
    have "ck_To k \<le> s" using run_from_bounds [OF r(3) k0] Cons.prems(4) by simp
    then have to: "ck_To k = s" using r(2) order_antisym by blast
    have "concat (map (row_docs b H sid db) cks) = filter (\<lambda>d. s \<le> doc_ts b d \<and> doc_ts b d \<le> e) H"
      by (rule Cons.IH [OF r(3) [unfolded to] k0 Cons.prems(3,4)]) (use Cons.prems(5) in simp, rule Cons.prems(6), simp_all)
    moreover have "row_docs b H sid db k = []" using r nf to by (simp add: row_docs_def no_docs_between)
    ultimately show ?thesis by simp
  qed
qed

text \<open>Any run of chunks of a chain, with or without its first: strictly after its start, nothing is missing or added.\<close>

lemma run_docs_after:
  assumes "in_order b H"
  shows "run_from s cks e \<Longrightarrow> (\<And>k. k \<in> set cks \<Longrightarrow> first_row sid db k \<Longrightarrow> ck_From k \<le> s) \<Longrightarrow>
   filter (\<lambda>d. s < doc_ts b d) (concat (map (row_docs b H sid db) cks)) = filter (\<lambda>d. s < doc_ts b d \<and> doc_ts b d \<le> e) H"
proof (induction cks arbitrary: s)
  case Nil
  then have e: "s = e" by simp
  show ?case unfolding e list.map concat.simps filter.simps(1) no_docs_between ..
next
  case (Cons k cks)
  from Cons.prems(1) have r: "ck_From k = s" "s \<le> ck_To k" "run_from (ck_To k) cks e" by auto
  have hd: "filter (\<lambda>d. s < doc_ts b d) (row_docs b H sid db k) = filter (\<lambda>d. s < doc_ts b d \<and> doc_ts b d \<le> ck_To k) H"
    unfolding row_docs_def filter_filter r(1) by (rule filter_cong) (use less_imp_le in auto)
  have tl: "filter (\<lambda>d. s < doc_ts b d) (concat (map (row_docs b H sid db) cks)) = filter (\<lambda>d. ck_To k < doc_ts b d \<and> doc_ts b d \<le> e) H"
  proof (cases "ck_To k = s")
    case True
    have "filter (\<lambda>d. s < doc_ts b d) (concat (map (row_docs b H sid db) cks)) = filter (\<lambda>d. s < doc_ts b d \<and> doc_ts b d \<le> e) H"
      by (rule Cons.IH [OF r(3) [unfolded True]]) (use Cons.prems(2) in simp)
    then show ?thesis using True by simp
  next
    case False
    then have lt: "s < ck_To k" using r(2) by simp
    have "\<not> first_row sid db k'" if "k' \<in> set cks" for k'
    proof
      assume "first_row sid db k'"
      then have "ck_From k' \<le> s" using Cons.prems(2) that by simp
      moreover have "ck_To k \<le> ck_From k'" using run_from_bounds [OF r(3) that] by blast
      ultimately show False using lt by (meson leD order_trans)
    qed
    from run_docs [OF assms r(3) this] have "concat (map (row_docs b H sid db) cks) = filter (\<lambda>d. ck_To k < doc_ts b d \<and> doc_ts b d \<le> e) H" by simp
    moreover have "filter (\<lambda>d. s < doc_ts b d) (filter (\<lambda>d. ck_To k < doc_ts b d \<and> doc_ts b d \<le> e) H) = filter (\<lambda>d. ck_To k < doc_ts b d \<and> doc_ts b d \<le> e) H"
      unfolding filter_filter by (rule filter_cong) (use less_trans [OF lt] in blast)+
    ultimately show ?thesis by simp
  qed
  have "filter (\<lambda>d. s < doc_ts b d) (concat (map (row_docs b H sid db) (k # cks)))
      = filter (\<lambda>d. s < doc_ts b d \<and> doc_ts b d \<le> ck_To k) H @ filter (\<lambda>d. ck_To k < doc_ts b d \<and> doc_ts b d \<le> e) H" using hd tl by simp
  also have "\<dots> = filter (\<lambda>d. s < doc_ts b d \<and> doc_ts b d \<le> ck_To k \<or> ck_To k < doc_ts b d \<and> doc_ts b d \<le> e) H"
    by (rule filter_adjacent [OF assms, where m = "ck_To k"]) simp_all
  also have "\<dots> = filter (\<lambda>d. s < doc_ts b d \<and> doc_ts b d \<le> e) H"
    using r(2) run_from_le [OF r(3)] by (intro filter_cong) auto
  finally show ?case .
qed

lemma first_row_unique:
  assumes "pitr_inv db" "k \<in> set (rows_of sid cid (db_chunks db))" "first_row sid db k"
  shows "k = hd (rows_of sid cid (db_chunks db))"
proof -
  have d: "distinct (map ck_ID (db_chunks db))" using assms(1) by (simp add: pitr_inv_def inv_chunks_def)
  have c: "ck_ChainID k = cid" "k \<in> set (db_chunks db)" using assms(2) by (auto simp: rows_of_def)
  obtain r rs where r: "rows_of sid cid (db_chunks db) = r # rs" "ck_ID r = ck_ID k" using assms(3) c(1) by (auto simp: first_row_def split: list.splits)
  have "r \<in> set (rows_of sid cid (db_chunks db))" using r(1) by simp
  then have "r \<in> set (db_chunks db)" by (simp add: rows_of_def)
  then have "k = r" using d c(2) r(2) by (metis distinct_map inj_onD)
  then show ?thesis using r(1) by simp
qed

lemma hd_first_row: "rows_of sid cid (db_chunks db) \<noteq> [] \<Longrightarrow> first_row sid db (hd (rows_of sid cid (db_chunks db)))"
proof -
  assume n: "rows_of sid cid (db_chunks db) \<noteq> []"
  then have "hd (rows_of sid cid (db_chunks db)) \<in> set (rows_of sid cid (db_chunks db))" by simp
  then have "ck_ChainID (hd (rows_of sid cid (db_chunks db))) = cid" by (simp add: rows_of_def)
  then show ?thesis using n by (simp add: first_row_def split: list.split)
qed

section \<open>What a chain holds\<close>

text \<open>What a chunk's object opens to.\<close>

definition opened :: "(byte list \<Rightarrow> byte list option) \<Rightarrow> objects \<Rightarrow> Chunk \<Rightarrow> byte list option" where
  "opened opens objs k = Option.bind (objs (ck_TargetID k, ck_StorageKey k)) opens"

lemma chain_rows:
  assumes "pitr_inv db" "c \<in> set (ListChains sid db)"
  obtains e where "run_from (cn_Start c) (rows_of sid (cn_ChainID c) (db_chunks db)) e"
  using assms that by (fastforce simp: pitr_inv_def inv_runs_def in_ListChains)

lemma live_rows_filter: "live_rows sid cid db = filter Live (rows_of sid cid (db_chunks db))"
  by (simp add: live_rows_def rows_of_def conj_commute conj_left_commute)

lemma chain_first:
  assumes "pitr_inv db" "c \<in> set (ListChains sid db)" "k \<in> set (rows_of sid (cn_ChainID c) (db_chunks db))" "first_row sid db k"
  shows "ck_From k = cn_Start c"
proof -
  obtain e where r: "run_from (cn_Start c) (rows_of sid (cn_ChainID c) (db_chunks db)) e" by (rule chain_rows [OF assms(1,2)])
  have "k = hd (rows_of sid (cn_ChainID c) (db_chunks db))" by (rule first_row_unique [OF assms(1,3,4)])
  then show ?thesis using r assms(3) by (cases "rows_of sid (cn_ChainID c) (db_chunks db)") auto
qed

text \<open>Any run of live chunks of one chain opens to the entries of the history after its start.\<close>

lemma run_opens:
  assumes inv: "collect_inv b opens H s" and H: "in_order b H" and c: "c \<in> set (ListChains (wy_sid s) (wy_db s))"
    and live: "\<forall>k \<in> set cks. k \<in> set (rows_of (wy_sid s) (cn_ChainID c) (db_chunks (wy_db s))) \<and> Live k"
    and cks: "cks \<noteq> []" "successively meets cks"
  shows "map (opened opens (wy_objs s)) cks = map (\<lambda>ds. Some (concat ds)) (map (row_docs b H (wy_sid s) (wy_db s)) cks)"
    and "filter (\<lambda>d. ck_From (hd cks) < doc_ts b d) (concat (map (row_docs b H (wy_sid s) (wy_db s)) cks))
      = filter (\<lambda>d. ck_From (hd cks) < doc_ts b d \<and> doc_ts b d \<le> ck_To (last cks)) H"
    and "run_from (ck_From (hd cks)) cks (ck_To (last cks))"
proof -
  let ?sid = "wy_sid s" and ?db = "wy_db s"
  note i = inv [unfolded collect_inv_def]
  have pi: "pitr_inv ?db" using i by blast
  obtain e where run: "run_from (cn_Start c) (rows_of ?sid (cn_ChainID c) (db_chunks ?db)) e" by (rule chain_rows [OF pi c])
  have k: "k \<in> set (rows_of ?sid (cn_ChainID c) (db_chunks ?db))" "Live k" "ck_From k \<le> ck_To k" "cn_Start c \<le> ck_From k" if "k \<in> set cks" for k
    using that live run_from_bounds [OF run, of k] by auto
  have "opened opens (wy_objs s) k = Some (concat (row_docs b H ?sid ?db k))" if "k \<in> set cks" for k
  proof -
    have "k \<in> set (srows ?sid ?db)" using k(1) [OF that] by (auto simp: rows_of_srows)
    then have "\<exists>ob. wy_objs s (ck_TargetID k, ck_StorageKey k) = Some ob \<and> opens ob = Some (concat (row_docs b H ?sid ?db k))"
      using i k(2) [OF that] by (simp add: objs_ok_def)
    then show ?thesis by (auto simp: opened_def)
  qed
  then show "map (opened opens (wy_objs s)) cks = map (\<lambda>ds. Some (concat ds)) (map (row_docs b H (wy_sid s) (wy_db s)) cks)" by simp
  show r: "run_from (ck_From (hd cks)) cks (ck_To (last cks))" by (rule meets_run [OF cks]) (use k(3) in blast)
  show "filter (\<lambda>d. ck_From (hd cks) < doc_ts b d) (concat (map (row_docs b H ?sid ?db) cks))
      = filter (\<lambda>d. ck_From (hd cks) < doc_ts b d \<and> doc_ts b d \<le> ck_To (last cks)) H"
  proof (rule run_docs_after [OF H r])
    fix k' assume k': "k' \<in> set cks" "first_row ?sid ?db k'"
    have "cn_Start c \<le> ck_From (hd cks)" using k(4) cks(1) by simp
    then show "ck_From k' \<le> ck_From (hd cks)" using chain_first [OF pi c k(1) [OF k'(1)] k'(2)] by simp
  qed
qed

lemma chain_docs:
  assumes inv: "collect_inv b opens H s" and H: "in_order b H" and c: "c \<in> set (ListChains (wy_sid s) (wy_db s))"
    and cks: "ListChunks (live_query (wy_sid s) (cn_ChainID c)) (wy_db s) = Ok cks" "cks \<noteq> []" "successively meets cks"
  shows "\<exists>docs. map (opened opens (wy_objs s)) cks = map (\<lambda>ds. Some (concat ds)) docs
    \<and> filter (\<lambda>d. ck_From (hd cks) < doc_ts b d) (concat docs) = filter (\<lambda>d. ck_From (hd cks) < doc_ts b d \<and> doc_ts b d \<le> ck_To (last cks)) H
    \<and> (ListChunks (chain_query (wy_sid s) (cn_ChainID c)) (wy_db s) = Ok cks \<longrightarrow>
        ck_From (hd cks) = cn_Start c \<and> concat docs = filter (\<lambda>d. cn_Start c \<le> doc_ts b d \<and> doc_ts b d \<le> ck_To (last cks)) H)"
proof (intro exI conjI impI)
  let ?sid = "wy_sid s" and ?db = "wy_db s" and ?cid = "cn_ChainID c"
  let ?rows = "rows_of ?sid ?cid (db_chunks ?db)" and ?docs = "map (row_docs b H (wy_sid s) (wy_db s)) cks"
  have pi: "pitr_inv ?db" using inv by (simp add: collect_inv_def)
  have ids: "?sid \<noteq> []" "?cid \<noteq> []" using inv_chain_ids [OF pi] c by (auto simp: in_ListChains)
  have live: "\<forall>k \<in> set cks. k \<in> set ?rows \<and> Live k" using cks(1) by (simp add: ListChunks_live [OF ids] live_rows_filter) auto
  note opens = run_opens [OF inv H c live cks(2,3)]
  show "map (opened opens (wy_objs s)) cks = map (\<lambda>ds. Some (concat ds)) ?docs" by (rule opens(1))
  show "filter (\<lambda>d. ck_From (hd cks) < doc_ts b d) (concat ?docs) = filter (\<lambda>d. ck_From (hd cks) < doc_ts b d \<and> doc_ts b d \<le> ck_To (last cks)) H"
    by (rule opens(2))
  assume "ListChunks (chain_query ?sid ?cid) ?db = Ok cks"
  then have all: "cks = sort_key chunk_order ?rows" by (simp add: ListChunks_chain [OF ids])
  obtain e where "run_from (cn_Start c) ?rows e" by (rule chain_rows [OF pi c])
  from run_from_sort [OF this] have "run_from (cn_Start c) cks e" unfolding all .
  then show start: "ck_From (hd cks) = cn_Start c" using cks(2) by (cases cks) auto
  have n: "?rows \<noteq> []" using cks(2) unfolding all by (metis sort_key_simps(1))
  have hd: "hd ?rows \<in> set cks" unfolding all using n by simp
  have "concat ?docs = filter (\<lambda>d. ck_From (hd cks) \<le> doc_ts b d \<and> doc_ts b d \<le> ck_To (last cks)) H"
  proof (rule run_docs_first [OF H opens(3) hd hd_first_row [OF n]])
    show "ck_From (hd ?rows) = ck_From (hd cks)" unfolding start by (rule chain_first [OF pi c _ hd_first_row [OF n]]) (use n in simp)
    have "distinct (map ck_ID (db_chunks ?db))" using pi by (simp add: pitr_inv_def inv_chunks_def)
    then show "distinct (map ck_ID cks)" unfolding all by (simp add: rows_of_def distinct_map_filter distinct_map inj_on_def)
    show "k' = hd ?rows" if "k' \<in> set cks" "first_row ?sid ?db k'" for k' by (rule first_row_unique [OF pi _ that(2)]) (use live that(1) in blast)
  qed
  then show "concat ?docs = filter (\<lambda>d. cn_Start c \<le> doc_ts b d \<and> doc_ts b d \<le> ck_To (last cks)) H" unfolding start .
qed

text \<open>C3: The collected oplog is complete. Take a stream that starts with no chunk, chain or position, and any interleaving of its
  collector's ticks with restarts and with the statements of other components, against members whose majority-committed oplogs
  are stretches of one history of entries. Then a run of live chunks of a chain opens, object by object, to entries that are
  those of the history after the run's start up to its end, each once and in order; and when the run is the whole chain, the
  entry at the chain's start is there too.\<close>

theorem collected_oplog_complete:
  assumes "(collecting b opens H)\<^sup>*\<^sup>* (new_collector st db objs) s" "\<forall>d \<in> set H. framed b d" "in_order b H" "pitr_inv db" "gone (st_ID st) db"
    and "c \<in> set (ListChains (st_ID st) (wy_db s))"
    and "ListChunks (live_query (st_ID st) (cn_ChainID c)) (wy_db s) = Ok cks" "cks \<noteq> []" "successively meets cks"
  shows "\<exists>docs. map (opened opens (wy_objs s)) cks = map (\<lambda>ds. Some (concat ds)) docs
    \<and> filter (\<lambda>d. ck_From (hd cks) < doc_ts b d) (concat docs) = filter (\<lambda>d. ck_From (hd cks) < doc_ts b d \<and> doc_ts b d \<le> ck_To (last cks)) H
    \<and> (ListChunks (chain_query (st_ID st) (cn_ChainID c)) (wy_db s) = Ok cks \<longrightarrow>
        ck_From (hd cks) = cn_Start c \<and> concat docs = filter (\<lambda>d. cn_Start c \<le> doc_ts b d \<and> doc_ts b d \<le> ck_To (last cks)) H)"
proof -
  have s: "wy_sid s = st_ID st" "collect_inv b opens H s" using collecting_inv [OF assms(1,2,4,5)] by simp_all
  show ?thesis using chain_docs [OF s(2) assms(3), of c cks] assms(6-9) unfolding s(1) by blast
qed

section \<open>A sample run\<close>

text \<open>Two ticks on a stream of one small history: the first starts a chain at the majority-committed entry, the second stores the chunk
  that holds this entry and the next.\<close>

definition sample_window :: "32 word \<Rightarrow> OplogWindow" where
  "sample_window t = \<lparr>ow_Oldest = Timestamp 1 0, ow_Newest = Timestamp 3 0, ow_MajorityOpTime = \<lparr>ot_TS = Timestamp t 0, ot_Term = 1\<rparr>,
     ow_ReplicaSet = ''rs0'', ow_ReplicaSetID = []\<rparr>"

definition sample_member :: "32 word \<Rightarrow> member" where
  "sample_member t = \<lparr>mb_window = (\<lambda>_. Some (sample_window t)), mb_entryAt = (\<lambda>_ _. Some (Some 1)), mb_entryAtOrAfter = (\<lambda>_. Some None), mb_query = sample_query\<rparr>"

definition sample_tick :: "32 word \<Rightarrow> tick_env" where
  "sample_tick t = \<lparr>tk_open = True, tk_pin = (\<lambda>_. Some (sample_member t)), tk_primary = sample_member t, tk_now = (\<lambda>_. 7), tk_chainID = ''c'',
     tk_chunk = sample_env, tk_bases = True, tk_maxBytes = 100, tk_msg = (\<lambda>_. ''failed''), tk_stopped = False\<rparr>"

definition sample_start :: wsys where
  "sample_start = new_collector sample_stream (empty_db\<lparr>db_streams := [sample_stream\<lparr>st_CreatedAt := 7, st_UpdatedAt := 7\<rparr>]\<rparr>) (\<lambda>_. None)"

lemma sample_honest: "honest_tick sample_codec (\<lambda>x. Some (rev x)) sample_oplog sid (sample_tick t)"
proof -
  have "honest_query sample_codec sample_oplog maj sample_query" for maj
    by (auto simp: honest_query_def sample_query_def intro!: exI filter_cong)
  then show ?thesis by (simp add: honest_tick_def honest_ports_def honest_member_def sample_tick_def sample_member_def)
qed

definition sample_worker :: worker where
  "sample_worker = (newWorker sample_stream)\<lparr>wk_session := True, wk_inclusive := True, wk_checked := True, wk_live := \<lparr>lv_Lag = 0, lv_Headroom = 0, lv_Oldest = Timestamp 1 0, lv_Newest = Timestamp 3 0, lv_Interval = 60 * go_Second, lv_CatchingUp = False,
       lv_WindowLow = False, lv_LastTick = 7\<rparr>\<rparr>"

definition sample_started :: pitr_db where
  "sample_started = (sample_db [] (Timestamp 1 0))\<lparr>db_chains := [sample_chain\<lparr>cn_Start := Timestamp 1 0\<rparr>]\<rparr>"

lemma sample_tick1: "tick (sample_tick 1) sample_start = (0, \<lparr>wy_w = sample_worker, wy_db = sample_started, wy_objs = (\<lambda>_. None), wy_events = []\<rparr>)"
  by (simp add: tick_def step_def sample_start_def new_collector_def sample_worker_def newWorker_def LoadState_def sample_tick_def sample_member_def sample_window_def ts_IsZero_def
    startChain_def StartChain_def streamExists_def move_state_def empty_db_def sample_defs sample_started_def timeKey_def adoptReplicaSetID_def recover_tick_def Let_def configured_seconds_def wrap64_def go_units DefaultChunkSeconds_def)

definition first_range :: OplogRange where
  "first_range = sample_range\<lparr>or_StartInclusive := True\<rparr>"

definition first_scanner :: Scanner where
  "first_scanner = \<lparr>sc_prefix = [], sc_doc = [], sc_size = 5, sc_count = 2, sc_first = \<lparr>ot_TS = Timestamp 1 0, ot_Term = 1\<rparr>,
       sc_last = \<lparr>ot_TS = Timestamp 2 0, ot_Term = 1\<rparr>, sc_err = None, sc_out = [5, 0, 0, 0, 1, 5, 0, 0, 0, 2]\<rparr>"

lemma first_scan: "scan_write sample_codec (\<lambda>_. None) [5, 0, 0, 0, 2] (snd (scan_write sample_codec (\<lambda>_. None) [5, 0, 0, 0, 1] NewScanner)) = (True, first_scanner)"
  "fst (scan_write sample_codec (\<lambda>_. None) [5, 0, 0, 0, 1] NewScanner)"
  by (simp_all add: scan_write_def scanner_Write_def NewScanner_def scan.simps scan_once_def fill_doc_def Let_def sample_size
    scanner_entry_def entryOpTime_def sample_codec_def entryTerm_def first_scanner_def less_Timestamp_def)

lemma first_produce: "produce sample_env sample_query first_range
    = Ok (stats_of [\<lparr>ot_TS = Timestamp 1 0, ot_Term = 1\<rparr>, \<lparr>ot_TS = Timestamp 2 0, ot_Term = 1\<rparr>], first_scanner)"
proof -
  obtain s1 where s1: "scan_write sample_codec (\<lambda>_. None) [5, 0, 0, 0, 1] NewScanner = (True, s1)" using first_scan(2) by (metis (full_types) prod.collapse)
  then have s2: "scan_write sample_codec (\<lambda>_. None) [5, 0, 0, 0, 2] s1 = (True, first_scanner)" using first_scan(1) by simp
  have "ReadOplog sample_codec (scan_write sample_codec (\<lambda>_. None)) sample_query first_range NewScanner
      = (Ok (stats_of [\<lparr>ot_TS = Timestamp 1 0, ot_Term = 1\<rparr>, \<lparr>ot_TS = Timestamp 2 0, ot_Term = 1\<rparr>]), first_scanner)"
    using sample_cursor by (simp add: ReadOplog_def first_range_def sample_range_def copyOplog_def copy_doc_def copy_entry_def copy_new_def Let_def
      entryTerm_def s1 s2 stats_of_def less_eq_Timestamp_def less_Timestamp_def sample_codec_ts)
  then show ?thesis by (simp add: produce_def sample_env_def first_scanner_def scanner_Finish_def)
qed

definition low_db :: pitr_db where
  "low_db = sample_started\<lparr>db_state := [(sample_state (Timestamp 1 0))\<lparr>sx_WindowLowSince := Some 7\<rparr>]\<rparr>"

definition first_chunk :: Chunk where
  "first_chunk = stored_chunk 7 (new_chunk sample_env sample_stream ''c'' first_range 1 (stats_of [\<lparr>ot_TS = Timestamp 1 0, ot_Term = 1\<rparr>, \<lparr>ot_TS = Timestamp 2 0, ot_Term = 1\<rparr>]) first_scanner)"

lemma first_write: "\<exists>raw. writeChunk sample_env sample_query sample_stream ''c'' first_range 1 low_db (\<lambda>_. None)
    = (Ok (first_chunk, raw), low_db\<lparr>db_chunks := [first_chunk], db_state := [(sample_state (Timestamp 2 0))\<lparr>sx_WindowLowSince := Some 7\<rparr>]\<rparr>,
       [(''t'', ChunkKey sample_stream ''c'' (Timestamp 1 0) (Timestamp 2 0)) \<mapsto> [2, 0, 0, 0, 5, 1, 0, 0, 0, 5]])"
proof -
  have k: "ChunkKey st c f t \<noteq> []" for st c f t by (simp add: ChunkKey_def KeyPrefix_def)
  show ?thesis
    unfolding writeChunk_def Let_def first_produce first_chunk_def
    by (simp add: checkScan_def stats_of_def first_scanner_def CommitChunk_def new_chunk_def k stored_chunk_def
      openChain_def sample_defs first_range_def sample_range_def sample_started_def low_db_def less_Timestamp_def zero_time_def update_rows_def timeKey_def nullTime_def)
qed


lemma sample_tick_ports [simp]: "tk_pin (sample_tick t) x = Some (sample_member t)" "tk_open (sample_tick t)" "tk_now (sample_tick t) n = 7" "\<not> tk_stopped (sample_tick t)"
  "tk_chunk (sample_tick t) = sample_env" "tk_maxBytes (sample_tick t) = 100" "mb_window (sample_member t) at = Some (sample_window t)" "mb_query (sample_member t) = sample_query"
  by (simp_all add: sample_tick_def sample_member_def)

lemma sample_stream_fields [simp]: "st_ID sample_stream = ''s''" "st_ReplicaSet sample_stream = ''rs0''" "st_ChunkSeconds sample_stream = 60"
  by (simp_all add: sample_stream_def)

lemma sample_worker_fields [simp]: "wk_stream sample_worker = sample_stream" "wk_session sample_worker" "wk_interval sample_worker = 60 * go_Second" "wk_checked sample_worker"
  "wk_inclusive sample_worker" "wk_rsID sample_worker = []" "\<not> wk_failing sample_worker" "wk_lagSince sample_worker = None" "\<not> wk_windowLow sample_worker"
  by (simp_all add: sample_worker_def newWorker_def configured_seconds_def wrap64_def go_units)

lemma sample_state_loaded: "LoadState ''s'' sample_started = Ok (sample_state (Timestamp 1 0))"
  by (simp add: sample_started_def LoadState_def sample_db_def sample_state_def)

lemma sample_state_fields [simp]: "sx_Last (sample_state t) = \<lparr>ot_TS = t, ot_Term = 1\<rparr>" "sx_ChainID (sample_state t) = ''c''"
  by (simp_all add: sample_state_def)

lemma sample_low: "SetWindowLow ''s'' (Some 7) sample_started = Ok low_db"
  by (simp add: SetWindowLow_def update_state_def low_db_def sample_started_def sample_db_def sample_state_def update_rows_def rows_affected_def nullTime_def timeKey_def zero_time_def)

lemma thresholds: "2 * go_Second < LagThreshold (60 * go_Second)" "HeadroomThreshold x > 0"
  by (simp_all add: LagThreshold_def HeadroomThreshold_def minLagThreshold_def minHeadroom_def lagIntervals_def wrap64_def go_units)

lemma sample_observe:
  assumes "wk_stream w = sample_stream" "wk_lagSince w = None" "\<not> wk_windowLow w"
  shows "\<exists>live. observeLag (sample_tick 2) (sample_state (Timestamp 1 0)) (sample_window 2) 7 \<lparr>wy_w = w, wy_db = sample_started, wy_objs = objs, wy_events = ev\<rparr>
     = \<lparr>wy_w = w\<lparr>wk_live := live, wk_windowLow := True\<rparr>, wy_db = low_db, wy_objs = objs, wy_events = ev @ [PITRWindowLow]\<rparr>"
proof -
  have s: "seconds_between (Timestamp 1 0) (Timestamp 3 0) = 2 * go_Second" "seconds_between (Timestamp 1 0) (Timestamp 1 0) = 0"
    by (simp_all add: seconds_between_def wrap64_def go_units)
  have c: "configured w = 60 * go_Second" using assms(1) by (simp add: configured_def configured_seconds_def wrap64_def go_units)
  have n: "\<not> LagThreshold (60 * go_Second) < 2 * go_Second" using thresholds(1) by simp
  show ?thesis using assms by (intro exI [of _ "(wk_live w)\<lparr>lv_Lag := 2 * go_Second, lv_Headroom := 0, lv_WindowLow := True\<rparr>"]) (simp add: observeLag_def Let_def sample_window_def s c n thresholds(2) setWindowLow_def sample_low publish_def less_Timestamp_def)
qed

definition sample_stored :: pitr_db where
  "sample_stored = low_db\<lparr>db_chunks := [first_chunk], db_state := [(sample_state (Timestamp 2 0))\<lparr>sx_WindowLowSince := Some 7\<rparr>]\<rparr>"

definition sample_objects :: objects where
  "sample_objects = [(''t'', ChunkKey sample_stream ''c'' (Timestamp 1 0) (Timestamp 2 0)) \<mapsto> [2, 0, 0, 0, 5, 1, 0, 0, 0, 5]]"

lemma sample_store:
  assumes "wk_stream w = sample_stream" "wk_inclusive w" "\<not> wk_failing w"
  shows "\<exists>w' d. store_chunk (sample_tick 2) (sample_member 2) (sample_state (Timestamp 1 0)) (Timestamp 2 0) False
       \<lparr>wy_w = w, wy_db = low_db, wy_objs = (\<lambda>_. None), wy_events = ev\<rparr>
     = (Ok d, \<lparr>wy_w = w', wy_db = sample_stored, wy_objs = sample_objects, wy_events = ev\<rparr>) \<and> \<not> wk_failing w'"
proof -
  have f: "\<not> wk_failing (adjustInterval l r w) \<longleftrightarrow> \<not> wk_failing w" for l r w by (simp add: adjustInterval_def)
  have r: "\<lparr>or_From = Timestamp 1 0, or_To = Timestamp 2 0, or_CheckTerm = True, or_FromTerm = 1, or_StartInclusive = True\<rparr> = first_range"
    by (simp add: first_range_def sample_range_def)
  obtain raw where wr: "writeChunk sample_env sample_query sample_stream ''c'' first_range 1 low_db (\<lambda>_. None)
    = (Ok (first_chunk, raw), sample_stored, sample_objects)" unfolding sample_stored_def sample_objects_def using first_write by blast
  show ?thesis using assms f by (simp add: store_chunk_def Let_def r wr)
qed

lemma sample_tick2: "\<exists>d s. tick (sample_tick 2) \<lparr>wy_w = sample_worker, wy_db = sample_started, wy_objs = (\<lambda>_. None), wy_events = []\<rparr> = (d, s)
    \<and> wy_db s = sample_stored \<and> wy_objs s = sample_objects"
proof -
  define w1 where "w1 = sample_worker\<lparr>wk_live := (wk_live sample_worker)\<lparr>lv_LastTick := 7, lv_Oldest := Timestamp 1 0, lv_Newest := Timestamp 3 0, lv_Interval := 60 * go_Second\<rparr>\<rparr>"
  have w1: "wk_stream w1 = sample_stream" "wk_lagSince w1 = None" "\<not> wk_windowLow w1" "wk_inclusive w1" "\<not> wk_failing w1" "wk_interval w1 = 60 * go_Second" "wk_checked w1"
    "wk_rsID w1 = []" by (simp_all add: w1_def)
  let ?s1 = "\<lparr>wy_w = w1, wy_db = sample_started, wy_objs = (\<lambda>_. None), wy_events = []\<rparr>"
  obtain live where ob: "observeLag (sample_tick 2) (sample_state (Timestamp 1 0)) (sample_window 2) 7 ?s1
     = \<lparr>wy_w = w1\<lparr>wk_live := live, wk_windowLow := True\<rparr>, wy_db = low_db, wy_objs = (\<lambda>_. None), wy_events = [PITRWindowLow]\<rparr>"
    using sample_observe [OF w1(1-3), of "\<lambda>_. None" "[]"] by auto
  define w2 where "w2 = w1\<lparr>wk_windowLow := True, wk_live := live\<lparr>lv_CatchingUp := False\<rparr>\<rparr>"
  have "wk_stream w2 = sample_stream" "wk_inclusive w2" "\<not> wk_failing w2" using w1 by (simp_all add: w2_def)
  from sample_store [OF this] obtain w' d where st: "store_chunk (sample_tick 2) (sample_member 2) (sample_state (Timestamp 1 0)) (Timestamp 2 0) False
       \<lparr>wy_w = w2, wy_db = low_db, wy_objs = (\<lambda>_. None), wy_events = [PITRWindowLow]\<rparr>
     = (Ok d, \<lparr>wy_w = w', wy_db = sample_stored, wy_objs = sample_objects, wy_events = [PITRWindowLow]\<rparr>)" "\<not> wk_failing w'" by blast
  have win: "ow_Oldest (sample_window 2) = Timestamp 1 0" "ow_MajorityOpTime (sample_window 2) = \<lparr>ot_TS = Timestamp 2 0, ot_Term = 1\<rparr>" "ow_ReplicaSet (sample_window 2) = ''rs0''"
    "ow_Newest (sample_window 2) = Timestamp 3 0" "ow_ReplicaSetID (sample_window 2) = []" by (simp_all add: sample_window_def)
  have ce: "chunk_end m (Timestamp 1 0) (Timestamp 2 0) (60 * go_Second) = Ok (Timestamp 2 0, False)" for m by (simp add: chunk_end_def go_units)
  have "collect (sample_tick 2) (sample_member 2) (sample_state (Timestamp 1 0)) (sample_window 2) ?s1 = (Ok d, \<lparr>wy_w = w', wy_db = sample_stored, wy_objs = sample_objects, wy_events = [PITRWindowLow]\<rparr>)"
    using st(1) w1 by (simp add: collect_def Let_def ob win ce w2_def less_Timestamp_def)
  then have "check_position (sample_tick 2) (sample_member 2) (sample_state (Timestamp 1 0)) (sample_window 2) ?s1 = (Ok d, \<lparr>wy_w = w', wy_db = sample_stored, wy_objs = sample_objects, wy_events = [PITRWindowLow]\<rparr>)"
    using w1 by (simp add: check_position_def Let_def win adoptReplicaSetID_def)
  then have "known_position (sample_tick 2) (sample_member 2) (sample_state (Timestamp 1 0)) (sample_window 2) ?s1 = (Ok d, \<lparr>wy_w = w', wy_db = sample_stored, wy_objs = sample_objects, wy_events = [PITRWindowLow]\<rparr>)"
    using w1 by (simp add: known_position_def rsChanged_def win)
  moreover have "sample_worker\<lparr>wk_session := True, wk_live := (wk_live sample_worker)\<lparr>lv_LastTick := 7, lv_Oldest := Timestamp 1 0, lv_Newest := Timestamp 3 0, lv_Interval := 60 * go_Second\<rparr>\<rparr> = w1"
    by (simp add: w1_def sample_worker_def newWorker_def)
  ultimately show ?thesis using st(2) w1(7) by (simp add: tick_def step_def Let_def sample_state_loaded win recover_tick_def)
qed

lemma sample_run: "\<exists>s. (collecting sample_codec (\<lambda>x. Some (rev x)) sample_oplog)\<^sup>*\<^sup>* sample_start s \<and> wy_db s = sample_stored \<and> wy_objs s = sample_objects"
proof -
  obtain d s where s: "tick (sample_tick 2) \<lparr>wy_w = sample_worker, wy_db = sample_started, wy_objs = (\<lambda>_. None), wy_events = []\<rparr> = (d, s)"
    "wy_db s = sample_stored" "wy_objs s = sample_objects" using sample_tick2 by blast
  have "collecting sample_codec (\<lambda>x. Some (rev x)) sample_oplog sample_start \<lparr>wy_w = sample_worker, wy_db = sample_started, wy_objs = (\<lambda>_. None), wy_events = []\<rparr>"
    by (rule co_tick [OF sample_honest sample_tick1])
  moreover have "collecting sample_codec (\<lambda>x. Some (rev x)) sample_oplog \<lparr>wy_w = sample_worker, wy_db = sample_started, wy_objs = (\<lambda>_. None), wy_events = []\<rparr> s"
    by (rule co_tick [OF sample_honest s(1)])
  ultimately show ?thesis using s(2,3) by (meson converse_rtranclp_into_rtranclp rtranclp.rtrancl_refl)
qed

theorem collected_oplog_complete_witness:
  "\<exists>s docs. (collecting sample_codec (\<lambda>x. Some (rev x)) sample_oplog)\<^sup>*\<^sup>* sample_start s
     \<and> ListChunks (chain_query ''s'' ''c'') (wy_db s) = Ok [first_chunk]
     \<and> map (opened (\<lambda>x. Some (rev x)) (wy_objs s)) [first_chunk] = map (\<lambda>ds. Some (concat ds)) docs
     \<and> concat docs = [[5, 0, 0, 0, 1], [5, 0, 0, 0, 2]]"
proof -
  obtain s where s: "(collecting sample_codec (\<lambda>x. Some (rev x)) sample_oplog)\<^sup>*\<^sup>* sample_start s" "wy_db s = sample_stored" "wy_objs s = sample_objects"
    using sample_run by blast
  let ?db = "empty_db\<lparr>db_streams := [sample_stream\<lparr>st_CreatedAt := 7, st_UpdatedAt := 7\<rparr>]\<rparr>"
  have inv: "pitr_inv ?db" using inv_CreateStream [OF pitr_inv_empty sample_create] .
  have gone: "gone (st_ID sample_stream) ?db" by (simp add: gone_def srows_def scores_def schains_def empty_db_def)
  have H: "in_order sample_codec sample_oplog" by (simp add: sample_oplog_def doc_ts_def sample_codec_ts less_Timestamp_def)
  let ?c = "sample_chain\<lparr>cn_Start := Timestamp 1 0\<rparr>"
  have row: "ck_StreamID first_chunk = ''s''" "ck_ChainID first_chunk = ''c''" "ck_From first_chunk = Timestamp 1 0" "ck_To first_chunk = Timestamp 2 0" "Live first_chunk"
    by (simp_all add: first_chunk_def new_chunk_def first_range_def sample_range_def stored_chunk_def Live_def)
  have c: "?c \<in> set (ListChains (st_ID sample_stream) (wy_db s))" "cn_ChainID ?c = ''c''"
    by (simp_all add: in_ListChains s(2) sample_stored_def low_db_def sample_started_def sample_chain_def)
  have l: "ListChunks (live_query (st_ID sample_stream) (cn_ChainID ?c)) (wy_db s) = Ok [first_chunk]" "ListChunks (chain_query ''s'' ''c'') (wy_db s) = Ok [first_chunk]"
    using row c(2) by (simp_all add: ListChunks_live ListChunks_chain live_rows_filter rows_of_def s(2) sample_stored_def)
  have f: "filter (\<lambda>d. cn_Start ?c \<le> doc_ts sample_codec d \<and> doc_ts sample_codec d \<le> ck_To (last [first_chunk])) sample_oplog = [[5, 0, 0, 0, 1], [5, 0, 0, 0, 2]]"
    by (simp add: row sample_oplog_def doc_ts_def sample_codec_ts less_eq_Timestamp_def less_Timestamp_def)
  obtain docs where d: "map (opened (\<lambda>x. Some (rev x)) (wy_objs s)) [first_chunk] = map (\<lambda>ds. Some (concat ds)) docs"
    "ListChunks (chain_query (st_ID sample_stream) (cn_ChainID ?c)) (wy_db s) = Ok [first_chunk] \<longrightarrow> ck_From (hd [first_chunk]) = cn_Start ?c
       \<and> concat docs = filter (\<lambda>d. cn_Start ?c \<le> doc_ts sample_codec d \<and> doc_ts sample_codec d \<le> ck_To (last [first_chunk])) sample_oplog"
    using collected_oplog_complete [OF s(1) [unfolded sample_start_def] sample_framed H inv gone c(1) l(1)] by fastforce
  have "concat docs = [[5, 0, 0, 0, 1], [5, 0, 0, 0, 2]]" using d(2) l(2) unfolding f c(2) sample_stream_fields by blast
  then show ?thesis using s(1) l(2) d(1) by blast
qed

end
