(* ===== verification/Pitr_Recovery.thy ===== *)
theory Pitr_Recovery
  imports Pitr_Plan_Complete Pitr_Collect_Props
begin

text \<open>
  Collection and planning together: the chunks of a restore plan over what the collector stored replay exactly the replica
  set's history between the base and the target.
\<close>

lemma plan_opens:
  assumes inv: "collect_inv b opens H s" "wy_sid s = st_ID st" and H: "in_order b H"
    and plan: "PlanRestore (Some st) (sql_source (wy_db s) bases hk) target = Ok plan"
  shows "\<exists>docs. map (opened opens (wy_objs s)) (rp_Chunks plan) = map (\<lambda>ds. Some (concat ds)) docs
    \<and> filter (\<lambda>d. ot_TS (b_TBefore (rp_Base plan)) < doc_ts b d \<and> doc_ts b d \<le> rp_Limit plan) (concat docs)
      = filter (\<lambda>d. ot_TS (b_TBefore (rp_Base plan)) < doc_ts b d \<and> doc_ts b d \<le> rp_Limit plan) H"
proof -
  let ?db = "wy_db s" and ?cks = "rp_Chunks plan" and ?docs = "map (row_docs b H (wy_sid s) (wy_db s)) (rp_Chunks plan)"
  have pi: "pitr_inv ?db" using inv(1) by (simp add: collect_inv_def)
  obtain limit pre post where p: "rp_Limit plan = limit" "replayable (rp_Base plan) limit ?cks"
    "live_listing (st_ID st) (rp_ChainID plan) ?db = pre @ ?cks @ post"
    by (rule sql.plan_chunks [OF pi plan])
  have cks: "?cks \<noteq> []" "successively meets ?cks" "ck_From (hd ?cks) \<le> ot_TS (b_TBefore (rp_Base plan))" "limit \<le> ck_To (last ?cks)"
    using p(2) by (simp_all add: replayable_def)
  have "k \<in> set (live_listing (st_ID st) (rp_ChainID plan) ?db)" if "k \<in> set ?cks" for k using that p(3) by simp
  then have row: "k \<in> set (db_chunks ?db) \<and> ck_StreamID k = st_ID st \<and> ck_ChainID k = rp_ChainID plan \<and> Live k" if "k \<in> set ?cks" for k
    using that by (auto simp: in_live_listing)
  have "hd ?cks \<in> set ?cks" using cks(1) by simp
  from row [OF this] obtain c where c: "c \<in> set (ListChains (wy_sid s) ?db)" "cn_ChainID c = rp_ChainID plan"
    using pi inv(2) by (auto simp: pitr_inv_def inv_chunks_def in_ListChains)
  have live: "\<forall>k \<in> set ?cks. k \<in> set (rows_of (wy_sid s) (cn_ChainID c) (db_chunks ?db)) \<and> Live k"
    using row inv(2) c(2) by (auto simp: rows_of_def)
  note opens = run_opens [OF inv(1) H c(1) live cks(1,2)]
  let ?P = "\<lambda>d. ot_TS (b_TBefore (rp_Base plan)) < doc_ts b d \<and> doc_ts b d \<le> rp_Limit plan"
  have a: "ck_From (hd ?cks) < doc_ts b d \<and> doc_ts b d \<le> ck_To (last ?cks)" if "?P d" for d
    using that cks(3,4) p(1) order_le_less_trans order_trans by blast
  have "filter ?P (concat ?docs) = filter ?P (filter (\<lambda>d. ck_From (hd ?cks) < doc_ts b d) (concat ?docs))"
    unfolding filter_filter by (rule filter_cong) (use a in blast)+
  also have "\<dots> = filter ?P H" unfolding opens(2) filter_filter by (rule filter_cong) (use a in blast)+
  finally show ?thesis using opens(1) by blast
qed

definition early_base :: Base where
  "early_base = sample_base ''b'' (Timestamp 1 0) (Timestamp 1 0)"

definition early_target :: Target where
  "early_target = \<lparr>tg_At = zero_time, tg_TS = Some (Timestamp 2 0)\<rparr>"

lemma first_chunk_fields: "ck_StreamID first_chunk = ''s''" "ck_ChainID first_chunk = ''c''" "ck_From first_chunk = Timestamp 1 0"
  "ck_To first_chunk = Timestamp 2 0" "Live first_chunk" "ck_SHA256 first_chunk = ''ab''" "ck_VerifyError first_chunk = []"
  by (simp_all add: first_chunk_def new_chunk_def first_range_def sample_range_def stored_chunk_def Live_def)

lemma early_leads: "leads_to early_base (Timestamp 2 0) [first_chunk]"
  by (simp add: leads_to_def chunk_ok_def is_blank_def go_TrimSpace_empty go_space_def holds_TAfter_def term_outside_def early_base_def
      first_chunk_fields less_Timestamp_def less_eq_Timestamp_def)

end
