(* ===== verification/Runs_Fair.thy ===== *)
theory Runs_Fair
  imports Runs_Slots "HOL-Library.Sublist"
begin

text \<open>
  Counted slots are handed out in the order of arrival. The waiting calls of a queue form a first-in first-out list in every
  interleaving of arrivals, hand-overs, cancellations, releases and shutdown: no call overtakes a waiting one, and a waiting call has its
  slot as soon as the calls that held a slot or stood ahead of it have ended.
\<close>

section \<open>What a critical section does to a queue\<close>

abbreviation waiters :: "RunManager \<Rightarrow> nat \<Rightarrow> nat list" where
  "waiters m q \<equiv> sq_waiters (rm_heap m q)"

text \<open>Queue \<open>q\<close> loses a first part of its waiters, whose channels are closed; nothing else is closed or changed.\<close>

definition admits :: "nat \<Rightarrow> nat list \<Rightarrow> RunManager \<Rightarrow> RunManager \<Rightarrow> bool" where
  "admits q cs m m' \<longleftrightarrow> waiters m q = cs @ waiters m' q \<and> rm_done m' = rm_done m \<union> set cs \<and> (\<forall>q'. q' \<noteq> q \<longrightarrow> rm_heap m' q' = rm_heap m q')"

lemma admitLocked_admits: "\<exists>cs. admits q cs m (admitLocked q m)"
proof -
  let ?sq = "rm_heap m q"
  obtain h rest cs where a: "admitLoop (sq_held ?sq) (sq_limit ?sq) (sq_waiters ?sq) = (h, rest, cs)" by (metis prod_cases3)
  then show ?thesis using admitLoop_spec [OF a] by (intro exI [of _ cs]) (simp add: admits_def admitLocked_def Let_def set_queue_def)
qed

lemma freeLocked_admits: "\<exists>cs. admits q cs m (freeLocked key q m)"
proof -
  let ?m = "set_queue q ((rm_heap m q)\<lparr>sq_held := sq_held (rm_heap m q) - 1\<rparr>) m"
  from admitLocked_admits obtain cs where "admits q cs ?m (admitLocked q ?m)" by blast
  then show ?thesis by (intro exI [of _ cs]) (simp add: admits_def freeLocked_def dropIdleLocked_def set_queue_def)
qed

lemma slot_queue_frame:
  assumes "slot_queue key m = (q', m0)"
  shows "rm_done m0 = rm_done m" "q \<noteq> q' \<or> rm_slots m key = Some q \<or> q = rm_nextq m" "q \<noteq> rm_nextq m \<Longrightarrow> rm_heap m0 q = rm_heap m q"
  using assms by (auto simp: slot_queue_def Let_def split: option.splits)

lemma enter_effect:
  assumes e: "AcquireSlot_enter c key limit m = (r, m')" and r: "r = SlotTaken q' \<or> r = SlotQueued q'"
  obtains cs m0 m2 where "slot_queue key m = (q', m0)" "admits q' cs (set_queue q' ((rm_heap m0 q')\<lparr>sq_limit := limit\<rparr>) m0) m2"
    "rm_done m' = rm_done m2" "\<forall>q. q \<noteq> q' \<longrightarrow> rm_heap m' q = rm_heap m2 q"
    "r = SlotTaken q' \<and> waiters m2 q' = [] \<and> waiters m' q' = [] \<or> r = SlotQueued q' \<and> waiters m' q' = waiters m2 q' @ [c]"
proof -
  have g: "\<not> (limit \<le> 0 \<or> key = [])" "\<not> rm_closed m" using e r by (auto simp: AcquireSlot_enter_def split: if_splits)
  obtain q0 m0 where sq: "slot_queue key m = (q0, m0)" by fastforce
  let ?m1 = "set_queue q0 ((rm_heap m0 q0)\<lparr>sq_limit := limit\<rparr>) m0"
  obtain cs where cs: "admits q0 cs ?m1 (admitLocked q0 ?m1)" using admitLocked_admits by blast
  have q0: "q0 = q'" using e g sq r by (auto simp: AcquireSlot_enter_def Let_def split: if_splits)
  show thesis
    by (rule that [OF sq [unfolded q0] cs [unfolded q0]])
      (use e g sq r in \<open>auto simp: AcquireSlot_enter_def Let_def set_queue_def split: if_splits\<close>)
qed

section \<open>Order of arrival\<close>

text \<open>Call \<open>c\<close> is over, was handed its slot, or still waits: then only calls that once stood ahead of it (\<open>A\<close>) stand ahead of it, in
  their old order, and only those and the first holders (\<open>G\<close>) have a slot.\<close>

definition in_line :: "nat \<Rightarrow> nat \<Rightarrow> nat list \<Rightarrow> nat set \<Rightarrow> slots_state \<Rightarrow> bool" where
  "in_line c q A G S \<longleftrightarrow> (\<exists>a b. waiters (sl_mgr S) q = a @ c # b \<and> subseq a A) \<and> granted S q \<subseteq> G \<union> set A"

definition served_fair :: "nat \<Rightarrow> nat \<Rightarrow> nat list \<Rightarrow> nat set \<Rightarrow> slots_state \<Rightarrow> bool" where
  "served_fair c q A G S \<longleftrightarrow> sl_call S c = Over \<or> c \<in> granted S q \<or> in_line c q A G S"

lemma in_line_admits:
  assumes "in_line c q A G S" and w: "waiters (sl_mgr S) q = cs @ rest" "waiters (sl_mgr S') q = rest @ new"
    and g: "granted S' q \<subseteq> granted S q \<union> set cs" "c \<in> set cs \<Longrightarrow> c \<in> granted S' q \<or> sl_call S' c = Over"
  shows "served_fair c q A G S'"
proof (cases "c \<in> set cs")
  case True
  then show ?thesis using g(2) by (auto simp: served_fair_def)
next
  case False
  from assms(1) obtain a b where ab: "waiters (sl_mgr S) q = a @ c # b" "subseq a A" and G: "granted S q \<subseteq> G \<union> set A" by (auto simp: in_line_def)
  from ab(1) w(1) obtain us where us: "a = cs @ us \<and> us @ c # b = rest \<or> a @ us = cs \<and> c # b = us @ rest"
    by (metis append_eq_append_conv2)
  have "\<exists>us. a = cs @ us \<and> us @ c # b = rest"
  proof (rule disjE [OF us])
    assume u: "a @ us = cs \<and> c # b = us @ rest"
    then show ?thesis using False by (cases us) auto
  qed blast
  then obtain us where a: "a = cs @ us" "rest = us @ c # b" by blast
  have "subseq us A" using subseq_order.order_trans [OF subseq_drop_many [OF subseq_order.order_refl] ab(2) [unfolded a(1)]] .
  moreover have "set cs \<subseteq> set A" using ab(2) a(1) by (auto dest: list_emb_set)
  ultimately have "in_line c q A G S'" unfolding in_line_def using w(2) a(2) g(1) G by (intro conjI exI [of _ us] exI [of _ "b @ new"]) auto
  then show ?thesis by (simp add: served_fair_def)
qed

lemma subseq_remove1: "subseq (remove1 d xs) xs"
  by (induction xs) auto

lemma in_line_leaves:
  assumes "in_line c q A G S" "waiters (sl_mgr S') q = remove1 d (waiters (sl_mgr S) q)" "d \<noteq> c" "granted S' q \<subseteq> granted S q"
  shows "in_line c q A G S'"
proof -
  from assms(1) obtain a b where ab: "waiters (sl_mgr S) q = a @ c # b" "subseq a A" and G: "granted S q \<subseteq> G \<union> set A" by (auto simp: in_line_def)
  have "waiters (sl_mgr S') q = remove1 d a @ c # (if d \<in> set a then b else remove1 d b)" unfolding assms(2) ab(1) remove1_append using assms(3) by (simp add: remove1_idem)
  moreover have "subseq (remove1 d a) A" using ab(2) by (metis subseq_order.order_trans subseq_remove1)
  ultimately show ?thesis unfolding in_line_def using G assms(4) by blast
qed

lemma enter_done:
  assumes "AcquireSlot_enter c key limit m = (r, m')" "r = SlotTaken q' \<or> r = SlotQueued q'"
  shows "rm_done m \<subseteq> rm_done m'"
  by (rule enter_effect [OF assms]) (use slot_queue_frame(1) in \<open>fastforce simp: admits_def set_queue_def\<close>)

lemma granted_stays: "slot_step lim S S' \<Longrightarrow> c \<in> granted S q \<Longrightarrow> c \<in> granted S' q \<or> sl_call S' c = Over"
proof (induction rule: slot_step.induct)
  case (Take S d limit key q' m)
  have "rm_done (sl_mgr S) \<subseteq> rm_done m" by (rule enter_done [OF Take(3), of q']) simp
  then show ?case using Take(1,4) by (auto simp: granted_def set_call_def)
next
  case (Queue S d limit key q' m)
  have "rm_done (sl_mgr S) \<subseteq> rm_done m" by (rule enter_done [OF Queue(3), of q']) simp
  then show ?case using Queue(1,4) by (auto simp: granted_def set_call_def)
next
  case (Leave S d key q')
  have "rm_done (sl_mgr S) \<subseteq> rm_done (AcquireSlot_leave d key q' (sl_mgr S))"
    using freeLocked_admits [of q' "sl_mgr S" key] by (auto simp: AcquireSlot_leave_def Let_def dropIdleLocked_def set_queue_def admits_def)
  then show ?case using Leave by (auto simp: granted_def set_call_def)
next
  case (Release S d key q')
  have "rm_done (sl_mgr S) \<subseteq> rm_done (freeLocked key q' (sl_mgr S))" using freeLocked_admits [of q' "sl_mgr S" key] by (auto simp: admits_def)
  then show ?case using Release by (auto simp: granted_def set_call_def)
qed (auto simp: granted_def set_call_def)

lemma waiter_waits:
  assumes "slots_inv lim S" "rm_slots (sl_mgr S) k = Some q" "x \<in> set (waiters (sl_mgr S) q)"
  shows "\<exists>k'. sl_call S x = Waits k' q" "x \<notin> rm_done (sl_mgr S)" "q \<noteq> rm_nextq (sl_mgr S)"
proof -
  have "queue_ok lim S k q" using slots_baseD(1) [OF _ assms(2)] assms(1) by (simp add: slots_inv_def)
  then have "x \<in> waiting S q" "q < rm_nextq (sl_mgr S)" using assms(3) by (simp_all add: queue_ok_def Let_def)
  then show "\<exists>k'. sl_call S x = Waits k' q" "x \<notin> rm_done (sl_mgr S)" "q \<noteq> rm_nextq (sl_mgr S)" by (auto simp: waiting_def)
qed

text \<open>Closing channels of the waiters of queue \<open>q'\<close> hands slots of \<open>q'\<close> to them, and slots of another queue to nobody.\<close>

lemma granted_admits:
  assumes "\<And>x. x \<in> set cs \<Longrightarrow> \<exists>k. sl_call S x = Waits k q'"
    and "rm_done (sl_mgr S') = rm_done (sl_mgr S) \<union> set cs" "\<And>x. x \<noteq> d \<Longrightarrow> sl_call S' x = sl_call S x"
    and "\<And>k. sl_call S' d \<noteq> Holds k q" "\<And>k. sl_call S' d = Waits k q \<Longrightarrow> d \<notin> rm_done (sl_mgr S')"
  shows "granted S' q \<subseteq> granted S q \<union> (if q' = q then set cs else {})"
proof
  fix x assume x: "x \<in> granted S' q"
  have "x \<noteq> d" using x assms(4,5) by (auto simp: granted_def)
  then have call: "sl_call S' x = sl_call S x" by (rule assms(3))
  show "x \<in> granted S q \<union> (if q' = q then set cs else {})"
  proof (cases "x \<in> set cs")
    case True
    from assms(1) [OF this] obtain k where "sl_call S x = Waits k q'" by blast
    then show ?thesis using x call True by (auto simp: granted_def)
  qed (use x call assms(2) in \<open>auto simp: granted_def\<close>)
qed

lemma in_line_moves:
  assumes line: "in_line c q A G S" and cs: "\<And>x. x \<in> set cs \<Longrightarrow> \<exists>k. sl_call S x = Waits k q'"
    and dn: "rm_done (sl_mgr S') = rm_done (sl_mgr S) \<union> set cs" and calls: "\<And>x. x \<noteq> d \<Longrightarrow> sl_call S' x = sl_call S x"
    and d: "\<And>k. sl_call S' d \<noteq> Holds k q" "\<And>k. sl_call S' d = Waits k q \<Longrightarrow> d \<notin> rm_done (sl_mgr S')" "d = c \<Longrightarrow> sl_call S' d = Over"
    and same: "q' = q \<Longrightarrow> waiters (sl_mgr S) q = cs @ rest \<and> waiters (sl_mgr S') q = rest @ new"
    and other: "q' \<noteq> q \<Longrightarrow> waiters (sl_mgr S') q = waiters (sl_mgr S) q"
  shows "served_fair c q A G S'"
proof -
  have g: "granted S' q \<subseteq> granted S q \<union> (if q' = q then set cs else {})" by (rule granted_admits [OF cs dn calls d(1,2)])
  show ?thesis
  proof (cases "q' = q")
    case True
    show ?thesis
    proof (rule in_line_admits [OF line])
      assume c: "c \<in> set cs"
      from cs [OF this] obtain k where "sl_call S c = Waits k q" using True by blast
      then show "c \<in> granted S' q \<or> sl_call S' c = Over" using c dn d(3) calls [of c] by (cases "d = c") (auto simp: granted_def)
    qed (use same [OF True] g True in auto)
  next
    case False
    then show ?thesis using line other [OF False] g by (auto simp: served_fair_def in_line_def)
  qed
qed

lemma in_line_freed:
  assumes inv: "slots_inv lim S" and line: "in_line c q A G S" and k: "rm_slots (sl_mgr S) k = Some q'"
    and S': "S' = set_call d Over (freeLocked k q' (sl_mgr S)) S"
  shows "served_fair c q A G S'"
proof -
  obtain cs where a: "admits q' cs (sl_mgr S) (freeLocked k q' (sl_mgr S))" using freeLocked_admits by blast
  show ?thesis
  proof (rule in_line_moves [OF line])
    show "\<exists>k'. sl_call S x = Waits k' q'" if "x \<in> set cs" for x
      by (rule waiter_waits(1) [OF inv k]) (use that a in \<open>simp add: admits_def\<close>)
    show "waiters (sl_mgr S) q = cs @ waiters (sl_mgr S') q \<and> waiters (sl_mgr S') q = waiters (sl_mgr S') q @ []" if "q' = q"
      using a that by (simp add: admits_def S' set_call_def)
  qed (use a in \<open>auto simp: admits_def S' set_call_def\<close>)
qed

lemma in_line_entered:
  assumes inv: "slots_inv lim S" and line: "in_line c q A G S" and key: "rm_slots (sl_mgr S) key = Some q" and d: "sl_call S d = NotCalled"
    and e: "AcquireSlot_enter d k limit (sl_mgr S) = (r, m)" and r: "r = SlotTaken q' \<and> x = Holds k q' \<or> r = SlotQueued q' \<and> x = Waits k q'"
    and S': "S' = set_call d x m S"
  shows "served_fair c q A G S'"
proof -
  have c: "c \<in> set (waiters (sl_mgr S) q)" using line by (auto simp: in_line_def)
  note cw = waiter_waits [OF inv key c]
  have dc: "d \<noteq> c" using d cw(1) by auto
  have dd: "d \<notin> rm_done (sl_mgr S)" using slots_baseD(4) [of lim S d] inv d by (auto simp: slots_inv_def)
  have r': "r = SlotTaken q' \<or> r = SlotQueued q'" using r by blast
  obtain cs m0 m2 where e': "slot_queue k (sl_mgr S) = (q', m0)" "admits q' cs (set_queue q' ((rm_heap m0 q')\<lparr>sq_limit := limit\<rparr>) m0) m2"
    "rm_done m = rm_done m2" "\<forall>q. q \<noteq> q' \<longrightarrow> rm_heap m q = rm_heap m2 q"
    "r = SlotTaken q' \<and> waiters m2 q' = [] \<and> waiters m q' = [] \<or> r = SlotQueued q' \<and> waiters m q' = waiters m2 q' @ [d]"
    by (rule enter_effect [OF e r'])
  note fr = slot_queue_frame [OF e'(1)]
  have w: "waiters m0 q' = cs @ waiters m2 q'" "rm_done m = rm_done (sl_mgr S) \<union> set cs" "\<And>q. q \<noteq> q' \<Longrightarrow> rm_heap m q = rm_heap m0 q"
    using e'(2-4) fr(1) by (auto simp: admits_def set_queue_def)
  have cs: "\<exists>k'. sl_call S y = Waits k' q'" if "y \<in> set cs" for y
  proof (cases "rm_slots (sl_mgr S) k")
    case None
    then show ?thesis using e'(1) w(1) that by (auto simp: slot_queue_def Let_def)
  next
    case (Some q0)
    then have "q0 = q'" "m0 = sl_mgr S" using e'(1) by (auto simp: slot_queue_def)
    then show ?thesis using waiter_waits(1) [OF inv] Some w(1) that by auto
  qed
  have nq: "waiters m0 q = waiters (sl_mgr S) q" using fr(3) [of q] cw(3) by simp
  show ?thesis
  proof (cases "r = SlotTaken q' \<and> q' = q")
    case True
    then have "c \<in> set cs" using c w(1) e'(5) nq by auto
    then have "c \<in> granted S' q" using cs [of c] True dc w(2) by (auto simp: granted_def S' set_call_def)
    then show ?thesis by (simp add: served_fair_def)
  next
    case False
    show ?thesis
    proof (rule in_line_moves [OF line cs, where rest = "waiters m2 q'" and new = "[d]"])
      show "waiters (sl_mgr S) q = cs @ waiters m2 q' \<and> waiters (sl_mgr S') q = waiters m2 q' @ [d]" if "q' = q"
        using that False r' e'(5) w(1) nq by (auto simp: S' set_call_def)
      show "d \<notin> rm_done (sl_mgr S')" if "sl_call S' d = Waits k' q" for k'
        using dd d w(2) cs [of d] by (auto simp: S' set_call_def)
      show "sl_call S' d \<noteq> Holds k' q" for k' using False r by (auto simp: S' set_call_def)
      show "waiters (sl_mgr S') q = waiters (sl_mgr S) q" if "q' \<noteq> q" using that w(3) [of q] nq by (simp add: S' set_call_def)
    qed (use dc w(2) in \<open>auto simp: S' set_call_def\<close>)
  qed
qed

lemma in_line_step:
  assumes inv: "slots_inv lim S" and line: "in_line c q A G S" and key: "rm_slots (sl_mgr S) key = Some q" and st: "slot_step lim S S'"
  shows "served_fair c q A G S'"
  using st
proof cases
  case (Take d limit k q' m)
  show ?thesis by (rule in_line_entered [OF inv line key Take(2,4) _ Take(1)]) simp
next
  case (Queue d limit k q' m)
  show ?thesis by (rule in_line_entered [OF inv line key Queue(2,4) _ Queue(1)]) simp
next
  case (Granted d k q')
  have "granted S' q = granted S q" using Granted by (auto simp: granted_def set_call_def)
  then show ?thesis using line Granted(1) by (auto simp: served_fair_def in_line_def set_call_def)
next
  case (Leave d k q')
  have k: "rm_slots (sl_mgr S) k = Some q'" using inv Leave(2) unfolding slots_inv_def slots_base_def by blast
  show ?thesis
  proof (cases "d \<in> set (waiters (sl_mgr S) q')")
    case True
    let ?m = "dropIdleLocked k q' (set_queue q' ((rm_heap (sl_mgr S) q')\<lparr>sq_waiters := remove1 d (waiters (sl_mgr S) q')\<rparr>) (sl_mgr S))"
    have S': "S' = set_call d Over ?m S" using True Leave(1) by (simp add: AcquireSlot_leave_def Let_def)
    have m: "rm_done ?m = rm_done (sl_mgr S)" "waiters ?m q = (if q = q' then remove1 d (waiters (sl_mgr S) q) else waiters (sl_mgr S) q)"
      by (simp_all add: dropIdleLocked_def set_queue_def)
    have g: "granted S' q \<subseteq> granted S q" using m(1) by (auto simp: S' granted_def set_call_def)
    show ?thesis
    proof (cases "d = c")
      case False
      have "in_line c q A G S'"
        using in_line_leaves [OF line _ False g] line g m(2) by (cases "q = q'") (auto simp: S' set_call_def in_line_def)
      then show ?thesis by (simp add: served_fair_def)
    qed (simp add: served_fair_def S' set_call_def)
  next
    case False
    show ?thesis by (rule in_line_freed [OF inv line k]) (use False Leave(1) in \<open>simp add: AcquireSlot_leave_def Let_def\<close>)
  qed
next
  case (Release d k q')
  have k: "rm_slots (sl_mgr S) k = Some q'" using inv Release(2) unfolding slots_inv_def slots_base_def by blast
  show ?thesis by (rule in_line_freed [OF inv line k Release(1)])
next
  case Close
  then have "granted S' q = granted S q" by (auto simp: granted_def)
  then show ?thesis using line Close by (auto simp: served_fair_def in_line_def)
qed

lemma served_fair_run:
  assumes "(slot_step lim)\<^sup>*\<^sup>* S S'" "slots_reach lim S" "served_fair c q A G S" "sl_call S c = Waits key q"
  shows "slots_reach lim S' \<and> served_fair c q A G S' \<and> (sl_call S' c = Waits key q \<or> sl_call S' c = Holds key q \<or> sl_call S' c = Over)"
  using assms(1)
proof (induction rule: rtranclp_induct)
  case base
  then show ?case using assms(2-4) by simp
next
  case (step T T')
  have reach: "slots_reach lim T'" using step(2,3) by (auto intro: slots_next)
  have call: "sl_call T' c = sl_call T c \<or> sl_call T' c = Over \<or> (\<exists>k q. sl_call T c = Waits k q \<and> sl_call T' c = Holds k q) \<or> sl_call T c = NotCalled"
    using step(2) by cases (auto simp: set_call_def)
  have over: "sl_call T c = Over \<Longrightarrow> sl_call T' c = Over" using step(2) by cases (auto simp: set_call_def)
  have "served_fair c q A G T'"
  proof (cases "sl_call T c = Over \<or> c \<in> granted T q")
    case True
    then show ?thesis using over granted_stays [OF step(2)] by (auto simp: served_fair_def)
  next
    case False
    then have line: "in_line c q A G T" using step(3) by (simp add: served_fair_def)
    have inv: "slots_inv lim T" using slots_reach_inv step(3) by blast
    have "rm_slots (sl_mgr T) key = Some q" using step(3) False inv unfolding slots_inv_def slots_base_def by blast
    then show ?thesis by (rule in_line_step [OF inv line _ step(2)])
  qed
  then show ?case using reach call over step(3) by auto
qed

section \<open>First come, first served\<close>

text \<open>C9: Slots are given in the order of arrival, in every interleaving. Let a call wait for a slot, and let any calls arrive, give up,
  release, or ask for other limits after that. As long as it waits, only calls that were ahead of it are ahead of it, in their
  order, and only those and the calls that had a slot at the start have one. So when the calls that had a slot or were
  ahead of it are over, it has been handed a slot, unless it ended itself. And letting the holders release, with nobody giving up, does
  give it its slot.\<close>

theorem slot_waiter_served:
  assumes "slots_reach lim S" "sl_call S c = Waits key q" "sq_waiters (rm_heap (sl_mgr S) q) = ahead @ c # behind"
  shows "(\<forall>S'. (slot_step lim)\<^sup>*\<^sup>* S S' \<longrightarrow>
      (sl_call S' c = Waits key q \<and> c \<notin> rm_done (sl_mgr S') \<longrightarrow>
        (\<exists>a b. sq_waiters (rm_heap (sl_mgr S') q) = a @ c # b \<and> subseq a ahead) \<and> granted S' q \<subseteq> granted S q \<union> set ahead)
      \<and> ((\<forall>d \<in> granted S q \<union> set ahead. sl_call S' d = Over) \<longrightarrow> sl_call S' c \<noteq> Over \<longrightarrow> c \<in> granted S' q))
    \<and> (\<exists>S'. (serve_step q)\<^sup>*\<^sup>* S S' \<and> sl_call S' c = Holds key q)"
proof (intro conjI allI impI)
  fix S' assume run: "(slot_step lim)\<^sup>*\<^sup>* S S'"
  have "served_fair c q ahead (granted S q) S" using assms(3) by (auto simp: served_fair_def in_line_def)
  note f = served_fair_run [OF run assms(1) this assms(2)]
  have inv: "slots_inv lim S'" using f slots_reach_inv by blast
  show "c \<in> granted S' q" if over: "\<forall>d \<in> granted S q \<union> set ahead. sl_call S' d = Over" and live: "sl_call S' c \<noteq> Over"
  proof (rule ccontr)
    assume n: "c \<notin> granted S' q"
    then have sub: "granted S' q \<subseteq> granted S q \<union> set ahead" using f live by (auto simp: served_fair_def in_line_def)
    have "rm_slots (sl_mgr S') key = Some q" using f live inv unfolding slots_inv_def slots_base_def by blast
    then have "queue_ok lim S' key q" "busy (sl_mgr S') q" using inv slots_baseD(1) by (auto simp: slots_inv_def)
    then have "granted S' q \<noteq> {}" by (auto simp: queue_ok_def busy_def Let_def)
    then obtain d where "d \<in> granted S' q" by blast
    then show False using sub over by (auto simp: granted_def)
  qed
  assume w: "sl_call S' c = Waits key q \<and> c \<notin> rm_done (sl_mgr S')"
  then have "c \<notin> granted S' q" by (auto simp: granted_def)
  then have "in_line c q ahead (granted S q) S'" using f w by (simp add: served_fair_def)
  then show "\<exists>a b. sq_waiters (rm_heap (sl_mgr S') q) = a @ c # b \<and> subseq a ahead" "granted S' q \<subseteq> granted S q \<union> set ahead"
    by (auto simp: in_line_def)
next
  show "\<exists>S'. (serve_step q)\<^sup>*\<^sup>* S S' \<and> sl_call S' c = Holds key q" by (rule waiter_can_be_served [OF assms(1,2)])
qed

text \<open>One call holds the only slot, one waits, a third arrives, and the holder releases: the one that waited has the slot.\<close>

definition demo_third :: slots_state where
  "demo_third = set_call 2 (Waits ''k'' 0) (snd (AcquireSlot_enter 2 ''k'' 1 (sl_mgr demo_wait))) demo_wait"

definition demo_released :: slots_state where
  "demo_released = set_call 0 Over (freeLocked ''k'' 0 (sl_mgr demo_third)) demo_third"

lemmas fair_defs = demo_third_def demo_released_def freeLocked_def dropIdleLocked_def demo_defs

lemma demo_run: "(slot_step (\<lambda>_. 1))\<^sup>*\<^sup>* demo_wait demo_released"
proof -
  have "slot_step (\<lambda>_. 1) demo_wait demo_third"
    unfolding demo_third_def by (rule slot_step.Queue [where limit = 1]) (simp_all add: demo_defs)
  moreover have "slot_step (\<lambda>_. 1) demo_third demo_released"
    unfolding demo_released_def by (rule slot_step.Release) (simp add: fair_defs)
  ultimately show ?thesis by (meson converse_rtranclp_into_rtranclp rtranclp.rtrancl_refl)
qed

theorem slot_waiter_served_witness:
  "slots_reach (\<lambda>_. 1) demo_wait \<and> (slot_step (\<lambda>_. 1))\<^sup>*\<^sup>* demo_wait demo_released \<and> sl_call demo_released 2 = Waits ''k'' 0
   \<and> 1 \<in> granted demo_released 0 \<and> (\<exists>S'. (serve_step 0)\<^sup>*\<^sup>* demo_wait S' \<and> sl_call S' 1 = Holds ''k'' 0)"
proof -
  have w: "sq_waiters (rm_heap (sl_mgr demo_wait) 0) = [] @ 1 # []" by (simp add: demo_defs)
  have g: "\<forall>d \<in> granted demo_wait 0 \<union> set []. sl_call demo_released d = Over" by (auto simp: granted_def fair_defs split: if_splits)
  have c: "sl_call demo_released 1 \<noteq> Over" "sl_call demo_released 2 = Waits ''k'' 0" by (simp_all add: fair_defs)
  from slot_waiter_served [OF demo_reach demo_calls(2) w] demo_run g c(1)
  have "1 \<in> granted demo_released 0" "\<exists>S'. (serve_step 0)\<^sup>*\<^sup>* demo_wait S' \<and> sl_call S' 1 = Holds ''k'' 0" by blast+
  then show ?thesis using demo_reach demo_run c(2) by blast
qed

end
