(* ===== verification/Spec2Isabelle.thy ===== *)
theory Spec2Isabelle
  imports Pitr_Plan_Complete Models_Backup Pitr_Windows Ha_Props Ha_Snapshots Runs_Keys Runs_Locks
    Auth_Throttle Ratelimit Pitr_Retention Pitr_Recovery Runs_Fair
begin

text \<open>
  A verification development for MongoRescue, a service that backs up and restores MongoDB replica sets.

  \<^bold>\<open>The program and what is modelled.\<close> For point-in-time recovery a collector copies the oplog of a replica set, tick by
  tick, into chunk objects on a storage target and records them in SQLite tables; a planner picks a base backup and the chunks that
  lead from it to a target time; a status page shows the windows that can be restored; retention deletes what no kept base
  needs. Two instances of the service may share a storage target, of which one holds a lease and works. A run manager admits
  operations, and sign-in and logging are rate limited. The theories below model these parts; each opens with the source files
  it translates.

  \<^item> \<open>Mr_Prelude\<close>, \<open>Go_Text\<close>: Go's times, durations and int64 arithmetic, sorting and runs of lists, decimal and hexadecimal
    texts. A time is its number of nanoseconds as an \<open>int\<close>; where the source multiplies durations the wrap-around is written out.
    Oplog positions, epochs and sequence numbers are words of their width. A fallible operation returns a sum with the error
    on the left.
  \<^item> \<open>Pitr_Types\<close>, \<open>Pitr_Repo\<close>: the types of \<open>src/internal/pitr/pitr.go\<close> and every statement of \<open>src/internal/store/pitr.go\<close> on the four
    tables (streams, chains, chunks, state), as functions from tables to an error or new tables. \<open>Pitr_Repo_Inv\<close>,
    \<open>Pitr_Repo_Steps\<close> and \<open>Pitr_Repo_Props\<close>: the table invariant \<open>pitr_inv\<close>, its preservation by every statement, the reachable
    tables, and what callers are promised: unbroken chains, one open chain, commits that continue the position, exact
    supersession, and objects that are tracked until they are pruned.
  \<^item> \<open>Pitr_Plan\<close>: \<open>src/internal/pitr/plan.go\<close>, targets, planning and the recheck of a plan. \<open>Pitr_Plan_Props\<close>,
    \<open>Pitr_Plan_Complete\<close>: the planner reads the repository through the locale \<open>plan_repository\<close>, interpreted on the SQLite
    statements; a plan loses no position, uses the newest base that works, exists under stated conditions, and the recheck is exact.
  \<^item> \<open>Models_Backup\<close>: backup records and copies, \<open>src/internal/models/backup.go\<close> and \<open>copy.go\<close>: deletion and undeletion, unsaved
    records, copy targets.
  \<^item> \<open>Pitr_Segments\<close>, \<open>Pitr_Windows\<close>: segments, base status and windows of \<open>src/internal/pitr/collector/segments.go\<close> and
    \<open>status.go\<close>, the bases \<open>src/internal/operations/pitrrestore.go\<close> offers, and when a shown window can be restored.
  \<^item> \<open>Pitr_Retention\<close>: pins (\<open>src/internal/pitr/pins.go\<close>) and retention (\<open>src/internal/pitr/collector/retention.go\<close>): what a pass keeps.
  \<^item> \<open>Oplog_Scanner\<close>, \<open>Oplog_Copy\<close>, \<open>Pitr_Chunk\<close>: framing of oplog documents (\<open>src/internal/oplog/oplog.go\<close>, \<open>scanner.go\<close>), the range
    read (\<open>src/internal/mongoconn/oplog.go\<close>) and the pipeline that writes one chunk (\<open>src/internal/pitr/collector/chunk.go\<close>): the
    scanner sees what the reader reads, a range read is exact, and a committed row describes its object.
  \<^item> \<open>Pitr_Worker\<close>: one tick of a stream's collector with every branch, \<open>src/internal/pitr/collector/worker.go\<close>. \<open>Pitr_Collect\<close>,
    \<open>Pitr_Collect_Ticks\<close>, \<open>Pitr_Collect_Props\<close>: the invariant of the collector, kept by ticks, restarts and the statements of other
    components in any order, and the completeness of the collected oplog. \<open>Pitr_Recovery\<close> and this theory join it with the planner:
    a restore replays the history.
  \<^item> \<open>Storage_Lease\<close>: conditional writes and their probe, \<open>src/internal/storage/lease.go\<close> and \<open>lease_local.go\<close>, with the contract
    \<open>lease_store\<close> and its extension \<open>probed_store\<close>, both interpreted on the local driver.
  \<^item> \<open>Ha_Lease\<close>, \<open>Ha_Manager\<close>: the lease, its MAC and the state file (\<open>src/internal/ha/lease.go\<close>, \<open>state.go\<close>), and the manager of one
    instance (\<open>manager.go\<close>). \<open>Ha_Cluster\<close> runs any number of managers over one store, with delayed and lost requests, crashes and
    clocks of different origin; \<open>Ha_Cluster_Inv\<close>, \<open>Ha_Cluster_Steps\<close>, \<open>Ha_Safety\<close> (locale \<open>ha_store\<close>, interpreted on the local driver)
    and \<open>Ha_Props\<close> show mutual exclusion, fencing epochs, takeovers and deadlines. \<open>Ha_Snapshots\<close>: listing, selection, cache and
    pruning of metadata snapshots (\<open>snapshot.go\<close>, \<open>snapshotheader.go\<close>).
  \<^item> \<open>Runs_Slots\<close>, \<open>Runs_Fair\<close>, \<open>Runs_Keys\<close>, \<open>Runs_Locks\<close>: counted slots, run keys, critical steps and keyed mutexes of \<open>src/internal/runs\<close>.
    Every critical section under a Go mutex is one function, channels and pointers live in explicit heaps, and an inductive
    step relation interleaves the calls.
  \<^item> \<open>Auth_Throttle\<close> (\<open>src/internal/auth/throttle.go\<close>), \<open>Ratelimit\<close> (\<open>src/internal/ratelimit/ratelimit.go\<close>): who is admitted, how long a
    lockout holds, what is evicted.

  \<^bold>\<open>Parameters.\<close> What is not in the repository is an argument: the BSON codec, compression, encryption and hashes, the answers of
  the MongoDB server and of storage targets, the token bucket library, clocks, random IDs, the order in which Go walks a map, and whether
  a context has ended. Where a theorem needs something of them it is a named hypothesis (stored objects open to what was sealed, members
  hold stretches of one history, versions of different contents differ), and its witness instantiates it.

  \<^bold>\<open>Bounds.\<close> No definition uses fuel: loops are structural or come with a termination proof. Theorems about a cluster assume that the
  accepted writes and the first epoch together stay below the uint64 range; the theorem about the log gate assumes fewer keys than its cap,
  where it starts to forget. \<open>go_TrimSpace\<close> knows the white space of ASCII, and strings are bytes.

  \<^bold>\<open>Not modelled.\<close> The sweep of orphan objects, which changes no row; the supervisor that starts and stops collectors, pausing, stream
  settings and the re-reading of stored chunks; filtering of oplog entries and archives; the S3 driver; the other tables of the store
  with their migrations; users, sessions and roles; the HTTP, command-line and desktop front ends; backup and restore pipelines; scheduling,
  notifications, keys, settings, audit and metrics. They are I/O, calls of libraries and external tools, or wiring around the parts above.
  Errors of the database itself are left out: they roll the transaction back.
\<close>

section \<open>From the oplog to a restore\<close>

text \<open>C1: From the oplog to the restore: whatever interleaving of ticks, restarts and other components' statements led to the stored
  chunks, the objects of a restore plan's chunks open, and between the base's T_before and the plan's limit they hold exactly the
  entries of the replica set's history, each once and in order.\<close>

theorem restore_replays_history:
  assumes "(collecting b opens H)\<^sup>*\<^sup>* (new_collector st db objs) s" "\<forall>d \<in> set H. framed b d" "in_order b H" "pitr_inv db" "gone (st_ID st) db"
    and "PlanRestore (Some st) (sql_source (wy_db s) bases hk) target = Ok plan"
  shows "\<exists>docs. map (opened opens (wy_objs s)) (rp_Chunks plan) = map (\<lambda>ds. Some (concat ds)) docs
    \<and> filter (\<lambda>d. ot_TS (b_TBefore (rp_Base plan)) < doc_ts b d \<and> doc_ts b d \<le> rp_Limit plan) (concat docs)
      = filter (\<lambda>d. ot_TS (b_TBefore (rp_Base plan)) < doc_ts b d \<and> doc_ts b d \<le> rp_Limit plan) H"
  using collecting_inv [OF assms(1,2,4,5)] plan_opens [OF _ _ assms(3,6)] by blast

theorem restore_replays_history_witness:
  "\<exists>s plan docs. (collecting sample_codec (\<lambda>x. Some (rev x)) sample_oplog)\<^sup>*\<^sup>* sample_start s
     \<and> PlanRestore (Some sample_stream) (sql_source (wy_db s) [early_base] (Some (\<lambda>_. True))) early_target = Ok plan
     \<and> map (opened (\<lambda>x. Some (rev x)) (wy_objs s)) (rp_Chunks plan) = map (\<lambda>ds. Some (concat ds)) docs
     \<and> filter (\<lambda>d. ot_TS (b_TBefore (rp_Base plan)) < doc_ts sample_codec d \<and> doc_ts sample_codec d \<le> rp_Limit plan) (concat docs)
       = [[5, 0, 0, 0, 2]]"
proof -
  obtain s where s: "(collecting sample_codec (\<lambda>x. Some (rev x)) sample_oplog)\<^sup>*\<^sup>* sample_start s" "wy_db s = sample_stored"
    using sample_run by blast
  let ?db = "empty_db\<lparr>db_streams := [sample_stream\<lparr>st_CreatedAt := 7, st_UpdatedAt := 7\<rparr>]\<rparr>"
  have inv: "pitr_inv ?db" using inv_CreateStream [OF pitr_inv_empty sample_create] .
  have gone: "gone (st_ID sample_stream) ?db" by (simp add: gone_def srows_def scores_def schains_def empty_db_def)
  have H: "in_order sample_codec sample_oplog" by (simp add: sample_oplog_def doc_ts_def sample_codec_ts less_Timestamp_def)
  have inv': "pitr_inv (wy_db s)" using collecting_inv [OF s(1) [unfolded sample_start_def] sample_framed inv gone] by (simp add: collect_inv_def)
  let ?c = "sample_chain\<lparr>cn_Start := Timestamp 1 0\<rparr>"
  have lc: "ListChains (st_ID sample_stream) (wy_db s) = [] @ ?c # []"
    by (simp add: s(2) ListChains_def sample_stored_def low_db_def sample_started_def sample_chain_def)
  have ll: "live_listing (st_ID sample_stream) (cn_ChainID ?c) (wy_db s) = [] @ [first_chunk] @ []"
    by (simp add: live_listing_def live_rows_def s(2) sample_stored_def first_chunk_fields sample_chain_def)
  have lim: "Limit early_target = Ok (Timestamp 2 0)" by (simp add: Limit_def early_target_def ts_IsZero_def)
  have "\<exists>plan. PlanRestore (Some sample_stream) (sql_source (wy_db s) [early_base] (Some (\<lambda>_. True))) early_target = Ok plan"
    by (rule sql.plan_found [OF inv' lim _ _ _ lc _ ll early_leads])
       (simp_all add: early_base_def less_Timestamp_def ts_IsZero_def)
  then obtain plan where p: "PlanRestore (Some sample_stream) (sql_source (wy_db s) [early_base] (Some (\<lambda>_. True))) early_target = Ok plan" by blast
  have "\<exists>limit. Limit early_target = Ok limit \<and> rp_Limit plan = limit \<and> rp_Base plan \<in> set [early_base]"
    by (rule sql.plan_chunks [OF inv' p]) blast
  then have bl: "rp_Limit plan = Timestamp 2 0" "ot_TS (b_TBefore (rp_Base plan)) = Timestamp 1 0" using lim by (auto simp: early_base_def)
  have "filter (\<lambda>d. Timestamp 1 0 < doc_ts sample_codec d \<and> doc_ts sample_codec d \<le> Timestamp 2 0) sample_oplog = [[5, 0, 0, 0, 2]]"
    by (simp add: sample_oplog_def doc_ts_def sample_codec_ts less_eq_Timestamp_def less_Timestamp_def)
  note f = this
  obtain docs where "map (opened (\<lambda>x. Some (rev x)) (wy_objs s)) (rp_Chunks plan) = map (\<lambda>ds. Some (concat ds)) docs"
    "filter (\<lambda>d. ot_TS (b_TBefore (rp_Base plan)) < doc_ts sample_codec d \<and> doc_ts sample_codec d \<le> rp_Limit plan) (concat docs) = [[5, 0, 0, 0, 2]]"
    using restore_replays_history [OF s(1) [unfolded sample_start_def] sample_framed H inv gone p] unfolding bl f by blast
  then show ?thesis using s(1) p by blast
qed

end
